(* ===== verification/Prelude.thy ===== *)
theory Prelude
  imports Main "HOL-Library.Sublist" "HOL-Library.Char_ord" "HOL-Library.List_Lexorder"
begin

text \<open>
  Shared vocabulary of the development.

  A Rust \<^verbatim>\<open>String\<close> or \<^verbatim>\<open>&str\<close> is its sequence of UTF-8 bytes, a HOL \<open>string\<close>
  whose \<open>char\<close>s are bytes: lengths and slices count bytes, as in Rust, and a search for an
  ASCII character or for a whole string works on bytes. The functions that look at code points
  (\<^verbatim>\<open>trim\<close>, \<^verbatim>\<open>char::is_whitespace\<close>) match the UTF-8 encodings of the code points.
  A Rust \<^verbatim>\<open>Result<T, E>\<close> is the sum \<open>'e + 'a\<close> with \<open>Err = Inl\<close> and \<open>Ok = Inr\<close>.
  Paths are Unix paths (\<^verbatim>\<open>cfg(not(windows))\<close>).
\<close>

named_theorems str_simps \<open>evaluation of the string functions of the standard library\<close>

section \<open>Results\<close>

type_synonym ('e, 'a) result = "'e + 'a"

abbreviation Err :: "'e \<Rightarrow> ('e, 'a) result" where
  "Err \<equiv> Inl"

abbreviation Ok :: "'a \<Rightarrow> ('e, 'a) result" where
  "Ok \<equiv> Inr"

definition res_bind :: "('e, 'a) result \<Rightarrow> ('a \<Rightarrow> ('e, 'b) result) \<Rightarrow> ('e, 'b) result" where
  "res_bind r f = (case r of Inl e \<Rightarrow> Inl e | Inr a \<Rightarrow> f a)"

definition map_err :: "('e \<Rightarrow> 'f) \<Rightarrow> ('e, 'a) result \<Rightarrow> ('f, 'a) result" where
  "map_err f r = (case r of Inl e \<Rightarrow> Err (f e) | Inr a \<Rightarrow> Ok a)"

definition is_ok :: "('e, 'a) result \<Rightarrow> bool" where
  "is_ok r = (case r of Inl _ \<Rightarrow> False | Inr _ \<Rightarrow> True)"

fun map_res :: "('a \<Rightarrow> ('e, 'b) result) \<Rightarrow> 'a list \<Rightarrow> ('e, 'b list) result" where
  "map_res f [] = Ok []"
| "map_res f (x # xs) =
     res_bind (f x) (\<lambda>y. res_bind (map_res f xs) (\<lambda>ys. Ok (y # ys)))"

lemma res_bind_simps [simp]:
  "res_bind (Inl e) f = Inl e"
  "res_bind (Inr a) f = f a"
  by (simp_all add: res_bind_def)

lemma res_bind_Inr_iff:
  "res_bind r f = Inr b \<longleftrightarrow> (\<exists>a. r = Inr a \<and> f a = Inr b)"
  by (cases r) auto

lemma res_bind_Inl_iff:
  "res_bind r f = Inl e \<longleftrightarrow> r = Inl e \<or> (\<exists>a. r = Inr a \<and> f a = Inl e)"
  by (cases r) auto

lemma map_err_simps [simp]: "map_err f (Inl e) = Inl (f e)" "map_err f (Inr a) = Inr a"
  by (simp_all add: map_err_def)

lemma map_err_Inr_iff: "map_err f r = Inr a \<longleftrightarrow> r = Inr a"
  by (cases r) auto

lemma is_ok_simps [simp]: "is_ok (Inl e) = False" "is_ok (Inr a) = True"
  by (simp_all add: is_ok_def)

lemma map_res_Inr_length: "map_res f xs = Inr ys \<Longrightarrow> length ys = length xs"
  by (induction xs arbitrary: ys) (auto simp: res_bind_Inr_iff)

lemma map_res_Inr_all2: "map_res f xs = Inr ys \<Longrightarrow> list_all2 (\<lambda>x y. f x = Inr y) xs ys"
  by (induction xs arbitrary: ys) (auto simp: res_bind_Inr_iff)

section \<open>Lists\<close>

text \<open>\<^verbatim>\<open>Iterator::filter_map\<close> and \<^verbatim>\<open>find_map\<close>.\<close>

abbreviation filter_map :: "('a \<Rightarrow> 'b option) \<Rightarrow> 'a list \<Rightarrow> 'b list" where
  "filter_map \<equiv> List.map_filter"

fun find_map :: "('a \<Rightarrow> 'b option) \<Rightarrow> 'a list \<Rightarrow> 'b option" where
  "find_map f [] = None"
| "find_map f (x # xs) = (case f x of None \<Rightarrow> find_map f xs | Some y \<Rightarrow> Some y)"

lemma filter_map_append [simp]: "filter_map f (xs @ ys) = filter_map f xs @ filter_map f ys"
  by (simp add: List.map_filter_def)

lemma in_set_filter_map: "y \<in> set (filter_map f xs) \<longleftrightarrow> (\<exists>x \<in> set xs. f x = Some y)"
  by (induction xs) (auto split: option.splits)

lemma filter_map_eq_Nil: "filter_map f xs = [] \<longleftrightarrow> (\<forall>x \<in> set xs. f x = None)"
  by (induction xs) (auto split: option.splits)

text \<open>\<^verbatim>\<open>Iterator::max_by_key\<close>: of several maximal elements the last one.\<close>

fun max_by_key :: "('a \<Rightarrow> 'k::linorder) \<Rightarrow> 'a list \<Rightarrow> 'a option" where
  "max_by_key k [] = None"
| "max_by_key k (x # xs) =
     (case max_by_key k xs of None \<Rightarrow> Some x | Some y \<Rightarrow> if k x \<le> k y then Some y else Some x)"

lemma max_by_key_None [simp]: "max_by_key k xs = None \<longleftrightarrow> xs = []"
  by (cases xs) (auto split: option.splits)

lemma max_by_key_Some:
  "max_by_key k xs = Some x \<Longrightarrow> x \<in> set xs \<and> (\<forall>y \<in> set xs. k y \<le> k x)"
proof (induction xs arbitrary: x)
  case (Cons a xs)
  show ?case
  proof (cases "max_by_key k xs")
    case None
    then show ?thesis using Cons.prems by simp
  next
    case (Some y)
    then show ?thesis
      using Cons.IH [OF Some] Cons.prems by (auto split: if_splits intro: order_trans)
  qed
qed simp

text \<open>\<^verbatim>\<open>Result::ok\<close>.\<close>

definition res_ok :: "('e, 'a) result \<Rightarrow> 'a option" where
  "res_ok r = (case r of Inr a \<Rightarrow> Some a | Inl _ \<Rightarrow> None)"

lemma find_map_None_iff: "find_map f xs = None \<longleftrightarrow> (\<forall>x \<in> set xs. f x = None)"
  by (induction xs) (auto split: option.splits)

lemma find_map_Some: "find_map f xs = Some y \<Longrightarrow> \<exists>x \<in> set xs. f x = Some y"
  by (induction xs) (auto split: option.splits)

lemma find_map_cong [fundef_cong]:
  "xs = ys \<Longrightarrow> (\<And>x. x \<in> set ys \<Longrightarrow> f x = g x) \<Longrightarrow> find_map f xs = find_map g ys"
  by (induction ys arbitrary: xs) (auto split: option.splits)

section \<open>Outcomes of operating system calls\<close>

text \<open>The kinds of error the sources distinguish.\<close>

datatype io_error = AlreadyExists | NotFound | OtherIo string

type_synonym outcome = "(io_error, unit) result"

section \<open>Byte strings\<close>

abbreviation NL :: char where "NL \<equiv> CHR 0x0A"

abbreviation CR :: char where "CR \<equiv> CHR 0x0D"

definition strip_prefix :: "string \<Rightarrow> string \<Rightarrow> string option" where
  "strip_prefix p s = (if prefix p s then Some (drop (length p) s) else None)"

definition ends_with :: "string \<Rightarrow> string \<Rightarrow> bool" where
  "ends_with s p = prefix (rev p) (rev s)"

definition strip_suffix :: "string \<Rightarrow> string \<Rightarrow> string option" where
  "strip_suffix p s = (if ends_with s p then Some (take (length s - length p) s) else None)"

fun contains :: "string \<Rightarrow> string \<Rightarrow> bool" where
  "contains [] p = (p = [])"
| "contains (c # s) p = (prefix p (c # s) \<or> contains s p)"

fun split_on :: "char \<Rightarrow> string \<Rightarrow> string list" where
  "split_on d [] = [[]]"
| "split_on d (c # cs) =
     (if c = d then [] # split_on d cs
      else (case split_on d cs of [] \<Rightarrow> [[c]] | w # ws \<Rightarrow> (c # w) # ws))"

fun split_inclusive :: "char \<Rightarrow> string \<Rightarrow> string list" where
  "split_inclusive d [] = []"
| "split_inclusive d (c # cs) =
     (if c = d then [c] # split_inclusive d cs
      else (case split_inclusive d cs of [] \<Rightarrow> [[c]] | w # ws \<Rightarrow> (c # w) # ws))"

fun split_once :: "char \<Rightarrow> string \<Rightarrow> (string \<times> string) option" where
  "split_once d [] = None"
| "split_once d (c # cs) =
     (if c = d then Some ([], cs)
      else map_option (\<lambda>(a, b). (c # a, b)) (split_once d cs))"

definition rsplit_once :: "char \<Rightarrow> string \<Rightarrow> (string \<times> string) option" where
  "rsplit_once d s = map_option (\<lambda>(a, b). (rev b, rev a)) (split_once d (rev s))"

fun join :: "string \<Rightarrow> string list \<Rightarrow> string" where
  "join sep [] = []"
| "join sep [x] = x"
| "join sep (x # y # xs) = x @ sep @ join sep (y # xs)"

definition line_of :: "string \<Rightarrow> string" where
  "line_of s =
     (case strip_suffix [NL] s of
        None \<Rightarrow> s
      | Some l \<Rightarrow> (case strip_suffix [CR] l of None \<Rightarrow> l | Some l' \<Rightarrow> l'))"

definition str_lines :: "string \<Rightarrow> string list" where
  "str_lines s = map line_of (split_inclusive NL s)"

definition is_ascii_digit :: "char \<Rightarrow> bool" where
  "is_ascii_digit c = (c \<in> set ''0123456789'')"

definition ascii_lower :: "char \<Rightarrow> char" where
  "ascii_lower c =
     (case map_of (zip ''ABCDEFGHIJKLMNOPQRSTUVWXYZ'' ''abcdefghijklmnopqrstuvwxyz'') c of
        Some d \<Rightarrow> d
      | None \<Rightarrow> c)"

definition to_ascii_lowercase :: "string \<Rightarrow> string" where
  "to_ascii_lowercase s = map ascii_lower s"

definition trim_end_char :: "char \<Rightarrow> string \<Rightarrow> string" where
  "trim_end_char d s = rev (dropWhile (\<lambda>c. c = d) (rev s))"

text \<open>
  The UTF-8 encodings of the code points with the Unicode property \<^verbatim>\<open>White_Space\<close>, the
  ones \<^verbatim>\<open>char::is_whitespace\<close> accepts.
\<close>

definition white_space :: "string list" where
  "white_space =
     [[CHR 0x20], [CHR 0x09], [CHR 0x0A], [CHR 0x0B], [CHR 0x0C], [CHR 0x0D],
      [CHR 0xC2, CHR 0x85], [CHR 0xC2, CHR 0xA0], [CHR 0xE1, CHR 0x9A, CHR 0x80],
      [CHR 0xE2, CHR 0x80, CHR 0x80], [CHR 0xE2, CHR 0x80, CHR 0x81],
      [CHR 0xE2, CHR 0x80, CHR 0x82], [CHR 0xE2, CHR 0x80, CHR 0x83],
      [CHR 0xE2, CHR 0x80, CHR 0x84], [CHR 0xE2, CHR 0x80, CHR 0x85],
      [CHR 0xE2, CHR 0x80, CHR 0x86], [CHR 0xE2, CHR 0x80, CHR 0x87],
      [CHR 0xE2, CHR 0x80, CHR 0x88], [CHR 0xE2, CHR 0x80, CHR 0x89],
      [CHR 0xE2, CHR 0x80, CHR 0x8A], [CHR 0xE2, CHR 0x80, CHR 0xA8],
      [CHR 0xE2, CHR 0x80, CHR 0xA9], [CHR 0xE2, CHR 0x80, CHR 0xAF],
      [CHR 0xE2, CHR 0x81, CHR 0x9F], [CHR 0xE3, CHR 0x80, CHR 0x80]]"

text \<open>Drop, from the front, every leading member of a list of encodings.\<close>

function strip_all :: "string list \<Rightarrow> string \<Rightarrow> string" where
  "strip_all ws s =
     (case find (\<lambda>w. w \<noteq> [] \<and> prefix w s) ws of
        None \<Rightarrow> s
      | Some w \<Rightarrow> strip_all ws (drop (length w) s))"
  by pat_completeness auto
termination
proof (relation "measure (\<lambda>(ws, s). length s)", goal_cases)
  case (2 ws s w)
  then have "w \<noteq> []" "prefix w s"
    by (auto simp: find_Some_iff)
  then show ?case
    by (cases w) (auto simp: prefix_def)
qed simp

declare strip_all.simps [simp del]

definition starts_ws :: "string list \<Rightarrow> string \<Rightarrow> bool" where
  "starts_ws ws s = (\<exists>w \<in> set ws. w \<noteq> [] \<and> prefix w s)"

definition trim_start :: "string \<Rightarrow> string" where
  "trim_start s = strip_all white_space s"

definition trim_end :: "string \<Rightarrow> string" where
  "trim_end s = rev (strip_all (map rev white_space) (rev s))"

definition trim :: "string \<Rightarrow> string" where
  "trim s = trim_end (trim_start s)"

fun has_white_space :: "string \<Rightarrow> bool" where
  "has_white_space [] = False"
| "has_white_space (c # s) = (starts_ws white_space (c # s) \<or> has_white_space s)"

lemmas [str_simps] =
  strip_prefix_def ends_with_def strip_suffix_def line_of_def str_lines_def is_ascii_digit_def
  ascii_lower_def to_ascii_lowercase_def trim_end_char_def trim_def trim_start_def trim_end_def
  white_space_def strip_all.simps starts_ws_def rsplit_once_def

subsection \<open>Prefixes and suffixes\<close>

lemma strip_prefix_Some_iff: "strip_prefix p s = Some t \<longleftrightarrow> s = p @ t"
  by (auto simp: strip_prefix_def prefix_def)

lemma strip_prefix_None_iff: "strip_prefix p s = None \<longleftrightarrow> \<not> prefix p s"
  by (auto simp: strip_prefix_def)

lemma strip_prefix_append [simp]: "strip_prefix p (p @ t) = Some t"
  by (simp add: strip_prefix_def)

lemma ends_with_iff: "ends_with s p \<longleftrightarrow> suffix p s"
  by (simp add: ends_with_def suffix_to_prefix)

lemma strip_suffix_Some_iff: "strip_suffix p s = Some t \<longleftrightarrow> s = t @ p"
  by (auto simp: strip_suffix_def ends_with_iff suffix_def)

lemma strip_suffix_None_iff: "strip_suffix p s = None \<longleftrightarrow> \<not> suffix p s"
  by (auto simp: strip_suffix_def ends_with_iff)

lemma contains_iff: "contains s p \<longleftrightarrow> (\<exists>u v. s = u @ p @ v)"
proof (induction s)
  case Nil
  then show ?case by simp
next
  case (Cons c s)
  show ?case
  proof
    assume "contains (c # s) p"
    then consider "prefix p (c # s)" | "contains s p" by auto
    then show "\<exists>u v. c # s = u @ p @ v"
    proof cases
      case 1
      then obtain v where "c # s = [] @ p @ v" by (auto simp: prefix_def)
      then show ?thesis by blast
    next
      case 2
      then obtain u v where "c # s = (c # u) @ p @ v" using Cons.IH by auto
      then show ?thesis by blast
    qed
  next
    assume "\<exists>u v. c # s = u @ p @ v"
    then obtain u v where uv: "c # s = u @ p @ v" by blast
    show "contains (c # s) p"
    proof (cases u)
      case Nil
      with uv have "prefix p (c # s)" by (auto simp: prefix_def)
      then show ?thesis by simp
    next
      case (Cons d u')
      with uv have "s = u' @ p @ v" by simp
      then show ?thesis using Cons.IH by auto
    qed
  qed
qed

lemma contains_char_iff: "contains s [c] \<longleftrightarrow> c \<in> set s"
  by (auto simp: contains_iff in_set_conv_decomp)

subsection \<open>Splitting and joining\<close>

lemma split_on_not_Nil [simp]: "split_on d s \<noteq> []"
  by (induction s) (auto split: list.splits)

lemma split_on_no_sep: "d \<notin> set s \<Longrightarrow> split_on d s = [s]"
  by (induction s) auto

lemma split_on_append: "split_on d (s @ d # t) = split_on d s @ split_on d t"
  by (induction s) (auto split: list.splits)

lemma split_on_pieces: "w \<in> set (split_on d s) \<Longrightarrow> d \<notin> set w"
  by (induction s arbitrary: w) (auto split: list.splits if_splits)

lemma join_split_on: "join [d] (split_on d s) = s"
proof (induction s)
  case Nil
  then show ?case by simp
next
  case (Cons c s)
  obtain w ws where "split_on d s = w # ws"
    by (cases "split_on d s") auto
  with Cons show ?case by (cases ws) auto
qed

lemma join_Cons: "xs \<noteq> [] \<Longrightarrow> join sep (x # xs) = x @ sep @ join sep xs"
  by (cases xs) auto

lemma join_append: "xs \<noteq> [] \<Longrightarrow> ys \<noteq> [] \<Longrightarrow> join sep (xs @ ys) = join sep xs @ sep @ join sep ys"
  by (induction xs rule: list_nonempty_induct) (auto simp: join_Cons)

lemma split_on_join:
  "xs \<noteq> [] \<Longrightarrow> \<forall>x \<in> set xs. d \<notin> set x \<Longrightarrow> split_on d (join [d] xs) = xs"
proof (induction "[d]" xs rule: join.induct)
  case (3 x y xs)
  then show ?case
    using split_on_append [of d x "join [d] (y # xs)"] by (simp add: split_on_no_sep)
qed (auto simp: split_on_no_sep)

lemma concat_split_inclusive: "concat (split_inclusive d s) = s"
  by (induction s) (auto split: list.splits)

lemma split_inclusive_eq_Nil [simp]: "split_inclusive d s = [] \<longleftrightarrow> s = []"
  by (cases s) (auto split: list.splits)

lemma split_inclusive_no_sep: "s \<noteq> [] \<Longrightarrow> d \<notin> set s \<Longrightarrow> split_inclusive d s = [s]"
  by (induction s rule: list_nonempty_induct) auto

lemma split_inclusive_append_sep:
  "split_inclusive d (s @ d # t) = split_inclusive d (s @ [d]) @ split_inclusive d t"
  by (induction s) (auto split: list.splits)

lemma split_inclusive_line:
  "d \<notin> set s \<Longrightarrow> split_inclusive d (s @ d # t) = (s @ [d]) # split_inclusive d t"
  by (induction s) (auto split: list.splits)

lemma split_once_Some_iff:
  "split_once d s = Some (a, b) \<longleftrightarrow> s = a @ d # b \<and> d \<notin> set a"
proof (induction s arbitrary: a)
  case Nil
  then show ?case by simp
next
  case (Cons c s)
  then show ?case by (cases a) auto
qed

lemma split_once_None_iff: "split_once d s = None \<longleftrightarrow> d \<notin> set s"
  by (induction s) auto

lemma rsplit_once_Some_iff:
  "rsplit_once d s = Some (a, b) \<longleftrightarrow> s = a @ d # b \<and> d \<notin> set b"
proof -
  have "rsplit_once d s = Some (a, b) \<longleftrightarrow> split_once d (rev s) = Some (rev b, rev a)"
    by (auto simp: rsplit_once_def)
  also have "\<dots> \<longleftrightarrow> rev s = rev b @ d # rev a \<and> d \<notin> set b"
    by (simp add: split_once_Some_iff)
  also have "rev s = rev b @ d # rev a \<longleftrightarrow> s = a @ d # b"
    by (metis append.assoc append_Cons append_Nil rev.simps(2) rev_append rev_rev_ident)
  finally show ?thesis .
qed

subsection \<open>Trimming\<close>

lemma find_ws_None: "find (\<lambda>w. w \<noteq> [] \<and> prefix w s) ws = None \<longleftrightarrow> \<not> starts_ws ws s"
  by (auto simp: find_None_iff starts_ws_def)

lemma strip_all_id: "\<not> starts_ws ws s \<Longrightarrow> strip_all ws s = s"
  by (subst strip_all.simps) (simp add: find_ws_None [THEN iffD2])

lemma strip_all_not_starts: "\<not> starts_ws ws (strip_all ws s)"
proof (induction ws s rule: strip_all.induct)
  case (1 ws s)
  show ?case
  proof (cases "find (\<lambda>w. w \<noteq> [] \<and> prefix w s) ws")
    case None
    then show ?thesis
      by (simp add: find_ws_None strip_all_id)
  next
    case (Some w)
    with "1" show ?thesis
      by (simp add: strip_all.simps [of ws s])
  qed
qed

lemma strip_all_idem [simp]: "strip_all ws (strip_all ws s) = strip_all ws s"
  by (rule strip_all_id) (rule strip_all_not_starts)

lemma suffix_strip_all: "suffix (strip_all ws s) s"
proof (induction ws s rule: strip_all.induct)
  case (1 ws s)
  show ?case
  proof (cases "find (\<lambda>w. w \<noteq> [] \<and> prefix w s) ws")
    case None
    then show ?thesis
      by (simp add: find_ws_None strip_all_id)
  next
    case (Some w)
    with "1" have "suffix (strip_all ws s) (drop (length w) s)"
      by (simp add: strip_all.simps [of ws s])
    then show ?thesis
      using suffix_drop suffix_order.trans by blast
  qed
qed

lemma strip_all_Nil [simp]: "strip_all ws [] = []"
  using suffix_strip_all [of ws "[]"] by simp

lemma set_trim_subset: "set (trim s) \<subseteq> set s"
proof -
  have sub: "set (strip_all ws t) \<subseteq> set t" for ws t
    using suffix_strip_all by (rule set_mono_suffix)
  have "set (trim s) \<subseteq> set (rev (trim_start s))"
    unfolding trim_def trim_end_def set_rev [of "strip_all _ _"] by (rule sub)
  also have "\<dots> \<subseteq> set s"
    unfolding trim_start_def set_rev by (rule sub)
  finally show ?thesis .
qed

text \<open>A byte that begins (ends) no white-space encoding stops the trimming.\<close>

definition ws_lead :: "char \<Rightarrow> bool" where
  "ws_lead c = (c \<in> set (map hd white_space))"

definition ws_last :: "char \<Rightarrow> bool" where
  "ws_last c = (c \<in> set (map last white_space))"

lemma ws_nonempty: "w \<in> set white_space \<Longrightarrow> w \<noteq> []"
proof -
  have "\<forall>w \<in> set white_space. w \<noteq> []" by (simp add: white_space_def)
  then show "w \<in> set white_space \<Longrightarrow> w \<noteq> []" by blast
qed

lemma trim_start_Cons: "\<not> ws_lead c \<Longrightarrow> trim_start (c # s) = c # s"
  unfolding trim_start_def
  by (rule strip_all_id) (auto simp: starts_ws_def ws_lead_def prefix_Cons image_iff intro: bexI)

lemma trim_end_snoc:
  assumes "\<not> ws_last c"
  shows "trim_end (s @ [c]) = s @ [c]"
proof -
  have "\<not> starts_ws (map rev white_space) (rev (s @ [c]))"
  proof
    assume "starts_ws (map rev white_space) (rev (s @ [c]))"
    then obtain w where w: "w \<in> set white_space" "w \<noteq> []" "prefix (rev w) (c # rev s)"
      by (auto simp: starts_ws_def)
    from w(2) obtain v d where "w = v @ [d]" by (cases w rule: rev_cases) auto
    with w show False using assms by (auto simp: ws_last_def image_iff)
  qed
  then show ?thesis
    by (simp add: trim_end_def strip_all_id)
qed

lemma trim_Nil [simp]: "trim_start [] = []" "trim_end [] = []" "trim [] = []"
  by (simp_all add: trim_start_def trim_end_def trim_def)

lemma trim_start_idem [simp]: "trim_start (trim_start s) = trim_start s"
  by (simp add: trim_start_def)

lemma trim_end_idem [simp]: "trim_end (trim_end s) = trim_end s"
  by (simp add: trim_end_def)

lemma prefix_trim_end: "prefix (trim_end s) s"
  using suffix_strip_all [of "map rev white_space" "rev s"]
  by (simp add: trim_end_def suffix_to_prefix)

lemma trim_idem [simp]: "trim (trim s) = trim s"
proof -
  have "\<not> starts_ws white_space (trim s)"
  proof
    assume "starts_ws white_space (trim s)"
    then obtain w where "w \<in> set white_space" "w \<noteq> []" "prefix w (trim s)"
      by (auto simp: starts_ws_def)
    moreover have "prefix (trim s) (trim_start s)"
      by (simp add: trim_def prefix_trim_end)
    ultimately have "starts_ws white_space (trim_start s)"
      using prefix_order.trans unfolding starts_ws_def by blast
    then show False
      by (simp add: trim_start_def strip_all_not_starts)
  qed
  then have "trim_start (trim s) = trim s"
    by (simp add: trim_start_def strip_all_id)
  then show ?thesis
    by (simp add: trim_def)
qed

lemma no_white_space_suffix: "\<not> has_white_space (u @ v) \<Longrightarrow> \<not> has_white_space v"
  by (induction u) auto

lemma has_white_space_mid: "w \<in> set white_space \<Longrightarrow> has_white_space (u @ w @ v)"
proof (induction u)
  case Nil
  then obtain c w' where w: "w = c # w'" using ws_nonempty neq_Nil_conv by metis
  have "starts_ws white_space (w @ v)"
    unfolding starts_ws_def by (rule bexI [OF _ Nil]) (simp add: w)
  then show ?case by (simp add: w)
qed simp

lemma no_white_space_trim:
  assumes "\<not> has_white_space s"
  shows "trim s = s"
proof -
  have "\<not> starts_ws white_space s"
    using assms has_white_space_mid [of _ "[]"] by (auto simp: starts_ws_def prefix_def)
  moreover have "\<not> starts_ws (map rev white_space) (rev s)"
  proof
    assume "starts_ws (map rev white_space) (rev s)"
    then obtain w where w: "w \<in> set white_space" "prefix (rev w) (rev s)"
      by (auto simp: starts_ws_def)
    then obtain u where "s = u @ w" by (auto simp: suffix_to_prefix [symmetric] suffix_def)
    then show False using assms has_white_space_mid [OF w(1), of u "[]"] by simp
  qed
  ultimately show ?thesis
    by (simp add: trim_def trim_start_def trim_end_def strip_all_id)
qed

lemma ascii_lower_idem [simp]: "ascii_lower (ascii_lower c) = ascii_lower c"
  by (simp add: ascii_lower_def split: option.splits if_splits)

lemma to_ascii_lowercase_idem [simp]:
  "to_ascii_lowercase (to_ascii_lowercase s) = to_ascii_lowercase s"
  by (simp add: to_ascii_lowercase_def comp_def)

lemma no_white_space_starts: "\<not> has_white_space s \<Longrightarrow> \<not> starts_ws white_space s"
  by (cases s) (auto simp: starts_ws_def dest: prefix_Nil [THEN iffD1])

end
