(* ===== verification/Unix_Path.thy ===== *)
theory Unix_Path
  imports Prelude
begin

text \<open>
  Unix paths as \<^verbatim>\<open>std::path\<close> reads them, and the \<^verbatim>\<open>AbsolutePathBuf\<close> of
  \<^verbatim>\<open>codex-rs/utils/absolute-path\<close>. A path compares equal to another when their components
  agree, so an \<^verbatim>\<open>AbsolutePathBuf\<close> is modelled by its list of components. The process
  environment (home directory, current directory, the error of a failed look-up) is the record \<open>host\<close>, an argument of the
  operations that read it.
\<close>

datatype component = RootDir | CurDir | ParentDir | Normal string

type_synonym abs_path = "component list"

record host =
  home_dir :: "string option"
  current_dir :: "string option"
  getcwd_error :: string

datatype path_error = NoCurrentDir | InvalidInput string

text \<open>The message of an error; the one of a failed look-up is the operating system's.\<close>

fun path_error_text :: "host \<Rightarrow> path_error \<Rightarrow> string" where
  "path_error_text h NoCurrentDir = getcwd_error h"
| "path_error_text h (InvalidInput msg) = msg"

definition seg_components :: "string \<Rightarrow> component list" where
  "seg_components s =
     (if s = [] \<or> s = ''.'' then [] else if s = ''..'' then [ParentDir] else [Normal s])"

definition is_absolute :: "string \<Rightarrow> bool" where
  "is_absolute p = prefix ''/'' p"

definition components :: "string \<Rightarrow> component list" where
  "components p =
     (let segs = split_on (CHR ''/'') p
      in if is_absolute p then RootDir # concat (map seg_components segs)
         else (if hd segs = ''.'' then [CurDir] else seg_components (hd segs)) @
              concat (map seg_components (tl segs)))"

definition file_name :: "component list \<Rightarrow> string option" where
  "file_name cs =
     (if cs = [] then None else (case last cs of Normal n \<Rightarrow> Some n | _ \<Rightarrow> None))"

definition file_stem_of_name :: "string \<Rightarrow> string" where
  "file_stem_of_name n =
     (case rsplit_once (CHR ''.'') n of
        None \<Rightarrow> n
      | Some (before, after) \<Rightarrow> if before = [] then n else before)"

definition file_stem :: "component list \<Rightarrow> string option" where
  "file_stem cs = map_option file_stem_of_name (file_name cs)"

definition path_join :: "string \<Rightarrow> string \<Rightarrow> string" where
  "path_join base p =
     (if is_absolute p then p
      else if base = [] then p
      else if last base = CHR ''/'' then base @ p
      else base @ ''/'' @ p)"

definition path_pop :: "component list \<Rightarrow> component list" where
  "path_pop cs = (if cs = [] \<or> last cs = RootDir then cs else butlast cs)"

section \<open>AbsolutePathBuf\<close>

fun normalize_component :: "component list \<Rightarrow> component \<Rightarrow> component list" where
  "normalize_component out CurDir = out"
| "normalize_component out ParentDir = path_pop out"
| "normalize_component out RootDir = [RootDir]"
| "normalize_component out (Normal n) = out @ [Normal n]"

definition normalize_path :: "string \<Rightarrow> abs_path" where
  "normalize_path p =
     (let normalized = foldl normalize_component [] (components p)
      in if normalized = [] then [CurDir] else normalized)"

definition path_with_base :: "string \<Rightarrow> string \<Rightarrow> string" where
  "path_with_base p base = (if is_absolute p then p else path_join base p)"

definition absolutize_from :: "string \<Rightarrow> string \<Rightarrow> abs_path" where
  "absolutize_from p base = normalize_path (path_with_base p base)"

definition absolutize :: "host \<Rightarrow> string \<Rightarrow> (path_error, abs_path) result" where
  "absolutize h p =
     (if is_absolute p then Ok (normalize_path p)
      else (case current_dir h of
              None \<Rightarrow> Err NoCurrentDir
            | Some cwd \<Rightarrow> Ok (absolutize_from p cwd)))"

definition maybe_expand_home_directory :: "host \<Rightarrow> string \<Rightarrow> string" where
  "maybe_expand_home_directory h p =
     (case (home_dir h, strip_prefix ''~'' p) of
        (Some home, Some rest) \<Rightarrow>
          (if rest = [] then home
           else (case strip_prefix ''/'' rest of
                   Some rest' \<Rightarrow> path_join home (dropWhile (\<lambda>c. c = CHR ''/'') rest')
                 | None \<Rightarrow> p))
      | _ \<Rightarrow> p)"

definition from_absolute_path :: "host \<Rightarrow> string \<Rightarrow> (path_error, abs_path) result" where
  "from_absolute_path h p = absolutize h (maybe_expand_home_directory h p)"

definition resolve_path_against_base :: "host \<Rightarrow> string \<Rightarrow> string \<Rightarrow> abs_path" where
  "resolve_path_against_base h p base = absolutize_from (maybe_expand_home_directory h p) base"

definition from_absolute_path_checked :: "host \<Rightarrow> string \<Rightarrow> (path_error, abs_path) result" where
  "from_absolute_path_checked h p =
     (let expanded = maybe_expand_home_directory h p
      in if \<not> is_absolute expanded then Err (InvalidInput (''path is not absolute: '' @ p))
         else Ok (absolutize_from expanded ''/''))"

definition relative_to_current_dir :: "host \<Rightarrow> string \<Rightarrow> (path_error, abs_path) result" where
  "relative_to_current_dir h p =
     (case current_dir h of
        None \<Rightarrow> Err NoCurrentDir
      | Some cwd \<Rightarrow> Ok (resolve_path_against_base h p cwd))"

text \<open>The string a normalised path is stored as.\<close>

fun component_name :: "component \<Rightarrow> string" where
  "component_name (Normal n) = n"
| "component_name ParentDir = ''..''"
| "component_name CurDir = ''.''"
| "component_name RootDir = []"

definition path_string :: "abs_path \<Rightarrow> string" where
  "path_string p = (if p = [RootDir] then ''/'' else join ''/'' (map component_name p))"

definition abs_join :: "host \<Rightarrow> abs_path \<Rightarrow> string \<Rightarrow> abs_path" where
  "abs_join h self p = resolve_path_against_base h p (path_string self)"

definition abs_parent :: "abs_path \<Rightarrow> abs_path option" where
  "abs_parent self = (if self = [] \<or> last self = RootDir then None else Some (butlast self))"

text \<open>The invariant of the type: a root followed by plain names.\<close>

definition plain_name :: "string \<Rightarrow> bool" where
  "plain_name n = (n \<noteq> [] \<and> n \<noteq> ''.'' \<and> n \<noteq> ''..'' \<and> CHR ''/'' \<notin> set n)"

fun is_plain :: "component \<Rightarrow> bool" where
  "is_plain (Normal n) = plain_name n"
| "is_plain _ = False"

definition abs_path_ok :: "abs_path \<Rightarrow> bool" where
  "abs_path_ok p = (p \<noteq> [] \<and> hd p = RootDir \<and> list_all is_plain (tl p))"

lemmas path_eval =
  is_absolute_def components_def seg_components_def file_name_def file_stem_of_name_def
  file_stem_def path_join_def path_pop_def normalize_path_def path_with_base_def
  absolutize_from_def absolutize_def maybe_expand_home_directory_def from_absolute_path_def
  resolve_path_against_base_def path_string_def
  strip_prefix_def rsplit_once_def

section \<open>Components of a path\<close>

lemma Normal_in_seg: "Normal n \<in> set (seg_components s) \<Longrightarrow> n = s \<and> s \<noteq> [] \<and> s \<noteq> ''.'' \<and> s \<noteq> ''..''"
  by (auto simp: seg_components_def split: if_splits)

lemma Normal_in_components:
  assumes "Normal n \<in> set (components p)"
  shows "n \<in> set (split_on (CHR ''/'') p)" and "plain_name n"
proof -
  have segs: "split_on (CHR ''/'') p \<noteq> []" by simp
  show in_split: "n \<in> set (split_on (CHR ''/'') p)"
    using assms segs
    by (cases "split_on (CHR ''/'') p")
      (auto simp: components_def Let_def split: if_splits dest: Normal_in_seg)
  have "n \<noteq> [] \<and> n \<noteq> ''.'' \<and> n \<noteq> ''..''"
    using assms by (auto simp: components_def Let_def split: if_splits dest: Normal_in_seg)
  then show "plain_name n"
    using split_on_pieces [OF in_split] by (simp add: plain_name_def)
qed

lemma RootDir_in_components: "RootDir \<in> set (components p) \<longleftrightarrow> is_absolute p"
  by (auto simp: components_def Let_def seg_components_def split: if_splits)

lemma length_split_on_piece:
  "w \<in> set (split_on d s) \<Longrightarrow> length w \<le> length s \<and> (length w = length s \<longrightarrow> w = s)"
proof (induction s arbitrary: w)
  case Nil
  then show ?case by simp
next
  case (Cons c s)
  obtain v vs where vs: "split_on d s = v # vs"
    by (cases "split_on d s") auto
  from Cons.IH [of v] vs have v: "length v \<le> length s \<and> (length v = length s \<longrightarrow> v = s)"
    by simp
  from Cons.prems vs consider "w = []" | "w \<in> set (split_on d s)" | "w = c # v"
    by (auto split: if_splits)
  then show ?case
  proof cases
    case 2
    then have "length w \<le> length s" using Cons.IH by blast
    then show ?thesis by simp
  qed (use v in auto)
qed

lemma file_name_in_split:
  "file_name (components p) = Some n \<Longrightarrow> n \<in> set (split_on (CHR ''/'') p)"
proof -
  assume fn: "file_name (components p) = Some n"
  then have "components p \<noteq> []" and "last (components p) = Normal n"
    by (auto simp: file_name_def split: if_splits component.splits)
  then have "Normal n \<in> set (components p)"
    using last_in_set by metis
  then show ?thesis by (rule Normal_in_components)
qed

lemma file_stem_of_name_prefix: "prefix (file_stem_of_name n) n"
  by (auto simp: file_stem_of_name_def rsplit_once_Some_iff split: option.splits)

lemma file_stem_shorter:
  assumes "file_stem (components p) = Some st" and "st \<noteq> p"
  shows "length st < length p"
proof -
  obtain n where n: "file_name (components p) = Some n" "st = file_stem_of_name n"
    using assms by (auto simp: file_stem_def)
  have st: "prefix st n"
    using file_stem_of_name_prefix [of n] n(2) by simp
  then have "length st \<le> length n"
    by (rule prefix_length_le)
  moreover have "length n \<le> length p \<and> (length n = length p \<longrightarrow> n = p)"
    using file_name_in_split [OF n(1)] by (rule length_split_on_piece)
  moreover have "st = n" if "length st = length n"
    using st that by (metis append_eq_conv_conj prefix_def take_all_iff order_refl)
  ultimately show ?thesis
    using assms(2) by (cases "length st = length n"; cases "length n = length p") auto
qed

section \<open>Normalisation\<close>

lemma path_pop_ok: "abs_path_ok p \<Longrightarrow> abs_path_ok (path_pop p)"
proof -
  assume ok: "abs_path_ok p"
  then obtain ps where p: "p = RootDir # ps" and ps: "list_all is_plain ps"
    by (cases p) (auto simp: abs_path_ok_def)
  show ?thesis
  proof (cases ps rule: rev_cases)
    case Nil
    then show ?thesis using ok p by (simp add: path_pop_def)
  next
    case (snoc qs q)
    then have "path_pop p = RootDir # qs"
      using p ps by (auto simp: path_pop_def butlast_append)
    then show ?thesis using ps snoc by (simp add: abs_path_ok_def)
  qed
qed

lemma normalize_component_ok:
  "abs_path_ok out \<Longrightarrow> (\<And>n. c = Normal n \<Longrightarrow> plain_name n) \<Longrightarrow> abs_path_ok (normalize_component out c)"
  using path_pop_ok [of out] by (cases c) (auto simp: abs_path_ok_def)

lemma foldl_normalize_ok:
  "abs_path_ok out \<Longrightarrow> (\<And>n. Normal n \<in> set cs \<Longrightarrow> plain_name n) \<Longrightarrow>
   abs_path_ok (foldl normalize_component out cs)"
proof (induction cs arbitrary: out)
  case (Cons c cs)
  then show ?case by (simp add: normalize_component_ok)
qed simp

lemma normalize_path_ok:
  assumes "is_absolute p"
  shows "abs_path_ok (normalize_path p)"
proof -
  let ?cs = "concat (map seg_components (split_on (CHR ''/'') p))"
  have cs: "components p = RootDir # ?cs"
    using assms by (simp add: components_def)
  have "abs_path_ok (foldl normalize_component [RootDir] ?cs)"
  proof (rule foldl_normalize_ok)
    show "plain_name n" if "Normal n \<in> set ?cs" for n
      using Normal_in_components(2) [of n p] that by (simp add: cs)
  qed (simp add: abs_path_ok_def)
  moreover from this have "foldl normalize_component [RootDir] ?cs \<noteq> []"
    by (simp add: abs_path_ok_def)
  ultimately show ?thesis
    by (simp add: normalize_path_def cs)
qed

lemma is_absolute_path_join: "is_absolute base \<Longrightarrow> is_absolute (path_join base p)"
  by (cases base) (auto simp: is_absolute_def path_join_def)

lemma Normal_in_normalize:
  "Normal n \<in> set (foldl normalize_component out cs) \<Longrightarrow> Normal n \<in> set out \<union> set cs"
proof (induction cs arbitrary: out)
  case (Cons c cs)
  have "set (normalize_component out c) \<subseteq> insert RootDir (insert c (set out))"
    by (cases c) (auto simp: path_pop_def dest: in_set_butlastD)
  then show ?case using Cons by fastforce
qed simp

lemma abs_file_name_plain:
  assumes "from_absolute_path h p = Ok q" and "file_name q = Some n"
  shows "plain_name n"
proof -
  obtain r where q: "q = normalize_path r"
    using assms(1) by (auto simp: from_absolute_path_def absolutize_def absolutize_from_def
        split: if_splits option.splits)
  have "q \<noteq> []" and "last q = Normal n"
    using assms(2) by (auto simp: file_name_def split: if_splits component.splits)
  then have "Normal n \<in> set q"
    using last_in_set by metis
  then have "Normal n \<in> set (components r)"
    using Normal_in_normalize [of n "[]" "components r"]
    by (auto simp: q normalize_path_def Let_def split: if_splits)
  then show ?thesis by (rule Normal_in_components)
qed

lemma absolutize_from_ok: "is_absolute p \<or> is_absolute base \<Longrightarrow> abs_path_ok (absolutize_from p base)"
  by (auto simp: absolutize_from_def path_with_base_def
      intro!: normalize_path_ok is_absolute_path_join)

lemma abs_path_cases:
  assumes "abs_path_ok p"
  obtains ns where "p = RootDir # map Normal ns" and "list_all plain_name ns"
proof -
  obtain cs where p: "p = RootDir # cs" and cs: "list_all is_plain cs"
    using assms by (cases p) (auto simp: abs_path_ok_def)
  have "\<exists>ns. cs = map Normal ns \<and> list_all plain_name ns"
    using cs
  proof (induction cs)
    case (Cons c cs)
    then obtain n ns where "c # cs = map Normal (n # ns)" "list_all plain_name (n # ns)"
      by (cases c) auto
    then show ?case by (intro exI [of _ "n # ns"] conjI)
  qed simp
  then show ?thesis using p that by blast
qed

lemma path_string_Root: "path_string (RootDir # map Normal ns) = ''/'' @ join ''/'' ns"
  by (cases ns) (auto simp: path_string_def comp_def join_Cons)

lemma is_absolute_path_string: "abs_path_ok p \<Longrightarrow> is_absolute (path_string p)"
  by (erule abs_path_cases) (simp add: path_string_Root is_absolute_def)

lemma seg_components_plain: "plain_name n \<Longrightarrow> seg_components n = [Normal n]"
  by (simp add: seg_components_def plain_name_def)

lemma components_path_string:
  assumes "abs_path_ok p"
  shows "components (path_string p) = p"
proof -
  obtain ns where p: "p = RootDir # map Normal ns" and ns: "list_all plain_name ns"
    using assms by (rule abs_path_cases)
  have segs: "concat (map seg_components ns) = map Normal ns"
    using ns by (induction ns) (auto simp: seg_components_plain)
  have "split_on (CHR ''/'') (''/'' @ join ''/'' ns) = [] # split_on (CHR ''/'') (join ''/'' ns)"
    by simp
  moreover have "concat (map seg_components (split_on (CHR ''/'') (join ''/'' ns))) = map Normal ns"
  proof (cases ns)
    case Nil
    then show ?thesis by (simp add: seg_components_def)
  next
    case (Cons n ns')
    then have "split_on (CHR ''/'') (join ''/'' ns) = ns"
      using ns by (intro split_on_join) (auto simp: list_all_iff plain_name_def)
    then show ?thesis by (simp add: segs)
  qed
  ultimately show ?thesis
    by (simp add: components_def p path_string_Root is_absolute_def seg_components_def)
qed

lemma foldl_normalize_Normal: "foldl normalize_component out (map Normal ns) = out @ map Normal ns"
  by (induction ns arbitrary: out) auto

lemma normalize_path_string:
  assumes "abs_path_ok p"
  shows "normalize_path (path_string p) = p"
  using assms components_path_string [OF assms]
  by (elim abs_path_cases) (simp add: normalize_path_def foldl_normalize_Normal)

text \<open>
  An \<^verbatim>\<open>AbsolutePathBuf\<close> is absolute and normalised: when the working directory is absolute,
  every constructor and every operation that yields one yields a root followed by plain names,
  without \<^verbatim>\<open>.\<close>, \<^verbatim>\<open>..\<close>, empty names or separators.
\<close>

theorem absolute_path_invariant:
  assumes "current_dir h = Some cwd" and "is_absolute cwd"
    and "abs_path_ok base"
  shows "(\<exists>q. from_absolute_path h p = Ok q \<and> abs_path_ok q) \<and>
    (\<exists>q. relative_to_current_dir h p = Ok q \<and> abs_path_ok q) \<and>
    (\<forall>q. from_absolute_path_checked h p = Ok q \<longrightarrow> abs_path_ok q) \<and>
    abs_path_ok (abs_join h base p) \<and>
    (\<forall>q. abs_parent base = Some q \<longrightarrow> abs_path_ok q)"
proof (intro conjI allI impI)
  show "\<exists>q. from_absolute_path h p = Ok q \<and> abs_path_ok q"
    using assms by (simp add: from_absolute_path_def absolutize_def normalize_path_ok absolutize_from_ok)
  show "\<exists>q. relative_to_current_dir h p = Ok q \<and> abs_path_ok q"
    using assms by (simp add: relative_to_current_dir_def resolve_path_against_base_def absolutize_from_ok)
  show "abs_path_ok q" if "from_absolute_path_checked h p = Ok q" for q
    using that by (auto simp: from_absolute_path_checked_def Let_def absolutize_from_ok split: if_splits)
  show "abs_path_ok (abs_join h base p)"
    using assms by (simp add: abs_join_def resolve_path_against_base_def absolutize_from_ok is_absolute_path_string)
  show "abs_path_ok q" if "abs_parent base = Some q" for q
    using that path_pop_ok [OF assms(3)] by (auto simp: abs_parent_def path_pop_def split: if_splits)
qed

theorem absolute_path_invariant_witness:
  "\<exists>q. from_absolute_path \<lparr>home_dir = None, current_dir = Some ''/w'', getcwd_error = []\<rparr> ''../x/./y'' = Ok q \<and>
     abs_path_ok q"
  using absolute_path_invariant [of "\<lparr>home_dir = None, current_dir = Some ''/w'', getcwd_error = []\<rparr>" "''/w''" "[RootDir]"]
  by (simp add: is_absolute_def abs_path_ok_def)

text \<open>
  The stored form of a path reads back as the path: parsing the string of an
  \<^verbatim>\<open>AbsolutePathBuf\<close> gives the same path, whatever the home and working directories are.
\<close>

theorem absolute_path_roundtrip:
  assumes "abs_path_ok p"
  shows "from_absolute_path h (path_string p) = Ok p \<and>
    from_absolute_path_checked h (path_string p) = Ok p"
proof -
  have abs: "is_absolute (path_string p)"
    by (rule is_absolute_path_string [OF assms])
  then have "maybe_expand_home_directory h (path_string p) = path_string p"
    by (auto simp: maybe_expand_home_directory_def is_absolute_def prefix_def strip_prefix_def
        split: option.split)
  with abs show ?thesis
    by (simp add: from_absolute_path_def from_absolute_path_checked_def absolutize_def
        absolutize_from_def path_with_base_def normalize_path_string [OF assms])
qed

theorem absolute_path_roundtrip_witness:
  "from_absolute_path \<lparr>home_dir = None, current_dir = None, getcwd_error = []\<rparr> ''/usr/bin'' =
     Ok [RootDir, Normal ''usr'', Normal ''bin'']"
  using absolute_path_roundtrip [of "[RootDir, Normal ''usr'', Normal ''bin'']"
      "\<lparr>home_dir = None, current_dir = None, getcwd_error = []\<rparr>"]
  by (simp add: abs_path_ok_def plain_name_def path_string_def)

end
