(* ===== verification/Exec_Rule.thy ===== *)
theory Exec_Rule
  imports Unix_Path
begin

text \<open>
  The rules of the execution policy: \<^verbatim>\<open>codex-rs/execpolicy/src/decision.rs\<close>,
  \<^verbatim>\<open>error.rs\<close>, \<^verbatim>\<open>executable_name.rs\<close> and \<^verbatim>\<open>rule.rs\<close>. A command is a list of
  tokens. The only implementor of the \<^verbatim>\<open>Rule\<close> trait is \<^verbatim>\<open>PrefixRule\<close>; the contract of
  the trait that the policy relies on is the locale \<open>rule_trait\<close>.
\<close>

type_synonym command = "string list"

section \<open>Decisions and errors\<close>

datatype decision = Allow | Prompt | Forbidden

fun severity :: "decision \<Rightarrow> nat" where
  "severity Allow = 0"
| "severity Prompt = 1"
| "severity Forbidden = 2"

text \<open>The derived \<^verbatim>\<open>Ord\<close> of the enum: the order of its variants.\<close>

instantiation decision :: linorder
begin

definition less_eq_decision :: "decision \<Rightarrow> decision \<Rightarrow> bool" where
  "less_eq_decision a b = (severity a \<le> severity b)"

definition less_decision :: "decision \<Rightarrow> decision \<Rightarrow> bool" where
  "less_decision a b = (severity a < severity b)"

instance
proof
  fix a b :: decision
  show "a \<le> b \<Longrightarrow> b \<le> a \<Longrightarrow> a = b"
    by (cases a; cases b) (simp_all add: less_eq_decision_def)
qed (auto simp: less_eq_decision_def less_decision_def)

end

record text_position =
  tp_line :: nat
  tp_column :: nat

record text_range =
  tr_start :: text_position
  tr_end :: text_position

record error_location =
  el_path :: string
  el_range :: text_range

section \<open>Pattern tokens and prefix patterns\<close>

datatype pattern_token = Single string | Alts "string list"

fun token_matches :: "pattern_token \<Rightarrow> string \<Rightarrow> bool" where
  "token_matches (Single expected) token = (expected = token)"
| "token_matches (Alts alternatives) token = (token \<in> set alternatives)"

fun alternatives :: "pattern_token \<Rightarrow> string list" where
  "alternatives (Single expected) = [expected]"
| "alternatives (Alts alts) = alts"

record prefix_pattern =
  pat_first :: string
  pat_rest :: "pattern_token list"

definition matches_prefix :: "prefix_pattern \<Rightarrow> command \<Rightarrow> command option" where
  "matches_prefix pat cmd =
     (let pattern_length = length (pat_rest pat) + 1
      in if length cmd < pattern_length \<or> hd cmd \<noteq> pat_first pat then None
         else if list_all (\<lambda>(t, c). token_matches t c)
                   (zip (pat_rest pat) (drop 1 (take pattern_length cmd)))
         then Some (take pattern_length cmd)
         else None)"

datatype rule_match =
    PrefixRuleMatch command decision "abs_path option" "string option"
  | HeuristicsRuleMatch command decision

fun match_decision :: "rule_match \<Rightarrow> decision" where
  "match_decision (PrefixRuleMatch _ d _ _) = d"
| "match_decision (HeuristicsRuleMatch _ d) = d"

fun with_resolved_program :: "rule_match \<Rightarrow> abs_path \<Rightarrow> rule_match" where
  "with_resolved_program (PrefixRuleMatch mp d _ j) prog = PrefixRuleMatch mp d (Some prog) j"
| "with_resolved_program other prog = other"

record prefix_rule =
  rule_pattern :: prefix_pattern
  rule_decision :: decision
  rule_justification :: "string option"

datatype exec_error =
    InvalidDecision string
  | InvalidPattern string
  | InvalidExample string
  | InvalidRule string
  | ExampleDidNotMatch "prefix_rule list" "string list" "error_location option"
  | ExampleDidMatch rule_match string "error_location option"
  | Starlark starlark_error
and starlark_error =
    StarlarkNative string
  | StarlarkBuiltin exec_error

fun with_location :: "exec_error \<Rightarrow> error_location \<Rightarrow> exec_error" where
  "with_location (ExampleDidNotMatch rules examples None) loc =
     ExampleDidNotMatch rules examples (Some loc)"
| "with_location (ExampleDidMatch r example None) loc = ExampleDidMatch r example (Some loc)"
| "with_location other loc = other"

definition parse_decision :: "string \<Rightarrow> (exec_error, decision) result" where
  "parse_decision raw =
     (if raw = ''allow'' then Ok Allow
      else if raw = ''prompt'' then Ok Prompt
      else if raw = ''forbidden'' then Ok Forbidden
      else Err (InvalidDecision raw))"

definition rule_program :: "prefix_rule \<Rightarrow> string" where
  "rule_program r = pat_first (rule_pattern r)"

definition rule_matches :: "prefix_rule \<Rightarrow> command \<Rightarrow> rule_match option" where
  "rule_matches r cmd =
     map_option (\<lambda>mp. PrefixRuleMatch mp (rule_decision r) None (rule_justification r))
       (matches_prefix (rule_pattern r) cmd)"

section \<open>Executable names\<close>

definition executable_lookup_key :: "string \<Rightarrow> string" where
  "executable_lookup_key raw = raw"

definition executable_path_lookup_key :: "abs_path \<Rightarrow> string option" where
  "executable_path_lookup_key path = map_option executable_lookup_key (file_name path)"

section \<open>Network rules\<close>

datatype network_rule_protocol = Http | Https | Socks5Tcp | Socks5Udp

definition parse_protocol :: "string \<Rightarrow> (exec_error, network_rule_protocol) result" where
  "parse_protocol raw =
     (if raw = ''http'' then Ok Http
      else if raw \<in> {''https'', ''https_connect'', ''http-connect''} then Ok Https
      else if raw = ''socks5_tcp'' then Ok Socks5Tcp
      else if raw = ''socks5_udp'' then Ok Socks5Udp
      else Err (InvalidRule
        (''network_rule protocol must be one of http, https, socks5_tcp, socks5_udp (got '' @
         raw @ '')'')))"

fun as_policy_string :: "network_rule_protocol \<Rightarrow> string" where
  "as_policy_string Http = ''http''"
| "as_policy_string Https = ''https''"
| "as_policy_string Socks5Tcp = ''socks5_tcp''"
| "as_policy_string Socks5Udp = ''socks5_udp''"

record network_rule =
  nr_host :: string
  nr_protocol :: network_rule_protocol
  nr_decision :: decision
  nr_justification :: "string option"

text \<open>The bracketed-IPv6 and \<^verbatim>\<open>host:port\<close> cases of \<^verbatim>\<open>normalize_network_rule_host\<close>.\<close>

definition host_without_port :: "string \<Rightarrow> string \<Rightarrow> (exec_error, string) result" where
  "host_without_port raw host =
     (case strip_prefix ''['' host of
        Some stripped \<Rightarrow>
          (case split_once (CHR '']'') stripped of
             None \<Rightarrow> Err (InvalidRule ''network_rule host has an invalid bracketed IPv6 literal'')
           | Some (inside, after) \<Rightarrow>
               (let port_ok = (case strip_prefix '':'' after of
                                 None \<Rightarrow> False
                               | Some port \<Rightarrow> port \<noteq> [] \<and> list_all is_ascii_digit port)
                in if after \<noteq> [] \<and> \<not> port_ok
                   then Err (InvalidRule
                     (''network_rule host contains an unsupported suffix: '' @ raw))
                   else Ok inside))
      | None \<Rightarrow>
          (if count_list host (CHR '':'') = 1
           then (case rsplit_once (CHR '':'') host of
                   Some (candidate, port) \<Rightarrow>
                     Ok (if candidate \<noteq> [] \<and> port \<noteq> [] \<and> list_all is_ascii_digit port
                         then candidate else host)
                 | None \<Rightarrow> Ok host)
           else Ok host))"

definition finish_network_rule_host :: "string \<Rightarrow> (exec_error, string) result" where
  "finish_network_rule_host host =
     (let normalized = to_ascii_lowercase (trim (trim_end_char (CHR ''.'') host))
      in if normalized = [] then Err (InvalidRule ''network_rule host cannot be empty'')
         else if contains normalized ''*''
         then Err (InvalidRule
           ''network_rule host must be a specific host; wildcards are not allowed'')
         else if has_white_space normalized
         then Err (InvalidRule ''network_rule host cannot contain whitespace'')
         else Ok normalized)"

definition normalize_network_rule_host :: "string \<Rightarrow> (exec_error, string) result" where
  "normalize_network_rule_host raw =
     (let host = trim raw
      in if host = [] then Err (InvalidRule ''network_rule host cannot be empty'')
         else if contains host ''://'' \<or> contains host ''/'' \<or> contains host ''?'' \<or>
                 contains host ''#''
         then Err (InvalidRule
           ''network_rule host must be a hostname or IP literal (without scheme or path)'')
         else res_bind (host_without_port raw host) finish_network_rule_host)"

section \<open>The Rule trait\<close>

text \<open>
  What a policy relies on in a rule: it matches only commands that start with its program, and
  appending arguments to a command keeps the match.
\<close>

locale rule_trait =
  fixes prog :: "'r \<Rightarrow> string"
    and matches :: "'r \<Rightarrow> command \<Rightarrow> rule_match option"
  assumes matches_program: "matches r cmd = Some m \<Longrightarrow> cmd \<noteq> [] \<and> hd cmd = prog r"
    and matches_extend: "matches r cmd = Some m \<Longrightarrow> matches r (cmd @ args) = Some m"
begin

lemma filter_matches_extend:
  "set (filter_map (\<lambda>r. matches r cmd) rs) \<subseteq> set (filter_map (\<lambda>r. matches r (cmd @ args)) rs)"
  using matches_extend unfolding subset_iff in_set_filter_map by blast

lemma no_match_other_program:
  assumes "\<And>r. r \<in> set rs \<Longrightarrow> prog r = p" and "cmd = [] \<or> hd cmd \<noteq> p"
  shows "filter_map (\<lambda>r. matches r cmd) rs = []"
  unfolding filter_map_eq_Nil
proof
  fix r
  assume "r \<in> set rs"
  then show "matches r cmd = None"
    using assms matches_program [of r cmd] by (cases "matches r cmd") auto
qed

end

lemma matches_prefix_iff:
  "matches_prefix pat cmd = Some mp \<longleftrightarrow>
     (\<exists>args. cmd = mp @ args) \<and> length mp = Suc (length (pat_rest pat)) \<and> hd mp = pat_first pat \<and>
     list_all2 token_matches (pat_rest pat) (tl mp)"
proof -
  have drop1: "drop 1 (take (length (pat_rest pat) + 1) cmd) = tl (take (Suc (length (pat_rest pat))) cmd)"
    by (simp add: drop_Suc)
  have all2: "list_all (\<lambda>(t, c). token_matches t c) (zip ts cs) \<longleftrightarrow> list_all2 token_matches ts cs"
    if "length ts = length cs" for ts cs
    using that by (induction ts cs rule: list_induct2) auto
  show ?thesis
  proof
    assume mp: "matches_prefix pat cmd = Some mp"
    then have len: "Suc (length (pat_rest pat)) \<le> length cmd" and hd: "hd cmd = pat_first pat"
      and mp_eq: "mp = take (Suc (length (pat_rest pat))) cmd"
      and toks: "list_all (\<lambda>(t, c). token_matches t c) (zip (pat_rest pat) (tl mp))"
      using drop1 by (auto simp: matches_prefix_def Let_def split: if_splits)
    have "cmd = mp @ drop (Suc (length (pat_rest pat))) cmd"
      by (simp add: mp_eq)
    moreover have "length mp = Suc (length (pat_rest pat))"
      using len by (simp add: mp_eq)
    moreover have "hd mp = pat_first pat"
      using len hd by (cases cmd) (auto simp: mp_eq)
    ultimately show "(\<exists>args. cmd = mp @ args) \<and> length mp = Suc (length (pat_rest pat)) \<and>
        hd mp = pat_first pat \<and> list_all2 token_matches (pat_rest pat) (tl mp)"
      using toks all2 [of "pat_rest pat" "tl mp"] by auto
  next
    assume "(\<exists>args. cmd = mp @ args) \<and> length mp = Suc (length (pat_rest pat)) \<and>
        hd mp = pat_first pat \<and> list_all2 token_matches (pat_rest pat) (tl mp)"
    then obtain args where cmd: "cmd = mp @ args" and len: "length mp = Suc (length (pat_rest pat))"
      and hd: "hd mp = pat_first pat" and toks: "list_all2 token_matches (pat_rest pat) (tl mp)"
      by blast
    have "take (Suc (length (pat_rest pat))) cmd = mp" and "hd cmd = pat_first pat"
      using cmd len hd by (auto simp: hd_append)
    then show "matches_prefix pat cmd = Some mp"
      using cmd len toks drop1 all2 [of "pat_rest pat" "tl mp"]
      by (simp add: matches_prefix_def Let_def)
  qed
qed

lemma rule_matches_iff:
  "rule_matches r cmd = Some m \<longleftrightarrow>
     (\<exists>mp. matches_prefix (rule_pattern r) cmd = Some mp \<and>
       m = PrefixRuleMatch mp (rule_decision r) None (rule_justification r))"
  by (auto simp: rule_matches_def)

interpretation pr: rule_trait rule_program rule_matches
proof
  fix r cmd m args
  assume "rule_matches r cmd = Some m"
  then obtain mp where mp: "matches_prefix (rule_pattern r) cmd = Some mp"
    and m: "m = PrefixRuleMatch mp (rule_decision r) None (rule_justification r)"
    by (auto simp: rule_matches_iff)
  then obtain rest_args where cmd: "cmd = mp @ rest_args" and "hd mp = rule_program r"
    and len: "length mp = Suc (length (pat_rest (rule_pattern r)))"
    by (auto simp: matches_prefix_iff rule_program_def)
  moreover from len have "mp \<noteq> []" by auto
  ultimately show "cmd \<noteq> [] \<and> hd cmd = rule_program r"
    by simp
  have "\<exists>args'. cmd @ args = mp @ args'"
    using cmd by simp
  then have "matches_prefix (rule_pattern r) (cmd @ args) = Some mp"
    using mp unfolding matches_prefix_iff by blast
  then show "rule_matches r (cmd @ args) = Some m"
    by (simp add: rule_matches_def m)
qed

lemma match_decision_with_resolved [simp]:
  "match_decision (with_resolved_program m prog) = match_decision m"
  by (cases m) auto

lemma rule_matches_decision: "rule_matches r cmd = Some m \<Longrightarrow> match_decision m = rule_decision r"
  by (auto simp: rule_matches_iff)

lemmas host_defs = normalize_network_rule_host_def host_without_port_def finish_network_rule_host_def

section \<open>Prefix patterns denote sets of prefixes\<close>

text \<open>The literal prefixes a pattern stands for: one alternative at each position.\<close>

definition expansions :: "prefix_pattern \<Rightarrow> command list" where
  "expansions pat = product_lists ([pat_first pat] # map alternatives (pat_rest pat))"

lemma token_matches_alternatives: "token_matches t c \<longleftrightarrow> c \<in> set (alternatives t)"
  by (cases t) auto

lemma matches_prefix_expansions:
  "matches_prefix pat cmd = Some mp \<longleftrightarrow> mp \<in> set (expansions pat) \<and> prefix mp cmd"
proof -
  have "mp \<in> set (expansions pat) \<longleftrightarrow>
      length mp = Suc (length (pat_rest pat)) \<and> hd mp = pat_first pat \<and>
      list_all2 token_matches (pat_rest pat) (tl mp)"
    by (cases mp) (auto simp: expansions_def product_lists_set list_all2_map2
        token_matches_alternatives list_all2_conv_all_nth)
  then show ?thesis
    by (auto simp: matches_prefix_iff prefix_def)
qed

text \<open>
  Matching agrees with the reading of a pattern as a set of literal prefixes: a rule matches
  a command exactly when one of the expansions of its pattern is a prefix of the command, and
  the match reports that expansion, the rule's decision and its justification.
\<close>

theorem rule_matches_expansions:
  "rule_matches r cmd = Some m \<longleftrightarrow>
     (\<exists>mp. mp \<in> set (expansions (rule_pattern r)) \<and> prefix mp cmd \<and>
        m = PrefixRuleMatch mp (rule_decision r) None (rule_justification r))"
  by (auto simp: rule_matches_iff matches_prefix_expansions)

section \<open>Normalised hosts\<close>

lemma set_trim_end_char: "set (trim_end_char d s) \<subseteq> set s"
  by (auto simp: trim_end_char_def dest: set_dropWhileD)

lemma ascii_lower_special:
  "ascii_lower c = d \<Longrightarrow> d \<in> {CHR ''/'', CHR ''?'', CHR ''#'', CHR ''*''} \<Longrightarrow> c = d"
  by (simp add: ascii_lower_def split: option.splits if_splits) auto

lemma host_without_port_subset: "host_without_port raw host = Ok h \<Longrightarrow> set h \<subseteq> set host"
  by (auto simp: host_without_port_def strip_prefix_Some_iff split_once_Some_iff
      rsplit_once_Some_iff Let_def split: option.splits if_splits)

lemma normalized_host_facts:
  assumes "normalize_network_rule_host raw = Ok host"
  shows "host \<noteq> [] \<and> set host \<inter> {CHR ''/'', CHR ''?'', CHR ''#'', CHR ''*''} = {} \<and>
    \<not> has_white_space host \<and> to_ascii_lowercase host = host"
proof -
  from assms obtain h where h: "host_without_port raw (trim raw) = Ok h"
    and fin: "finish_network_rule_host h = Ok host"
    and seps: "set (trim raw) \<inter> {CHR ''/'', CHR ''?'', CHR ''#''} = {}"
    by (auto simp: normalize_network_rule_host_def Let_def res_bind_Inr_iff contains_char_iff
        split: if_splits)
  from fin have host: "host = to_ascii_lowercase (trim (trim_end_char (CHR ''.'') h))"
    and "host \<noteq> []" "CHR ''*'' \<notin> set host" "\<not> has_white_space host"
    by (auto simp: finish_network_rule_host_def Let_def contains_char_iff split: if_splits)
  have sub: "set host \<subseteq> ascii_lower ` set (trim raw)"
    unfolding host to_ascii_lowercase_def set_map
    using set_trim_subset [of "trim_end_char (CHR ''.'') h"] set_trim_end_char [of "CHR ''.''" h]
      host_without_port_subset [OF h] by blast
  have "c \<notin> set host" if c: "c \<in> {CHR ''/'', CHR ''?'', CHR ''#''}" for c
  proof
    assume "c \<in> set host"
    then obtain b where b: "b \<in> set (trim raw)" "ascii_lower b = c"
      using sub by auto
    have "b = c" by (rule ascii_lower_special [OF b(2)]) (use c in auto)
    then show False using seps c b(1) by blast
  qed
  then show ?thesis
    using \<open>host \<noteq> []\<close> \<open>CHR ''*'' \<notin> set host\<close> \<open>\<not> has_white_space host\<close> by (simp add: host)
qed

lemma normalized_host_stable:
  assumes "normalize_network_rule_host raw = Ok host"
    and "\<not> prefix ''['' host" and "count_list host (CHR '':'') \<noteq> 1" and "\<not> suffix ''.'' host"
  shows "normalize_network_rule_host host = Ok host"
proof -
  note facts = normalized_host_facts [OF assms(1)]
  have "contains host ''://'' \<Longrightarrow> CHR ''/'' \<in> set host"
    by (auto simp: contains_iff)
  moreover have "host_without_port host host = Ok host"
    using assms(2,3) by (simp add: host_without_port_def strip_prefix_def)
  moreover have "trim_end_char (CHR ''.'') host = host"
    using assms(4) by (cases host rule: rev_cases) (auto simp: trim_end_char_def suffix_def)
  then have "finish_network_rule_host host = Ok host"
    using facts by (auto simp: finish_network_rule_host_def no_white_space_trim contains_char_iff)
  ultimately show ?thesis
    using facts by (auto simp: normalize_network_rule_host_def no_white_space_trim contains_char_iff)
qed

text \<open>
  A normalised network host is a specific lower-case host name or address: it is not empty,
  has no scheme, path, query or fragment separator, no wildcard and no white space. One that
  does not start with a bracket, has no single colon and no final dot is a fixed point.
\<close>

theorem normalized_host_wellformed:
  assumes "normalize_network_rule_host raw = Ok host"
  shows "host \<noteq> [] \<and> set host \<inter> {CHR ''/'', CHR ''?'', CHR ''#'', CHR ''*''} = {} \<and>
    \<not> has_white_space host \<and> to_ascii_lowercase host = host \<and>
    (prefix ''['' host \<or> count_list host (CHR '':'') = 1 \<or> suffix ''.'' host \<or>
     normalize_network_rule_host host = Ok host)"
  using normalized_host_facts [OF assms] normalized_host_stable [OF assms] by blast

theorem normalized_host_wellformed_witness:
  "normalize_network_rule_host ''API.Example.com:443'' = Ok ''api.example.com'' \<and>
   \<not> has_white_space ''api.example.com''"
proof -
  have n: "normalize_network_rule_host ''API.Example.com:443'' = Ok ''api.example.com''"
    by (simp add: host_defs str_simps)
  then show ?thesis using normalized_host_wellformed [OF n] by simp
qed

end
