(* ===== verification/Exec_Policy.thy ===== *)
theory Exec_Policy
  imports Exec_Rule
begin

text \<open>
  The policy and its evaluation: \<^verbatim>\<open>codex-rs/execpolicy/src/policy.rs\<close>. The multimap from
  programs to rules is an association list from a key to the vector of its rules, which also
  fixes an iteration order; the map of host executables is a partial function. A panic of the
  code (\<^verbatim>\<open>expect\<close> on an empty list of matches) is the value \<open>None\<close>.
\<close>

section \<open>Multimaps\<close>

type_synonym ('k, 'v) multimap = "('k \<times> 'v list) list"

definition mm_get :: "('k, 'v) multimap \<Rightarrow> 'k \<Rightarrow> 'v list option" where
  "mm_get m k = map_of m k"

fun mm_insert :: "('k, 'v) multimap \<Rightarrow> 'k \<Rightarrow> 'v \<Rightarrow> ('k, 'v) multimap" where
  "mm_insert [] k v = [(k, [v])]"
| "mm_insert ((k', vs) # m) k v =
     (if k' = k then (k', vs @ [v]) # m else (k', vs) # mm_insert m k v)"

definition mm_extend :: "('k, 'v) multimap \<Rightarrow> ('k, 'v) multimap \<Rightarrow> ('k, 'v) multimap" where
  "mm_extend m n = foldl (\<lambda>acc (k, vs). foldl (\<lambda>acc v. mm_insert acc k v) acc vs) m n"

text \<open>
  What the policy needs of the container: an insertion appends to the vector of its key and
  leaves the others alone.
\<close>

locale multimap_spec =
  fixes get :: "'m \<Rightarrow> 'k \<Rightarrow> 'v list option"
    and insert :: "'m \<Rightarrow> 'k \<Rightarrow> 'v \<Rightarrow> 'm"
  assumes get_insert:
    "get (insert m k v) j =
       (if j = k then Some ((case get m k of None \<Rightarrow> [] | Some vs \<Rightarrow> vs) @ [v]) else get m j)"
begin

lemma get_insert_all:
  "get (foldl (\<lambda>acc v. insert acc k v) m vs) j =
     (if j = k \<and> vs \<noteq> [] then Some ((case get m k of None \<Rightarrow> [] | Some ws \<Rightarrow> ws) @ vs)
      else get m j)"
  by (induction vs arbitrary: m) (auto simp: get_insert)

lemma get_insert_pairs:
  assumes "distinct (map fst n)" and "\<forall>(k, vs) \<in> set n. vs \<noteq> []"
  shows "get (foldl (\<lambda>acc (k, vs). foldl (\<lambda>acc v. insert acc k v) acc vs) m n) j =
     (case map_of n j of
        None \<Rightarrow> get m j
      | Some vs \<Rightarrow> Some ((case get m j of None \<Rightarrow> [] | Some ws \<Rightarrow> ws) @ vs))"
  using assms
proof (induction n arbitrary: m)
  case Nil
  then show ?case by simp
next
  case (Cons kv n)
  obtain k vs where kv: "kv = (k, vs)" by (cases kv)
  have "map_of n k = None"
    using Cons.prems(1) kv by (simp add: map_of_eq_None_iff)
  then show ?case
    using Cons kv by (auto simp: get_insert_all split: option.splits)
qed

end

interpretation mm: multimap_spec mm_get mm_insert
proof
  fix m :: "('a, 'b) multimap" and k v j
  show "mm_get (mm_insert m k v) j =
      (if j = k then Some ((case mm_get m k of None \<Rightarrow> [] | Some vs \<Rightarrow> vs) @ [v]) else mm_get m j)"
    by (induction m k v rule: mm_insert.induct) (auto simp: mm_get_def)
qed

section \<open>The policy\<close>

record policy =
  rules_by_program :: "(string, prefix_rule) multimap"
  network_rules :: "network_rule list"
  host_executables_by_name :: "string \<rightharpoonup> abs_path list"

record match_options =
  resolve_host_executables :: bool

type_synonym heuristics_fallback = "(command \<Rightarrow> decision) option"

definition default_options :: match_options where
  "default_options = \<lparr>resolve_host_executables = False\<rparr>"

definition from_parts ::
  "(string, prefix_rule) multimap \<Rightarrow> network_rule list \<Rightarrow> (string \<rightharpoonup> abs_path list) \<Rightarrow> policy" where
  "from_parts rules nets hosts =
     \<lparr>rules_by_program = rules, network_rules = nets, host_executables_by_name = hosts\<rparr>"

definition empty_policy :: policy where
  "empty_policy = from_parts [] [] Map.empty"

fun render_pattern_token :: "pattern_token \<Rightarrow> string" where
  "render_pattern_token (Single value) = value"
| "render_pattern_token (Alts alts) = ''['' @ join ''|'' alts @ '']''"

definition get_allowed_prefixes :: "policy \<Rightarrow> command list" where
  "get_allowed_prefixes p =
     remdups_adj (sort (concat (map
       (\<lambda>(_, rules). filter_map
          (\<lambda>r. if rule_decision r \<noteq> Allow then None
                else Some (pat_first (rule_pattern r) #
                           map render_pattern_token (pat_rest (rule_pattern r))))
          rules)
       (rules_by_program p))))"

definition add_prefix_rule :: "policy \<Rightarrow> command \<Rightarrow> decision \<Rightarrow> (exec_error, policy) result" where
  "add_prefix_rule p pre d =
     (case pre of
        [] \<Rightarrow> Err (InvalidPattern ''prefix cannot be empty'')
      | first_token # rest \<Rightarrow>
          (let rule = \<lparr>rule_pattern = \<lparr>pat_first = first_token, pat_rest = map Single rest\<rparr>,
                       rule_decision = d, rule_justification = None\<rparr>
           in Ok (p\<lparr>rules_by_program := mm_insert (rules_by_program p) first_token rule\<rparr>)))"

definition add_network_rule ::
  "policy \<Rightarrow> string \<Rightarrow> network_rule_protocol \<Rightarrow> decision \<Rightarrow> string option \<Rightarrow>
   (exec_error, policy) result" where
  "add_network_rule p host protocol d just =
     res_bind (normalize_network_rule_host host) (\<lambda>host.
       if (case just of Some raw \<Rightarrow> trim raw = [] | None \<Rightarrow> False)
       then Err (InvalidRule ''justification cannot be empty'')
       else Ok (p\<lparr>network_rules := network_rules p @
              [\<lparr>nr_host = host, nr_protocol = protocol, nr_decision = d,
                nr_justification = just\<rparr>]\<rparr>))"

definition set_host_executable_paths :: "policy \<Rightarrow> string \<Rightarrow> abs_path list \<Rightarrow> policy" where
  "set_host_executable_paths p name paths =
     p\<lparr>host_executables_by_name := (host_executables_by_name p)(name \<mapsto> paths)\<rparr>"

definition merge_overlay :: "policy \<Rightarrow> policy \<Rightarrow> policy" where
  "merge_overlay p overlay =
     from_parts (mm_extend (rules_by_program p) (rules_by_program overlay))
       (network_rules p @ network_rules overlay)
       (host_executables_by_name p ++ host_executables_by_name overlay)"

definition upsert_domain :: "string list \<Rightarrow> string \<Rightarrow> string list" where
  "upsert_domain entries host = filter (\<lambda>entry. entry \<noteq> host) entries @ [host]"

fun compile_network_rule :: "string list \<times> string list \<Rightarrow> network_rule \<Rightarrow> string list \<times> string list" where
  "compile_network_rule (allowed, denied) r =
     (case nr_decision r of
        Allow \<Rightarrow> (upsert_domain allowed (nr_host r), filter (\<lambda>entry. entry \<noteq> nr_host r) denied)
      | Forbidden \<Rightarrow> (filter (\<lambda>entry. entry \<noteq> nr_host r) allowed, upsert_domain denied (nr_host r))
      | Prompt \<Rightarrow> (allowed, denied))"

definition compiled_network_domains :: "policy \<Rightarrow> string list \<times> string list" where
  "compiled_network_domains p = foldl compile_network_rule ([], []) (network_rules p)"

definition match_exact_rules :: "policy \<Rightarrow> command \<Rightarrow> rule_match list option" where
  "match_exact_rules p cmd =
     (case cmd of
        [] \<Rightarrow> None
      | first # _ \<Rightarrow>
          Some (case mm_get (rules_by_program p) first of
                  None \<Rightarrow> []
                | Some rules \<Rightarrow> filter_map (\<lambda>r. rule_matches r cmd) rules))"

definition match_host_executable_rules :: "host \<Rightarrow> policy \<Rightarrow> command \<Rightarrow> rule_match list" where
  "match_host_executable_rules h p cmd =
     (case cmd of
        [] \<Rightarrow> []
      | first # args \<Rightarrow>
          (case from_absolute_path h first of
             Inl _ \<Rightarrow> []
           | Inr program \<Rightarrow>
               (case executable_path_lookup_key program of
                  None \<Rightarrow> []
                | Some basename \<Rightarrow>
                    (case mm_get (rules_by_program p) basename of
                       None \<Rightarrow> []
                     | Some rules \<Rightarrow>
                         (if (case host_executables_by_name p basename of
                                Some paths \<Rightarrow> program \<notin> set paths
                              | None \<Rightarrow> False)
                          then []
                          else map (\<lambda>m. with_resolved_program m program)
                                 (filter_map (\<lambda>r. rule_matches r (basename # args)) rules))))))"

definition matches_for_command_with_options ::
  "host \<Rightarrow> policy \<Rightarrow> command \<Rightarrow> heuristics_fallback \<Rightarrow> match_options \<Rightarrow> rule_match list" where
  "matches_for_command_with_options h p cmd fallback opts =
     (let matched_rules =
            (case match_exact_rules p cmd of
               Some (m # ms) \<Rightarrow> m # ms
             | _ \<Rightarrow> (if resolve_host_executables opts
                     then match_host_executable_rules h p cmd else []))
      in case fallback of
           Some heuristics \<Rightarrow>
             (if matched_rules = [] then [HeuristicsRuleMatch cmd (heuristics cmd)]
              else matched_rules)
         | None \<Rightarrow> matched_rules)"

definition matches_for_command ::
  "host \<Rightarrow> policy \<Rightarrow> command \<Rightarrow> heuristics_fallback \<Rightarrow> rule_match list" where
  "matches_for_command h p cmd fallback =
     matches_for_command_with_options h p cmd fallback default_options"

record evaluation =
  eval_decision :: decision
  matched_rules :: "rule_match list"

fun is_heuristics :: "rule_match \<Rightarrow> bool" where
  "is_heuristics (HeuristicsRuleMatch _ _) = True"
| "is_heuristics (PrefixRuleMatch _ _ _ _) = False"

definition is_match :: "evaluation \<Rightarrow> bool" where
  "is_match ev = list_ex (\<lambda>m. \<not> is_heuristics m) (matched_rules ev)"

definition from_matches :: "rule_match list \<Rightarrow> evaluation option" where
  "from_matches ms =
     (case map match_decision ms of
        [] \<Rightarrow> None
      | d # ds \<Rightarrow> Some \<lparr>eval_decision = foldl max d ds, matched_rules = ms\<rparr>)"

definition check_with_options ::
  "host \<Rightarrow> policy \<Rightarrow> command \<Rightarrow> (command \<Rightarrow> decision) \<Rightarrow> match_options \<Rightarrow> evaluation option" where
  "check_with_options h p cmd heuristics opts =
     from_matches (matches_for_command_with_options h p cmd (Some heuristics) opts)"

definition check :: "host \<Rightarrow> policy \<Rightarrow> command \<Rightarrow> (command \<Rightarrow> decision) \<Rightarrow> evaluation option" where
  "check h p cmd heuristics =
     from_matches (matches_for_command_with_options h p cmd (Some heuristics) default_options)"

definition check_multiple_with_options ::
  "host \<Rightarrow> policy \<Rightarrow> command list \<Rightarrow> (command \<Rightarrow> decision) \<Rightarrow> match_options \<Rightarrow>
   evaluation option" where
  "check_multiple_with_options h p cmds heuristics opts =
     from_matches (concat (map
       (\<lambda>cmd. matches_for_command_with_options h p cmd (Some heuristics) opts) cmds))"

definition check_multiple ::
  "host \<Rightarrow> policy \<Rightarrow> command list \<Rightarrow> (command \<Rightarrow> decision) \<Rightarrow> evaluation option" where
  "check_multiple h p cmds heuristics =
     check_multiple_with_options h p cmds heuristics default_options"

lemmas policy_defs =
  mm_get_def mm_extend_def default_options_def from_parts_def empty_policy_def
  add_prefix_rule_def add_network_rule_def set_host_executable_paths_def merge_overlay_def
  upsert_domain_def compiled_network_domains_def match_exact_rules_def
  match_host_executable_rules_def matches_for_command_with_options_def
  from_matches_def check_with_options_def check_def
  check_multiple_with_options_def check_multiple_def
  rule_matches_def matches_prefix_def executable_path_lookup_key_def executable_lookup_key_def

section \<open>Evaluations\<close>

lemma from_matches_Some_iff:
  "from_matches ms = Some ev \<longleftrightarrow>
     ms \<noteq> [] \<and> ev = \<lparr>eval_decision = Max (match_decision ` set ms), matched_rules = ms\<rparr>"
proof (cases ms)
  case (Cons m ms')
  have "foldl max (match_decision m) (map match_decision ms') =
      fold max (map match_decision ms') (match_decision m)"
    by (simp add: foldl_conv_fold max.commute)
  also have "\<dots> = Max (match_decision ` set ms)"
    using Cons Max.set_eq_fold [of "match_decision m" "map match_decision ms'"] by simp
  finally show ?thesis
    using Cons by (auto simp: from_matches_def)
qed (simp add: from_matches_def)

lemma from_matches_None_iff: "from_matches ms = None \<longleftrightarrow> ms = []"
  by (cases ms) (auto simp: from_matches_def)

lemma from_matches_le_iff:
  "from_matches ms = Some ev \<Longrightarrow> d \<le> eval_decision ev \<longleftrightarrow> (\<exists>m \<in> set ms. d \<le> match_decision m)"
  by (auto simp: from_matches_Some_iff Max_ge_iff)

lemma from_matches_mono:
  assumes "from_matches ms = Some ev" and "set ms \<subseteq> set ms'"
  shows "\<exists>ev'. from_matches ms' = Some ev' \<and> eval_decision ev \<le> eval_decision ev'"
proof -
  from assms have "ms' \<noteq> []" by (auto simp: from_matches_Some_iff)
  then obtain ev' where ev': "from_matches ms' = Some ev'"
    using from_matches_None_iff [of ms'] by (cases "from_matches ms'") auto
  then show ?thesis
    using from_matches_le_iff [OF assms(1), of "eval_decision ev"]
      from_matches_le_iff [OF ev', of "eval_decision ev"] assms(2) by auto
qed

lemma matches_with_fallback_nonempty [simp]:
  "matches_for_command_with_options h p cmd (Some heuristics) opts \<noteq> []"
  by (simp add: matches_for_command_with_options_def Let_def)

lemma check_with_options_defined:
  "\<exists>ev. check_with_options h p cmd heuristics opts = Some ev"
  using from_matches_None_iff [of "matches_for_command_with_options h p cmd (Some heuristics) opts"]
  by (cases "check_with_options h p cmd heuristics opts") (simp_all add: check_with_options_def)

lemma matches_exact:
  "match_exact_rules p cmd = Some ms \<Longrightarrow> ms \<noteq> [] \<Longrightarrow>
   matches_for_command_with_options h p cmd fallback opts = ms"
  by (cases ms) (simp_all add: matches_for_command_with_options_def Let_def split: option.split)

text \<open>
  A compound command is judged as strictly as the strictest of its segments: its decision
  reaches a level exactly when the decision of one of the segments alone does.
\<close>

theorem check_multiple_strictest_segment:
  assumes "check_multiple_with_options h p cmds heuristics opts = Some ev"
  shows "d \<le> eval_decision ev \<longleftrightarrow>
    (\<exists>cmd \<in> set cmds. \<exists>ev'. check_with_options h p cmd heuristics opts = Some ev' \<and>
       d \<le> eval_decision ev')"
proof -
  let ?ms = "\<lambda>cmd. matches_for_command_with_options h p cmd (Some heuristics) opts"
  have "d \<le> eval_decision ev \<longleftrightarrow> (\<exists>cmd \<in> set cmds. \<exists>m \<in> set (?ms cmd). d \<le> match_decision m)"
    using from_matches_le_iff [OF assms [unfolded check_multiple_with_options_def]] by auto
  also have "\<dots> \<longleftrightarrow> (\<exists>cmd \<in> set cmds. \<exists>ev'. check_with_options h p cmd heuristics opts = Some ev' \<and>
       d \<le> eval_decision ev')"
    using check_with_options_defined [of h p _ heuristics opts]
    by (metis check_with_options_def from_matches_le_iff)
  finally show ?thesis .
qed

text \<open>
  Evaluating a list of commands panics exactly when the list is empty: every single command
  gets at least one match, if only from the fallback.
\<close>

theorem check_multiple_panics_iff:
  "check_multiple_with_options h p cmds heuristics opts = None \<longleftrightarrow> cmds = []"
  by (cases cmds) (simp_all add: check_multiple_with_options_def from_matches_None_iff)

section \<open>Exact rules\<close>

lemma match_exact_extend:
  assumes "match_exact_rules p cmd = Some ms"
  shows "\<exists>ms'. match_exact_rules p (cmd @ args) = Some ms' \<and> set ms \<subseteq> set ms'"
proof -
  obtain first rest where cmd: "cmd = first # rest"
    using assms by (cases cmd) (auto simp: match_exact_rules_def)
  show ?thesis
    using assms pr.filter_matches_extend [of cmd _ args]
    by (auto simp: match_exact_rules_def cmd split: option.splits)
qed

text \<open>
  Appending arguments to a command that an exact rule matches never relaxes the decision,
  whatever the fallback and the options are.
\<close>

theorem check_extend_strictness:
  assumes "match_exact_rules p cmd = Some ms" and "ms \<noteq> []"
    and "check_with_options h p cmd heuristics opts = Some ev"
  shows "\<exists>ev'. check_with_options h p (cmd @ args) heuristics' opts' = Some ev' \<and>
    eval_decision ev \<le> eval_decision ev'"
proof -
  obtain ms' where ms': "match_exact_rules p (cmd @ args) = Some ms'" "set ms \<subseteq> set ms'"
    using match_exact_extend [OF assms(1)] by blast
  then have "ms' \<noteq> []" using assms(2) by auto
  then show ?thesis
    using from_matches_mono [of ms ev ms'] assms ms'
    by (simp add: check_with_options_def matches_exact [OF assms(1,2)] matches_exact [OF ms'(1)])
qed

section \<open>The invariant of a policy\<close>

text \<open>
  Every key of the multimap is the program of the rules stored under it, no key occurs twice and
  no vector is empty.
\<close>

definition policy_ok :: "policy \<Rightarrow> bool" where
  "policy_ok p \<longleftrightarrow>
     distinct (map fst (rules_by_program p)) \<and>
     (\<forall>(k, rs) \<in> set (rules_by_program p). rs \<noteq> [] \<and> (\<forall>r \<in> set rs. rule_program r = k))"

lemma policy_ok_cong: "rules_by_program p = rules_by_program q \<Longrightarrow> policy_ok p = policy_ok q"
  by (simp add: policy_ok_def)

lemma fst_mm_insert: "set (map fst (mm_insert m k v)) = insert k (set (map fst m))"
  by (induction m k v rule: mm_insert.induct) auto

lemma distinct_mm_insert: "distinct (map fst m) \<Longrightarrow> distinct (map fst (mm_insert m k v))"
proof (induction m k v rule: mm_insert.induct)
  case (2 k' vs m k v)
  then show ?case using fst_mm_insert [of m k v] by auto
qed simp

lemma set_mm_insert:
  "(j, ws) \<in> set (mm_insert m k v) \<Longrightarrow>
   (j, ws) \<in> set m \<or> j = k \<and> (\<exists>vs. ws = vs @ [v] \<and> (vs = [] \<or> (k, vs) \<in> set m))"
  by (induction m k v rule: mm_insert.induct) (auto split: if_splits)

lemma policy_ok_insert:
  assumes "policy_ok p" and "rule_program r = k"
  shows "policy_ok (p\<lparr>rules_by_program := mm_insert (rules_by_program p) k r\<rparr>)"
proof -
  have "ws \<noteq> [] \<and> (\<forall>r \<in> set ws. rule_program r = j)"
    if "(j, ws) \<in> set (mm_insert (rules_by_program p) k r)" for j ws
    using set_mm_insert [OF that] assms by (fastforce simp: policy_ok_def)
  then show ?thesis
    using assms by (auto simp: policy_ok_def intro: distinct_mm_insert)
qed

lemma policy_ok_insert_all:
  assumes "policy_ok (p\<lparr>rules_by_program := m\<rparr>)" and "\<forall>r \<in> set rs. rule_program r = k"
  shows "policy_ok (p\<lparr>rules_by_program := foldl (\<lambda>acc r. mm_insert acc k r) m rs\<rparr>)"
  using assms
proof (induction rs arbitrary: m)
  case (Cons r rs)
  then show ?case
    using policy_ok_insert [of "p\<lparr>rules_by_program := m\<rparr>" r k] by simp
qed simp

lemma policy_ok_extend:
  assumes "policy_ok (p\<lparr>rules_by_program := m\<rparr>)"
    and "\<forall>(k, rs) \<in> set n. \<forall>r \<in> set rs. rule_program r = k"
  shows "policy_ok (p\<lparr>rules_by_program := mm_extend m n\<rparr>)"
  using assms
proof (induction n arbitrary: m)
  case (Cons krs n)
  obtain k rs where krs: "krs = (k, rs)" by (cases krs)
  have "policy_ok (p\<lparr>rules_by_program := foldl (\<lambda>acc r. mm_insert acc k r) m rs\<rparr>)"
    using Cons.prems krs by (intro policy_ok_insert_all) auto
  then show ?case
    using Cons krs by (simp add: mm_extend_def)
qed (simp add: mm_extend_def)

lemma policy_ok_get:
  "policy_ok p \<Longrightarrow> mm_get (rules_by_program p) k = Some rs \<Longrightarrow> r \<in> set rs \<Longrightarrow> rule_program r = k"
  by (fastforce simp: policy_ok_def mm_get_def dest: map_of_SomeD)

lemma empty_policy_ok: "policy_ok empty_policy"
  by (simp add: policy_ok_def empty_policy_def from_parts_def)

lemma add_prefix_rule_ok: "add_prefix_rule p pre d = Ok p' \<Longrightarrow> policy_ok p \<Longrightarrow> policy_ok p'"
  by (auto simp: add_prefix_rule_def Let_def rule_program_def intro!: policy_ok_insert split: list.splits)

lemma add_network_rule_ok: "add_network_rule p host protocol d just = Ok p' \<Longrightarrow> policy_ok p \<Longrightarrow> policy_ok p'"
  using policy_ok_cong [of p p'] by (auto simp: add_network_rule_def res_bind_Inr_iff split: if_splits)

lemma merge_overlay_ok:
  assumes "policy_ok p" and "policy_ok overlay"
  shows "policy_ok (merge_overlay p overlay)"
proof -
  have "policy_ok (p\<lparr>rules_by_program := mm_extend (rules_by_program p) (rules_by_program overlay)\<rparr>)"
    using assms by (intro policy_ok_extend) (auto simp: policy_ok_def)
  then show ?thesis
    by (simp add: merge_overlay_def from_parts_def policy_ok_def)
qed

text \<open>
  Every operation that builds or changes a policy keeps its invariant: rules are filed under
  their own program, each program once.
\<close>

theorem policy_operations_keep_invariant:
  assumes "policy_ok p" and "policy_ok overlay"
  shows "policy_ok empty_policy \<and>
    (\<forall>p'. add_prefix_rule p pre d = Ok p' \<longrightarrow> policy_ok p') \<and>
    (\<forall>p'. add_network_rule p host protocol d just = Ok p' \<longrightarrow> policy_ok p') \<and>
    policy_ok (set_host_executable_paths p name paths) \<and>
    policy_ok (merge_overlay p overlay)"
  using assms empty_policy_ok add_prefix_rule_ok add_network_rule_ok merge_overlay_ok
    policy_ok_cong [of "set_host_executable_paths p name paths" p]
  by (auto simp: set_host_executable_paths_def)

section \<open>Adding a rule, overlaying a policy\<close>

lemma match_exact_get:
  "cmd \<noteq> [] \<Longrightarrow> match_exact_rules p cmd =
     Some (case mm_get (rules_by_program p) (hd cmd) of
             None \<Rightarrow> [] | Some rules \<Rightarrow> filter_map (\<lambda>r. rule_matches r cmd) rules)"
  by (cases cmd) (auto simp: match_exact_rules_def)

lemma singles_match_iff: "list_all2 token_matches (map Single ts) cs \<longleftrightarrow> cs = ts"
proof (induction ts arbitrary: cs)
  case (Cons t ts)
  then show ?case by (cases cs) auto
qed simp

lemma literal_rule_matches:
  "rule_matches \<lparr>rule_pattern = \<lparr>pat_first = t, pat_rest = map Single ts\<rparr>,
     rule_decision = d, rule_justification = j\<rparr> cmd =
   (if prefix (t # ts) cmd then Some (PrefixRuleMatch (t # ts) d None j) else None)"
proof -
  let ?pat = "\<lparr>pat_first = t, pat_rest = map Single ts\<rparr>"
  have "matches_prefix ?pat cmd = Some mp \<longleftrightarrow> prefix (t # ts) cmd \<and> mp = t # ts" for mp
    by (cases mp) (auto simp: matches_prefix_iff singles_match_iff prefix_def)
  then have "matches_prefix ?pat cmd = (if prefix (t # ts) cmd then Some (t # ts) else None)"
    by (cases "matches_prefix ?pat cmd") (auto split: if_splits)
  then show ?thesis by (simp add: rule_matches_def)
qed

lemma add_prefix_rule_exact:
  assumes "add_prefix_rule p pre d = Ok p'"
  shows "match_exact_rules p' cmd =
    map_option (\<lambda>ms. ms @ (if prefix pre cmd then [PrefixRuleMatch pre d None None] else []))
      (match_exact_rules p cmd)"
proof (cases cmd)
  case Nil
  then show ?thesis by (simp add: match_exact_rules_def)
next
  case (Cons c args)
  obtain t ts where pre: "pre = t # ts"
    using assms by (cases pre) (auto simp: add_prefix_rule_def)
  have p': "rules_by_program p' = mm_insert (rules_by_program p) t
      \<lparr>rule_pattern = \<lparr>pat_first = t, pat_rest = map Single ts\<rparr>, rule_decision = d,
       rule_justification = None\<rparr>"
    using assms pre by (auto simp: add_prefix_rule_def Let_def)
  show ?thesis
    using Cons pre
    by (auto simp: match_exact_get p' mm.get_insert literal_rule_matches filter_map_append
        split: option.splits)
qed

text \<open>
  Adding an allow, prompt or forbid rule for a literal prefix changes the exact matches of
  exactly the commands that start with the prefix: they get one more match, after the older
  ones, with the rule's decision and the prefix as the matched part. So such a command is judged
  at least as strictly as the new rule says.
\<close>

theorem add_prefix_rule_matches:
  assumes "add_prefix_rule p pre d = Ok p'"
  shows "match_exact_rules p' cmd =
      map_option (\<lambda>ms. ms @ (if prefix pre cmd then [PrefixRuleMatch pre d None None] else []))
        (match_exact_rules p cmd) \<and>
    (prefix pre cmd \<longrightarrow> (\<exists>ev. check_with_options h p' cmd heuristics opts = Some ev \<and> d \<le> eval_decision ev))"
proof (intro conjI impI)
  show exact: "match_exact_rules p' cmd =
      map_option (\<lambda>ms. ms @ (if prefix pre cmd then [PrefixRuleMatch pre d None None] else []))
        (match_exact_rules p cmd)"
    by (rule add_prefix_rule_exact [OF assms])
  assume pre: "prefix pre cmd"
  have "pre \<noteq> []" using assms by (auto simp: add_prefix_rule_def)
  with pre obtain ms where "match_exact_rules p cmd = Some ms"
    by (cases cmd) (auto simp: match_exact_get)
  then have ms: "match_exact_rules p' cmd = Some (ms @ [PrefixRuleMatch pre d None None])"
    using exact pre by simp
  obtain ev where ev: "from_matches (ms @ [PrefixRuleMatch pre d None None]) = Some ev"
    using from_matches_None_iff by (cases "from_matches (ms @ [PrefixRuleMatch pre d None None])") auto
  then show "\<exists>ev. check_with_options h p' cmd heuristics opts = Some ev \<and> d \<le> eval_decision ev"
    using from_matches_le_iff [OF ev, of d] by (simp add: check_with_options_def matches_exact [OF ms])
qed

lemma match_exact_overlay:
  assumes "policy_ok overlay"
  shows "match_exact_rules (merge_overlay base overlay) cmd =
    (case match_exact_rules base cmd of
       None \<Rightarrow> None
     | Some ms \<Rightarrow> map_option (\<lambda>ms'. ms @ ms') (match_exact_rules overlay cmd))"
proof (cases cmd)
  case Nil
  then show ?thesis by (simp add: match_exact_rules_def)
next
  case (Cons c args)
  have "mm_get (mm_extend (rules_by_program base) (rules_by_program overlay)) c =
     (case mm_get (rules_by_program overlay) c of
        None \<Rightarrow> mm_get (rules_by_program base) c
      | Some vs \<Rightarrow> Some ((case mm_get (rules_by_program base) c of None \<Rightarrow> [] | Some ws \<Rightarrow> ws) @ vs))"
    unfolding mm_extend_def mm_get_def [of "rules_by_program overlay"]
    using assms by (intro mm.get_insert_pairs) (auto simp: policy_ok_def)
  then show ?thesis
    using Cons by (auto simp: match_exact_get merge_overlay_def from_parts_def filter_map_append
        split: option.splits)
qed

lemma merge_overlay_strict:
  assumes "policy_ok overlay" and "q = base \<or> q = overlay"
    and "match_exact_rules q cmd = Some ms" and "ms \<noteq> []"
    and "check_with_options h q cmd heuristics opts = Some ev"
  shows "\<exists>ev'. check_with_options h (merge_overlay base overlay) cmd heuristics' opts' = Some ev' \<and>
    eval_decision ev \<le> eval_decision ev'"
proof -
  have "cmd \<noteq> []" using assms(3) by (cases cmd) (auto simp: match_exact_rules_def)
  then obtain ms' where ms': "match_exact_rules (merge_overlay base overlay) cmd = Some ms'"
    "set ms \<subseteq> set ms'"
    using assms(2,3) match_exact_overlay [OF assms(1), of base cmd] by (auto simp: match_exact_get)
  then have "ms' \<noteq> []" using assms(4) by auto
  then show ?thesis
    using from_matches_mono [of ms ev ms'] assms ms'
    by (simp add: check_with_options_def matches_exact [OF assms(3,4)] matches_exact [OF ms'(1)])
qed

text \<open>
  An overlay, such as the policy of the managed requirements, is never weakened by the
  policy under it: a command that an exact rule of either policy matches is judged by the merged
  policy at least as strictly as by that policy alone.
\<close>

theorem merge_overlay_strictness:
  assumes "policy_ok overlay" and "q = base \<or> q = overlay"
    and "match_exact_rules q cmd = Some ms" and "ms \<noteq> []"
    and "check_with_options h q cmd heuristics opts = Some ev"
  shows "\<exists>ev'. check_with_options h (merge_overlay base overlay) cmd heuristics' opts' = Some ev' \<and>
    eval_decision ev \<le> eval_decision ev'"
  by (rule merge_overlay_strict [OF assms])

section \<open>Host executables\<close>

text \<open>
  The paths declared for a host executable are honoured: a program whose base name has
  declared paths, and which is none of them, is matched by no rule of the base name, so without
  an exact rule the decision is the one of the fallback.
\<close>

theorem undeclared_host_executable_falls_back:
  assumes "match_exact_rules p (prog # args) = Some []"
    and "from_absolute_path h prog = Ok program"
    and "executable_path_lookup_key program = Some name"
    and "host_executables_by_name p name = Some paths" and "program \<notin> set paths"
  shows "check_with_options h p (prog # args) heuristics opts =
    Some \<lparr>eval_decision = heuristics (prog # args),
          matched_rules = [HeuristicsRuleMatch (prog # args) (heuristics (prog # args))]\<rparr>"
  using assms
  by (simp add: check_with_options_def matches_for_command_with_options_def
      match_host_executable_rules_def from_matches_def split: option.split)

lemma file_name_normalize_path:
  assumes "is_absolute (q @ ''/'' @ name)" and "plain_name name"
  shows "file_name (normalize_path (q @ ''/'' @ name)) = Some name"
proof -
  have "split_on (CHR ''/'') name = [name]"
    using assms(2) by (intro split_on_no_sep) (simp add: plain_name_def)
  then have "components (q @ ''/'' @ name) =
      (RootDir # concat (map seg_components (split_on (CHR ''/'') q))) @ [Normal name]"
    using assms split_on_append [of "CHR ''/''" q name]
    by (simp add: components_def seg_components_def plain_name_def)
  then show ?thesis
    by (simp add: normalize_path_def file_name_def Let_def)
qed

lemma relative_program_lookup_key:
  assumes "current_dir h = Some cwd" and "is_absolute cwd" and "plain_name name"
  shows "\<exists>program. from_absolute_path h (''./'' @ name) = Ok program \<and>
    executable_path_lookup_key program = Some name"
proof -
  define q where "q = (if last cwd = CHR ''/'' then cwd @ ''.'' else cwd @ ''/.'')"
  have "cwd \<noteq> []" and join: "path_join cwd (''./'' @ name) = q @ ''/'' @ name"
    using assms(2) by (auto simp: path_join_def is_absolute_def q_def)
  moreover have "is_absolute (q @ ''/'' @ name)"
    using is_absolute_path_join [OF assms(2), of "''./'' @ name"] join by simp
  ultimately show ?thesis
    using file_name_normalize_path [of q name] assms
    by (auto simp: from_absolute_path_def maybe_expand_home_directory_def strip_prefix_def
        absolutize_def absolutize_from_def path_with_base_def is_absolute_def
        executable_path_lookup_key_def executable_lookup_key_def split: option.split)
qed

text \<open>
  Host-executable resolution is not limited to absolute paths: the relative program
  \<^verbatim>\<open>./name\<close> is judged by the rules of \<^verbatim>\<open>name\<close>, whatever file of the current directory it
  is, unless paths are declared for the name.
\<close>

theorem relative_program_judged_by_basename_rules:
  assumes "current_dir h = Some cwd" and "is_absolute cwd" and "plain_name name"
    and "host_executables_by_name p name = None"
    and "match_exact_rules p ((''./'' @ name) # args) = Some []"
    and "match_exact_rules p (name # args) = Some ms" and "ms \<noteq> []"
  shows "map_option eval_decision (check_with_options h p ((''./'' @ name) # args) heuristics
           \<lparr>resolve_host_executables = True\<rparr>) =
         map_option eval_decision (check_with_options h p (name # args) heuristics opts)"
proof -
  obtain program where program: "from_absolute_path h (''./'' @ name) = Ok program"
    "executable_path_lookup_key program = Some name"
    using relative_program_lookup_key [OF assms(1-3)] by blast
  have host: "match_host_executable_rules h p ((''./'' @ name) # args) =
      map (\<lambda>m. with_resolved_program m program) ms"
    using assms(4,6,7) program
    by (auto simp: match_host_executable_rules_def match_exact_rules_def split: option.splits)
  have "check_with_options h p ((''./'' @ name) # args) heuristics \<lparr>resolve_host_executables = True\<rparr> =
      from_matches (map (\<lambda>m. with_resolved_program m program) ms)"
    using assms(5,7) host
    by (simp add: check_with_options_def matches_for_command_with_options_def)
  moreover have "check_with_options h p (name # args) heuristics opts = from_matches ms"
    by (simp add: check_with_options_def matches_exact [OF assms(6,7)])
  ultimately show ?thesis
    using assms(7) by (simp add: from_matches_def comp_def split: list.split)
qed

section \<open>Network domains\<close>

text \<open>The decision of the last rule for a host that allows or forbids it.\<close>

definition last_network_decision :: "network_rule list \<Rightarrow> string \<Rightarrow> decision option" where
  "last_network_decision rs host =
     (case filter (\<lambda>r. nr_host r = host \<and> nr_decision r \<noteq> Prompt) (rev rs) of
        [] \<Rightarrow> None | r # _ \<Rightarrow> Some (nr_decision r))"

lemma last_network_decision_snoc:
  "last_network_decision (rs @ [r]) host =
     (if nr_host r = host \<and> nr_decision r \<noteq> Prompt then Some (nr_decision r)
      else last_network_decision rs host)"
  by (simp add: last_network_decision_def)

lemma last_network_decision_not_Prompt: "last_network_decision rs host \<noteq> Some Prompt"
  by (induction rs rule: rev_induct)
    (auto simp: last_network_decision_snoc last_network_decision_def [of "[]"])

text \<open>
  The compiled lists of domains contain no host twice, and a host is on the allow list, on
  the deny list or on none exactly as the last allow or forbid rule for it says. In particular
  no host is on both lists.
\<close>

theorem compiled_network_domains_last_wins:
  assumes "compiled_network_domains p = (allowed, denied)"
  shows "distinct allowed \<and> distinct denied \<and>
    (host \<in> set allowed \<longleftrightarrow> last_network_decision (network_rules p) host = Some Allow) \<and>
    (host \<in> set denied \<longleftrightarrow> last_network_decision (network_rules p) host = Some Forbidden)"
proof -
  have "foldl compile_network_rule ([], []) rs = (allowed, denied) \<Longrightarrow>
    distinct allowed \<and> distinct denied \<and>
    (\<forall>host. host \<in> set allowed \<longleftrightarrow> last_network_decision rs host = Some Allow) \<and>
    (\<forall>host. host \<in> set denied \<longleftrightarrow> last_network_decision rs host = Some Forbidden)" for rs
  proof (induction rs arbitrary: allowed denied rule: rev_induct)
    case Nil
    then show ?case by (simp add: last_network_decision_def)
  next
    case (snoc r rs)
    obtain a b where ab: "foldl compile_network_rule ([], []) rs = (a, b)"
      by (cases "foldl compile_network_rule ([], []) rs")
    show ?case
      using snoc.prems snoc.IH [OF ab] ab
      by (cases "nr_decision r") (auto simp: upsert_domain_def last_network_decision_snoc)
  qed
  then show ?thesis
    using assms by (simp add: compiled_network_domains_def)
qed

section \<open>Allowed prefixes\<close>

lemma strict_sorted_remdups_adj:
  fixes xs :: "'a::linorder list"
  shows "sorted xs \<Longrightarrow> sorted_wrt (<) (remdups_adj xs)"
proof (induction xs rule: remdups_adj.induct)
  case (3 x y xs)
  then show ?case by (auto simp: order.strict_iff_order)
qed auto

lemma set_allowed_prefixes:
  "pre \<in> set (get_allowed_prefixes p) \<longleftrightarrow>
     (\<exists>(k, rs) \<in> set (rules_by_program p). \<exists>r \<in> set rs. rule_decision r = Allow \<and>
        pre = pat_first (rule_pattern r) # map render_pattern_token (pat_rest (rule_pattern r)))"
  by (fastforce simp: get_allowed_prefixes_def in_set_filter_map split: if_splits)

text \<open>
  The prefixes offered to the model are strictly increasing, so without duplicates, and each
  prefix that was added with the decision to allow is among them.
\<close>

theorem allowed_prefixes_complete:
  assumes "add_prefix_rule p pre d = Ok p'"
  shows "sorted_wrt (<) (get_allowed_prefixes p') \<and>
    set (get_allowed_prefixes p') =
      set (get_allowed_prefixes p) \<union> (if d = Allow then {pre} else {})"
proof
  show "sorted_wrt (<) (get_allowed_prefixes p')"
    by (simp add: get_allowed_prefixes_def strict_sorted_remdups_adj)
  obtain t ts where pre: "pre = t # ts"
    using assms by (cases pre) (auto simp: add_prefix_rule_def)
  let ?r = "\<lparr>rule_pattern = \<lparr>pat_first = t, pat_rest = map Single ts\<rparr>, rule_decision = d,
       rule_justification = None\<rparr>"
  have p': "rules_by_program p' = mm_insert (rules_by_program p) t ?r"
    using assms pre by (auto simp: add_prefix_rule_def Let_def)
  have rules: "(\<exists>(k, rs) \<in> set (mm_insert m k v). \<exists>r \<in> set rs. P r) \<longleftrightarrow>
      (\<exists>(k, rs) \<in> set m. \<exists>r \<in> set rs. P r) \<or> P v" for m and k :: string and v and P :: "prefix_rule \<Rightarrow> bool"
    by (induction m k v rule: mm_insert.induct) auto
  have "q \<in> set (get_allowed_prefixes p') \<longleftrightarrow>
      q \<in> set (get_allowed_prefixes p) \<or> d = Allow \<and> q = pre" for q
    unfolding set_allowed_prefixes p' rules by (auto simp: pre comp_def)
  then show "set (get_allowed_prefixes p') =
      set (get_allowed_prefixes p) \<union> (if d = Allow then {pre} else {})"
    by auto
qed

section \<open>Witnesses\<close>

definition sample_rule :: "string \<Rightarrow> string list \<Rightarrow> decision \<Rightarrow> prefix_rule" where
  "sample_rule t ts d =
     \<lparr>rule_pattern = \<lparr>pat_first = t, pat_rest = map Single ts\<rparr>, rule_decision = d,
      rule_justification = None\<rparr>"

definition sample_policy :: policy where
  "sample_policy =
     from_parts [(''git'', [sample_rule ''git'' [''status''] Allow, sample_rule ''git'' [''push''] Forbidden])]
       [\<lparr>nr_host = ''a.b'', nr_protocol = Http, nr_decision = Allow, nr_justification = None\<rparr>,
        \<lparr>nr_host = ''a.b'', nr_protocol = Http, nr_decision = Forbidden, nr_justification = None\<rparr>]
       [''ls'' \<mapsto> [[RootDir, Normal ''bin'', Normal ''ls'']]]"

definition sample_host :: host where
  "sample_host = \<lparr>home_dir = None, current_dir = Some ''/w'', getcwd_error = []\<rparr>"

lemmas sample_defs = sample_rule_def sample_policy_def sample_host_def

lemmas decision_eval = max_def less_eq_decision_def

lemma sample_policy_ok: "policy_ok sample_policy"
  by (simp add: policy_ok_def sample_defs from_parts_def rule_program_def)

lemma sample_status:
  "match_exact_rules sample_policy [''git'', ''status''] =
     Some [PrefixRuleMatch [''git'', ''status''] Allow None None]"
  by (simp add: policy_defs sample_defs)

lemma sample_push:
  "match_exact_rules sample_policy [''git'', ''push''] =
     Some [PrefixRuleMatch [''git'', ''push''] Forbidden None None]"
  by (simp add: policy_defs sample_defs)

lemma sample_check_push:
  "check_with_options h sample_policy [''git'', ''push''] heuristics opts =
     Some \<lparr>eval_decision = Forbidden,
           matched_rules = [PrefixRuleMatch [''git'', ''push''] Forbidden None None]\<rparr>"
  by (simp add: check_with_options_def matches_exact [OF sample_push] from_matches_def)

theorem check_multiple_strictest_segment_witness:
  "\<exists>ev. check_multiple_with_options sample_host sample_policy
      [[''git'', ''status''], [''git'', ''push'']] (\<lambda>_. Allow) default_options = Some ev \<and>
      Forbidden \<le> eval_decision ev"
proof -
  let ?ev = "\<lparr>eval_decision = Forbidden,
      matched_rules = [PrefixRuleMatch [''git'', ''status''] Allow None None,
                       PrefixRuleMatch [''git'', ''push''] Forbidden None None]\<rparr>"
  have ev: "check_multiple_with_options sample_host sample_policy
      [[''git'', ''status''], [''git'', ''push'']] (\<lambda>_. Allow) default_options = Some ?ev"
    by (simp add: check_multiple_with_options_def matches_exact [OF sample_status]
        matches_exact [OF sample_push] from_matches_def decision_eval)
  show ?thesis
    using ev check_multiple_strictest_segment [OF ev, of Forbidden] sample_check_push by auto
qed

theorem check_extend_strictness_witness:
  "\<exists>ev'. check_with_options sample_host sample_policy ([''git'', ''push''] @ [''--force''])
      (\<lambda>_. Allow) default_options = Some ev' \<and> Forbidden \<le> eval_decision ev'"
  using check_extend_strictness [OF sample_push _ sample_check_push] by simp

theorem policy_operations_keep_invariant_witness:
  "policy_ok sample_policy \<and> policy_ok (merge_overlay sample_policy sample_policy)"
  using policy_operations_keep_invariant [OF sample_policy_ok sample_policy_ok] sample_policy_ok
  by blast

theorem add_prefix_rule_matches_witness:
  "\<exists>p'. add_prefix_rule sample_policy [''git'', ''status''] Prompt = Ok p' \<and>
     match_exact_rules p' [''git'', ''status''] =
       Some [PrefixRuleMatch [''git'', ''status''] Allow None None,
             PrefixRuleMatch [''git'', ''status''] Prompt None None]"
proof -
  obtain p' where p': "add_prefix_rule sample_policy [''git'', ''status''] Prompt = Ok p'"
    by (simp add: add_prefix_rule_def Let_def)
  then show ?thesis
    using add_prefix_rule_matches [OF p', of "[''git'', ''status'']"] by (simp add: sample_status)
qed

theorem merge_overlay_strictness_witness:
  "\<exists>ev'. check_with_options sample_host (merge_overlay empty_policy sample_policy) [''git'', ''push'']
      (\<lambda>_. Allow) default_options = Some ev' \<and> Forbidden \<le> eval_decision ev'"
  using merge_overlay_strictness [OF sample_policy_ok _ sample_push _ sample_check_push] by simp

theorem undeclared_host_executable_falls_back_witness:
  "check_with_options sample_host sample_policy [''/tmp/ls''] (\<lambda>_. Prompt)
      \<lparr>resolve_host_executables = True\<rparr> =
     Some \<lparr>eval_decision = Prompt, matched_rules = [HeuristicsRuleMatch [''/tmp/ls''] Prompt]\<rparr>"
  by (rule undeclared_host_executable_falls_back
        [where program = "[RootDir, Normal ''tmp'', Normal ''ls'']" and name = "''ls''"
           and paths = "[[RootDir, Normal ''bin'', Normal ''ls'']]"])
    (simp_all add: policy_defs sample_defs path_eval)

theorem relative_program_judged_by_basename_rules_witness:
  "map_option eval_decision (check_with_options sample_host sample_policy [''./git'', ''status'']
      (\<lambda>_. Prompt) \<lparr>resolve_host_executables = True\<rparr>) = Some Allow"
proof -
  have "map_option eval_decision (check_with_options sample_host sample_policy
      ((''./'' @ ''git'') # [''status'']) (\<lambda>_. Prompt) \<lparr>resolve_host_executables = True\<rparr>) =
    map_option eval_decision (check_with_options sample_host sample_policy [''git'', ''status'']
      (\<lambda>_. Prompt) default_options)"
    by (rule relative_program_judged_by_basename_rules [OF _ _ _ _ _ sample_status, of _ "''/w''"])
      (simp_all add: policy_defs sample_defs is_absolute_def plain_name_def)
  then show ?thesis
    by (simp add: check_with_options_def matches_exact [OF sample_status] from_matches_def)
qed

theorem compiled_network_domains_last_wins_witness:
  "compiled_network_domains sample_policy = ([], [''a.b'']) \<and>
   last_network_decision (network_rules sample_policy) ''a.b'' = Some Forbidden"
proof -
  have c: "compiled_network_domains sample_policy = ([], [''a.b''])"
    by (simp add: policy_defs sample_defs)
  then show ?thesis
    using compiled_network_domains_last_wins [OF c, of "''a.b''"] by simp
qed

theorem allowed_prefixes_complete_witness:
  "\<exists>p'. add_prefix_rule empty_policy [''ls'', ''-l''] Allow = Ok p' \<and>
     [''ls'', ''-l''] \<in> set (get_allowed_prefixes p')"
proof -
  obtain p' where p': "add_prefix_rule empty_policy [''ls'', ''-l''] Allow = Ok p'"
    by (simp add: add_prefix_rule_def Let_def)
  then show ?thesis
    using allowed_prefixes_complete [OF p'] by simp
qed

end
