(* ===== verification/Policy_Parser.thy ===== *)
theory Policy_Parser
  imports Exec_Policy
begin

text \<open>
  The policy files: \<^verbatim>\<open>codex-rs/execpolicy/src/parser.rs\<close> and the validation of examples of
  \<^verbatim>\<open>rule.rs\<close>. A policy file is a Starlark program whose effects are its calls of the three
  builtins \<^verbatim>\<open>prefix_rule\<close>, \<^verbatim>\<open>network_rule\<close> and \<^verbatim>\<open>host_executable\<close>; they return
  nothing and a failing one ends the evaluation. So what the Starlark interpreter contributes is
  the list of calls of a file and the error it may end with: the parameter \<open>starlark\<close>. The
  tokeniser and the renderer of the crate \<^verbatim>\<open>shlex\<close> are the parameters \<open>shlex_split\<close> and
  \<open>try_join\<close>.
\<close>

section \<open>Values and calls\<close>

text \<open>A Starlark value, as far as the builtins look: a string, a list, or its type name.\<close>

datatype star_value = SStr string | SList "star_value list" | SOther string

fun get_type :: "star_value \<Rightarrow> string" where
  "get_type (SStr _) = ''string''"
| "get_type (SList _) = ''list''"
| "get_type (SOther ty) = ty"

fun unpack_str :: "star_value \<Rightarrow> string option" where
  "unpack_str (SStr s) = Some s"
| "unpack_str _ = None"

datatype builtin_call =
    CallPrefixRule "star_value list" "string option" "star_value list option"
      "star_value list option" "string option" "error_location option"
  | CallNetworkRule string string string "string option"
  | CallHostExecutable string "star_value list"

type_synonym starlark_eval = "string \<Rightarrow> string \<Rightarrow> (string, builtin_call list \<times> string option) result"

section \<open>The builder\<close>

record pending_example_validation =
  pv_rules :: "prefix_rule list"
  pv_matches :: "command list"
  pv_not_matches :: "command list"
  pv_location :: "error_location option"

record policy_builder =
  pb_rules_by_program :: "(string, prefix_rule) multimap"
  pb_network_rules :: "network_rule list"
  pb_host_executables_by_name :: "string \<rightharpoonup> abs_path list"
  pb_pending :: "pending_example_validation list"

definition new_builder :: policy_builder where
  "new_builder =
     \<lparr>pb_rules_by_program = [], pb_network_rules = [], pb_host_executables_by_name = Map.empty,
      pb_pending = []\<rparr>"

definition builder_add_rule :: "policy_builder \<Rightarrow> prefix_rule \<Rightarrow> policy_builder" where
  "builder_add_rule b r =
     b\<lparr>pb_rules_by_program := mm_insert (pb_rules_by_program b) (rule_program r) r\<rparr>"

definition builder_add_network_rule :: "policy_builder \<Rightarrow> network_rule \<Rightarrow> policy_builder" where
  "builder_add_network_rule b r = b\<lparr>pb_network_rules := pb_network_rules b @ [r]\<rparr>"

definition builder_add_host_executable ::
  "policy_builder \<Rightarrow> string \<Rightarrow> abs_path list \<Rightarrow> policy_builder" where
  "builder_add_host_executable b name paths =
     b\<lparr>pb_host_executables_by_name := (pb_host_executables_by_name b)(name \<mapsto> paths)\<rparr>"

definition add_pending_example_validation ::
  "policy_builder \<Rightarrow> prefix_rule list \<Rightarrow> command list \<Rightarrow> command list \<Rightarrow> error_location option \<Rightarrow>
   policy_builder" where
  "add_pending_example_validation b rules matches not_matches location =
     b\<lparr>pb_pending := pb_pending b @
         [\<lparr>pv_rules = rules, pv_matches = matches, pv_not_matches = not_matches,
           pv_location = location\<rparr>]\<rparr>"

definition build :: "policy_builder \<Rightarrow> policy" where
  "build b =
     from_parts (pb_rules_by_program b) (pb_network_rules b) (pb_host_executables_by_name b)"

section \<open>Validation of examples\<close>

definition resolving :: match_options where
  "resolving = \<lparr>resolve_host_executables = True\<rparr>"

definition render_example :: "(command \<Rightarrow> string option) \<Rightarrow> command \<Rightarrow> string" where
  "render_example try_join e =
     (case try_join e of Some s \<Rightarrow> s | None \<Rightarrow> ''unable to render example'')"

definition validate_match_examples ::
  "host \<Rightarrow> (command \<Rightarrow> string option) \<Rightarrow> policy \<Rightarrow> prefix_rule list \<Rightarrow> command list \<Rightarrow>
   (exec_error, unit) result" where
  "validate_match_examples h try_join p rules matches =
     (let unmatched = filter (\<lambda>e. matches_for_command_with_options h p e None resolving = []) matches
      in if unmatched = [] then Ok ()
         else Err (ExampleDidNotMatch rules (map (render_example try_join) unmatched) None))"

fun validate_not_match_examples ::
  "host \<Rightarrow> (command \<Rightarrow> string option) \<Rightarrow> policy \<Rightarrow> prefix_rule list \<Rightarrow> command list \<Rightarrow>
   (exec_error, unit) result" where
  "validate_not_match_examples h try_join p rules [] = Ok ()"
| "validate_not_match_examples h try_join p rules (e # es) =
     (case matches_for_command_with_options h p e None resolving of
        m # _ \<Rightarrow> Err (ExampleDidMatch m (render_example try_join e) None)
      | [] \<Rightarrow> validate_not_match_examples h try_join p rules es)"

definition attach_validation_location :: "exec_error \<Rightarrow> error_location option \<Rightarrow> exec_error" where
  "attach_validation_location e location =
     (case location of Some loc \<Rightarrow> with_location e loc | None \<Rightarrow> e)"

definition validation_policy :: "policy_builder \<Rightarrow> pending_example_validation \<Rightarrow> policy" where
  "validation_policy b v =
     from_parts (foldl (\<lambda>m r. mm_insert m (rule_program r) r) [] (pv_rules v)) []
       (pb_host_executables_by_name b)"

fun validate_pending ::
  "host \<Rightarrow> (command \<Rightarrow> string option) \<Rightarrow> policy_builder \<Rightarrow> pending_example_validation list \<Rightarrow>
   (exec_error, unit) result" where
  "validate_pending h try_join b [] = Ok ()"
| "validate_pending h try_join b (v # vs) =
     (let p = validation_policy b v
      in res_bind (map_err (\<lambda>e. attach_validation_location e (pv_location v))
           (validate_not_match_examples h try_join p (pv_rules v) (pv_not_matches v))) (\<lambda>_.
         res_bind (map_err (\<lambda>e. attach_validation_location e (pv_location v))
           (validate_match_examples h try_join p (pv_rules v) (pv_matches v))) (\<lambda>_.
         validate_pending h try_join b vs)))"

definition validate_pending_examples_from ::
  "host \<Rightarrow> (command \<Rightarrow> string option) \<Rightarrow> policy_builder \<Rightarrow> nat \<Rightarrow> (exec_error, unit) result" where
  "validate_pending_examples_from h try_join b start =
     validate_pending h try_join b (drop start (pb_pending b))"

section \<open>The arguments of the builtins\<close>

definition unpack_or :: "(string \<Rightarrow> exec_error) \<Rightarrow> star_value \<Rightarrow> (exec_error, string) result" where
  "unpack_or err v = (case unpack_str v of Some s \<Rightarrow> Ok s | None \<Rightarrow> Err (err (get_type v)))"

definition parse_pattern_token :: "star_value \<Rightarrow> (exec_error, pattern_token) result" where
  "parse_pattern_token v =
     (case v of
        SStr s \<Rightarrow> Ok (Single s)
      | SList vs \<Rightarrow>
          res_bind (map_res (unpack_or (\<lambda>ty. InvalidPattern
              (''pattern alternative must be a string (got '' @ ty @ '')''))) vs) (\<lambda>tokens.
            (case tokens of
               [] \<Rightarrow> Err (InvalidPattern ''pattern alternatives cannot be empty'')
             | [single] \<Rightarrow> Ok (Single single)
             | _ \<Rightarrow> Ok (Alts tokens)))
      | SOther ty \<Rightarrow> Err (InvalidPattern
          (''pattern element must be a string or list of strings (got '' @ ty @ '')'')))"

definition parse_pattern :: "star_value list \<Rightarrow> (exec_error, pattern_token list) result" where
  "parse_pattern vs =
     res_bind (map_res parse_pattern_token vs) (\<lambda>tokens.
       if tokens = [] then Err (InvalidPattern ''pattern cannot be empty'') else Ok tokens)"

definition parse_string_example ::
  "(string \<Rightarrow> string list option) \<Rightarrow> string \<Rightarrow> (exec_error, command) result" where
  "parse_string_example shlex_split raw =
     (case shlex_split raw of
        None \<Rightarrow> Err (InvalidExample ''example string has invalid shell syntax'')
      | Some tokens \<Rightarrow>
          (if tokens = [] then Err (InvalidExample ''example cannot be an empty string'')
           else Ok tokens))"

definition parse_list_example :: "star_value list \<Rightarrow> (exec_error, command) result" where
  "parse_list_example vs =
     res_bind (map_res (unpack_or (\<lambda>ty. InvalidExample
         (''example tokens must be strings (got '' @ ty @ '')''))) vs) (\<lambda>tokens.
       if tokens = [] then Err (InvalidExample ''example cannot be an empty list'') else Ok tokens)"

definition parse_example ::
  "(string \<Rightarrow> string list option) \<Rightarrow> star_value \<Rightarrow> (exec_error, command) result" where
  "parse_example shlex_split v =
     (case v of
        SStr raw \<Rightarrow> parse_string_example shlex_split raw
      | SList vs \<Rightarrow> parse_list_example vs
      | SOther ty \<Rightarrow> Err (InvalidExample
          (''example must be a string or list of strings (got '' @ ty @ '')'')))"

definition parse_examples ::
  "(string \<Rightarrow> string list option) \<Rightarrow> star_value list \<Rightarrow> (exec_error, command list) result" where
  "parse_examples shlex_split vs = map_res (parse_example shlex_split) vs"

definition parse_optional_examples ::
  "(string \<Rightarrow> string list option) \<Rightarrow> star_value list option \<Rightarrow> (exec_error, command list) result" where
  "parse_optional_examples shlex_split vs =
     (case vs of None \<Rightarrow> Ok [] | Some es \<Rightarrow> parse_examples shlex_split es)"

definition parse_justification :: "string option \<Rightarrow> (exec_error, string option) result" where
  "parse_justification just =
     (case just of
        Some raw \<Rightarrow> (if trim raw = [] then Err (InvalidRule ''justification cannot be empty'')
                     else Ok (Some raw))
      | None \<Rightarrow> Ok None)"

definition parse_network_rule_decision :: "string \<Rightarrow> (exec_error, decision) result" where
  "parse_network_rule_decision raw =
     (if raw = ''deny'' then Ok Forbidden else parse_decision raw)"

definition parse_literal_absolute_path :: "host \<Rightarrow> string \<Rightarrow> (exec_error, abs_path) result" where
  "parse_literal_absolute_path h raw =
     (if \<not> is_absolute raw
      then Err (InvalidRule (''host_executable paths must be absolute (got '' @ raw @ '')''))
      else map_err (\<lambda>e. InvalidRule
          (''invalid absolute path `'' @ raw @ ''`: '' @ path_error_text h e))
        (from_absolute_path h raw))"

definition validate_host_executable_name :: "string \<Rightarrow> (exec_error, unit) result" where
  "validate_host_executable_name name =
     (if name = [] then Err (InvalidRule ''host_executable name cannot be empty'')
      else if length (components name) \<noteq> 1 \<or> file_name (components name) \<noteq> Some name
      then Err (InvalidRule
        (''host_executable name must be a bare executable name (got '' @ name @ '')''))
      else Ok ())"

section \<open>The builtins\<close>

definition builtin_prefix_rule ::
  "(string \<Rightarrow> string list option) \<Rightarrow> policy_builder \<Rightarrow> star_value list \<Rightarrow> string option \<Rightarrow>
   star_value list option \<Rightarrow> star_value list option \<Rightarrow> string option \<Rightarrow> error_location option \<Rightarrow>
   (exec_error, policy_builder) result" where
  "builtin_prefix_rule shlex_split b pattern decision_arg match_arg not_match_arg just location =
     res_bind (case decision_arg of Some raw \<Rightarrow> parse_decision raw | None \<Rightarrow> Ok Allow) (\<lambda>d.
     res_bind (parse_justification just) (\<lambda>justification.
     res_bind (parse_pattern pattern) (\<lambda>pattern_tokens.
     res_bind (parse_optional_examples shlex_split match_arg) (\<lambda>matches.
     res_bind (parse_optional_examples shlex_split not_match_arg) (\<lambda>not_matches.
       (case pattern_tokens of
          [] \<Rightarrow> Err (InvalidPattern ''pattern cannot be empty'')
        | first_token # remaining_tokens \<Rightarrow>
            (let rules = map (\<lambda>head.
                   \<lparr>rule_pattern = \<lparr>pat_first = head, pat_rest = remaining_tokens\<rparr>,
                    rule_decision = d, rule_justification = justification\<rparr>)
                   (alternatives first_token)
             in Ok (foldl builder_add_rule
                      (add_pending_example_validation b rules matches not_matches location)
                      rules))))))))"

definition builtin_network_rule ::
  "policy_builder \<Rightarrow> string \<Rightarrow> string \<Rightarrow> string \<Rightarrow> string option \<Rightarrow>
   (exec_error, policy_builder) result" where
  "builtin_network_rule b host protocol_arg decision_arg just =
     res_bind (parse_protocol protocol_arg) (\<lambda>protocol.
     res_bind (parse_network_rule_decision decision_arg) (\<lambda>d.
     res_bind (parse_justification just) (\<lambda>justification.
     res_bind (normalize_network_rule_host host) (\<lambda>normalized.
       Ok (builder_add_network_rule b
         \<lparr>nr_host = normalized, nr_protocol = protocol, nr_decision = d,
          nr_justification = justification\<rparr>)))))"

fun parse_host_paths ::
  "host \<Rightarrow> string \<Rightarrow> abs_path list \<Rightarrow> star_value list \<Rightarrow> (exec_error, abs_path list) result" where
  "parse_host_paths h name parsed [] = Ok parsed"
| "parse_host_paths h name parsed (v # vs) =
     res_bind (unpack_or (\<lambda>ty. InvalidRule
         (''host_executable paths must be strings (got '' @ ty @ '')'')) v) (\<lambda>raw.
     res_bind (parse_literal_absolute_path h raw) (\<lambda>path.
       (case executable_path_lookup_key path of
          None \<Rightarrow> Err (InvalidRule
            (''host_executable path `'' @ raw @ ''` must have basename `'' @ name @ ''`''))
        | Some path_name \<Rightarrow>
            (if path_name \<noteq> executable_lookup_key name
             then Err (InvalidRule
               (''host_executable path `'' @ raw @ ''` must have basename `'' @ name @ ''`''))
             else parse_host_paths h name
               (if path \<in> set parsed then parsed else parsed @ [path]) vs))))"

definition builtin_host_executable ::
  "host \<Rightarrow> policy_builder \<Rightarrow> string \<Rightarrow> star_value list \<Rightarrow> (exec_error, policy_builder) result" where
  "builtin_host_executable h b name paths =
     res_bind (validate_host_executable_name name) (\<lambda>_.
     res_bind (parse_host_paths h name [] paths) (\<lambda>parsed_paths.
       Ok (builder_add_host_executable b (executable_lookup_key name) parsed_paths)))"

fun run_call ::
  "host \<Rightarrow> (string \<Rightarrow> string list option) \<Rightarrow> policy_builder \<Rightarrow> builtin_call \<Rightarrow>
   (exec_error, policy_builder) result" where
  "run_call h shlex_split b (CallPrefixRule pat d m n j loc) =
     builtin_prefix_rule shlex_split b pat d m n j loc"
| "run_call h shlex_split b (CallNetworkRule host protocol d j) =
     builtin_network_rule b host protocol d j"
| "run_call h shlex_split b (CallHostExecutable name paths) =
     builtin_host_executable h b name paths"

text \<open>
  The builder is mutated in place, so the calls before a failing one have had their effect.
\<close>

fun run_calls ::
  "host \<Rightarrow> (string \<Rightarrow> string list option) \<Rightarrow> policy_builder \<Rightarrow> builtin_call list \<Rightarrow>
   policy_builder \<times> (exec_error, unit) result" where
  "run_calls h shlex_split b [] = (b, Ok ())"
| "run_calls h shlex_split b (c # cs) =
     (case run_call h shlex_split b c of
        Inl e \<Rightarrow> (b, Err e)
      | Inr b' \<Rightarrow> run_calls h shlex_split b' cs)"

definition parse_policy ::
  "host \<Rightarrow> starlark_eval \<Rightarrow> (string \<Rightarrow> string list option) \<Rightarrow> (command \<Rightarrow> string option) \<Rightarrow>
   policy_builder \<Rightarrow> string \<Rightarrow> string \<Rightarrow> policy_builder \<times> (exec_error, unit) result" where
  "parse_policy h starlark shlex_split try_join b identifier contents =
     (let pending_validation_count = length (pb_pending b)
      in case starlark identifier contents of
           Inl e \<Rightarrow> (b, Err (Starlark (StarlarkNative e)))
         | Inr (calls, failure) \<Rightarrow>
             (case run_calls h shlex_split b calls of
                (b', Inl e) \<Rightarrow> (b', Err (Starlark (StarlarkBuiltin e)))
              | (b', Inr _) \<Rightarrow>
                  (case failure of
                     Some e \<Rightarrow> (b', Err (Starlark (StarlarkNative e)))
                   | None \<Rightarrow>
                       (b', validate_pending_examples_from h try_join b' pending_validation_count))))"

lemmas parser_defs =
  new_builder_def builder_add_rule_def builder_add_network_rule_def
  builder_add_host_executable_def add_pending_example_validation_def build_def resolving_def
  render_example_def validate_match_examples_def attach_validation_location_def
  validation_policy_def validate_pending_examples_from_def unpack_or_def
  parse_pattern_token_def parse_pattern_def parse_string_example_def parse_list_example_def
  parse_example_def parse_examples_def parse_optional_examples_def parse_justification_def
  parse_network_rule_decision_def parse_decision_def parse_protocol_def
  parse_literal_absolute_path_def validate_host_executable_name_def
  builtin_prefix_rule_def builtin_network_rule_def builtin_host_executable_def parse_policy_def

section \<open>The invariant of the builder\<close>

definition hosts_ok :: "(string \<rightharpoonup> abs_path list) \<Rightarrow> bool" where
  "hosts_ok hosts \<longleftrightarrow>
     (\<forall>name paths. hosts name = Some paths \<longrightarrow>
        plain_name name \<and> distinct paths \<and>
        (\<forall>q \<in> set paths. abs_path_ok q \<and> file_name q = Some name))"

definition filed :: "(string, prefix_rule) multimap \<Rightarrow> prefix_rule \<Rightarrow> bool" where
  "filed m r \<longleftrightarrow> (\<exists>rs. mm_get m (rule_program r) = Some rs \<and> r \<in> set rs)"

definition builder_ok :: "policy_builder \<Rightarrow> bool" where
  "builder_ok b \<longleftrightarrow>
     policy_ok (build b) \<and> hosts_ok (pb_host_executables_by_name b) \<and>
     (\<forall>v \<in> set (pb_pending b). \<forall>r \<in> set (pv_rules v). filed (pb_rules_by_program b) r)"

lemma filed_insert: "filed (mm_insert m (rule_program r) r) q \<longleftrightarrow> q = r \<or> filed m q"
  by (auto simp: filed_def mm.get_insert split: option.splits)

lemma builder_ok_new: "builder_ok new_builder"
  by (simp add: builder_ok_def new_builder_def build_def from_parts_def policy_ok_def hosts_ok_def)

lemma builder_ok_add_rule: "builder_ok b \<Longrightarrow> builder_ok (builder_add_rule b r)"
  using policy_ok_insert [of "build b" r "rule_program r"]
  by (auto simp: builder_ok_def builder_add_rule_def filed_insert build_def from_parts_def)

lemma add_rules_fields:
  "pb_pending (foldl builder_add_rule b rules) = pb_pending b"
  "pb_network_rules (foldl builder_add_rule b rules) = pb_network_rules b"
  "pb_host_executables_by_name (foldl builder_add_rule b rules) = pb_host_executables_by_name b"
  by (induction rules arbitrary: b) (auto simp: builder_add_rule_def)

lemma filed_add_rules:
  "filed (pb_rules_by_program (foldl builder_add_rule b rules)) q \<longleftrightarrow>
     q \<in> set rules \<or> filed (pb_rules_by_program b) q"
  by (induction rules arbitrary: b) (auto simp: builder_add_rule_def filed_insert)

lemma policy_ok_add_rules:
  "policy_ok (build b) \<Longrightarrow> policy_ok (build (foldl builder_add_rule b rules))"
proof (induction rules arbitrary: b)
  case (Cons r rules)
  then show ?case
    using policy_ok_insert [of "build b" r "rule_program r"]
    by (simp add: builder_add_rule_def build_def from_parts_def)
qed simp

lemma builder_ok_add_rules:
  assumes "builder_ok b"
  shows "builder_ok (foldl builder_add_rule (add_pending_example_validation b rules ms ns loc) rules)"
proof -
  let ?b = "add_pending_example_validation b rules ms ns loc"
  have "policy_ok (build ?b)"
    using assms by (simp add: builder_ok_def build_def add_pending_example_validation_def)
  then show ?thesis
    using assms
    by (auto simp: builder_ok_def policy_ok_add_rules add_rules_fields filed_add_rules
        add_pending_example_validation_def)
qed

text \<open>What a successful call of \<^verbatim>\<open>prefix_rule\<close> did.\<close>

lemma builtin_prefix_rule_cases:
  assumes "builtin_prefix_rule shlex_split b pat d_arg m_arg n_arg just loc = Ok b'"
  obtains d j first rest ms ns rules where
    "parse_pattern pat = Ok (first # rest)"
    and "parse_optional_examples shlex_split m_arg = Ok ms"
    and "parse_optional_examples shlex_split n_arg = Ok ns"
    and "(case d_arg of Some raw \<Rightarrow> parse_decision raw | None \<Rightarrow> Ok Allow) = Ok d"
    and "parse_justification just = Ok j"
    and "rules = map (\<lambda>head. \<lparr>rule_pattern = \<lparr>pat_first = head, pat_rest = rest\<rparr>,
           rule_decision = d, rule_justification = j\<rparr>) (alternatives first)"
    and "b' = foldl builder_add_rule (add_pending_example_validation b rules ms ns loc) rules"
proof -
  obtain d j toks ms ns where parsed:
    "(case d_arg of Some raw \<Rightarrow> parse_decision raw | None \<Rightarrow> Ok Allow) = Ok d"
    "parse_justification just = Ok j" "parse_pattern pat = Ok toks"
    "parse_optional_examples shlex_split m_arg = Ok ms"
    "parse_optional_examples shlex_split n_arg = Ok ns"
    using assms unfolding builtin_prefix_rule_def res_bind_Inr_iff by blast
  show ?thesis
  proof (cases toks)
    case Nil
    then show ?thesis using assms parsed by (simp add: builtin_prefix_rule_def)
  next
    case (Cons first rest)
    then show ?thesis
      using assms parsed by (intro that) (auto simp: builtin_prefix_rule_def Let_def)
  qed
qed

lemma components_plain: "plain_name n \<Longrightarrow> components n = [Normal n]"
  by (auto simp: components_def is_absolute_def plain_name_def split_on_no_sep seg_components_def
      Let_def prefix_def)

lemma validate_host_executable_name_iff:
  "validate_host_executable_name name = Ok () \<longleftrightarrow> plain_name name"
proof
  assume ok: "validate_host_executable_name name = Ok ()"
  then have fn: "file_name (components name) = Some name"
    by (auto simp: validate_host_executable_name_def split: if_splits)
  then have "components name \<noteq> []" and "last (components name) = Normal name"
    by (auto simp: file_name_def split: if_splits component.splits)
  then have "Normal name \<in> set (components name)"
    using last_in_set by metis
  then show "plain_name name" by (rule Normal_in_components)
next
  assume "plain_name name"
  then show "validate_host_executable_name name = Ok ()"
    by (simp add: validate_host_executable_name_def components_plain file_name_def plain_name_def)
qed

lemma parse_literal_absolute_path_ok:
  "parse_literal_absolute_path h raw = Ok q \<Longrightarrow> abs_path_ok q"
  by (auto simp: parse_literal_absolute_path_def map_err_Inr_iff from_absolute_path_def
      maybe_expand_home_directory_def strip_prefix_def is_absolute_def absolutize_def prefix_def
      intro!: normalize_path_ok split: if_splits option.splits)

lemma parse_host_paths_ok:
  assumes "parse_host_paths h name parsed vs = Ok paths"
    and "distinct parsed \<and> (\<forall>q \<in> set parsed. abs_path_ok q \<and> file_name q = Some name)"
  shows "distinct paths \<and> (\<forall>q \<in> set paths. abs_path_ok q \<and> file_name q = Some name)"
  using assms
proof (induction vs arbitrary: parsed)
  case (Cons v vs)
  from Cons.prems(1) obtain raw q where q: "parse_literal_absolute_path h raw = Ok q"
      "executable_path_lookup_key q = Some name"
      "parse_host_paths h name (if q \<in> set parsed then parsed else parsed @ [q]) vs = Ok paths"
    by (auto simp: res_bind_Inr_iff executable_lookup_key_def split: option.splits if_splits)
  have "abs_path_ok q \<and> file_name q = Some name"
    using q(2) parse_literal_absolute_path_ok [OF q(1)]
    by (auto simp: executable_path_lookup_key_def executable_lookup_key_def)
  then show ?case
    using Cons.prems(2) by (intro Cons.IH [OF q(3)]) auto
qed simp

lemma run_call_ok:
  assumes "run_call h shlex_split b c = Ok b'" and "builder_ok b"
  shows "builder_ok b'"
proof (cases c)
  case (CallPrefixRule pat d m n j loc)
  then have "builtin_prefix_rule shlex_split b pat d m n j loc = Ok b'"
    using assms(1) by simp
  then show ?thesis
    by (rule builtin_prefix_rule_cases) (simp add: builder_ok_add_rules assms(2))
next
  case (CallNetworkRule host protocol d j)
  then show ?thesis
    using assms policy_ok_cong [of "build b" "build b'"]
    by (auto simp: builtin_network_rule_def res_bind_Inr_iff builder_add_network_rule_def
        builder_ok_def build_def from_parts_def)
next
  case (CallHostExecutable name paths)
  then obtain ps where "plain_name name" and ps: "parse_host_paths h name [] paths = Ok ps"
    and b': "b' = builder_add_host_executable b name ps"
    using assms(1)
    by (auto simp: builtin_host_executable_def res_bind_Inr_iff executable_lookup_key_def
        validate_host_executable_name_iff)
  moreover have "distinct ps \<and> (\<forall>q \<in> set ps. abs_path_ok q \<and> file_name q = Some name)"
    by (rule parse_host_paths_ok [OF ps]) simp
  ultimately show ?thesis
    using assms(2) policy_ok_cong [of "build b" "build b'"]
    by (auto simp: builder_ok_def hosts_ok_def builder_add_host_executable_def build_def
        from_parts_def)
qed

lemma run_calls_ok: "builder_ok b \<Longrightarrow> builder_ok (fst (run_calls h shlex_split b cs))"
  by (induction h shlex_split b cs rule: run_calls.induct) (auto split: sum.splits dest: run_call_ok)

lemma parse_policy_ok:
  assumes "builder_ok b"
  shows "builder_ok (fst (parse_policy h starlark shlex_split try_join b identifier contents))"
  using assms run_calls_ok [OF assms, of h shlex_split]
  by (auto simp: parse_policy_def Let_def split: sum.splits option.splits prod.splits)
    (metis fst_conv)+

text \<open>
  Parsing policy files keeps the builder well formed, whatever the Starlark interpreter
  yields and whether or not the file is accepted: rules are filed under their program, and the
  declared paths of a host executable are distinct normalised absolute paths whose file name is
  the declared bare name. So every policy that is built from files is well formed.
\<close>

theorem parse_keeps_builder_invariant:
  assumes "builder_ok b"
  shows "builder_ok (fst (parse_policy h starlark shlex_split try_join b identifier contents)) \<and>
    policy_ok (build (fst (parse_policy h starlark shlex_split try_join b identifier contents)))"
  using parse_policy_ok [OF assms] by (simp add: builder_ok_def)

section \<open>Accepted files and their examples\<close>

definition own_rules :: "prefix_rule list \<Rightarrow> (string, prefix_rule) multimap" where
  "own_rules rules = foldl (\<lambda>m r. mm_insert m (rule_program r) r) [] rules"

lemma filed_own_rules: "filed (own_rules rules) r \<longleftrightarrow> r \<in> set rules"
proof (induction rules rule: rev_induct)
  case Nil
  then show ?case by (simp add: own_rules_def filed_def mm_get_def)
next
  case (snoc q rules)
  then show ?case by (auto simp: own_rules_def filed_insert)
qed

lemma own_rules_get:
  "mm_get (own_rules rules) k = Some rs \<Longrightarrow> r \<in> set rs \<Longrightarrow> rule_program r = k \<and> r \<in> set rules"
proof (induction rules arbitrary: rs rule: rev_induct)
  case Nil
  then show ?case by (simp add: own_rules_def mm_get_def)
next
  case (snoc q rules)
  then show ?case
    by (auto simp: own_rules_def mm.get_insert split: if_splits option.splits)
qed

lemma exact_match_iff:
  assumes "\<And>k rs r. mm_get (rules_by_program p) k = Some rs \<Longrightarrow> r \<in> set rs \<Longrightarrow> rule_program r = k"
  shows "(\<exists>ms. match_exact_rules p cmd = Some ms \<and> m \<in> set ms) \<longleftrightarrow>
    (\<exists>r. filed (rules_by_program p) r \<and> rule_matches r cmd = Some m)"
proof (cases cmd)
  case Nil
  then show ?thesis using pr.matches_program by (auto simp: match_exact_rules_def)
next
  case (Cons c args)
  show ?thesis
  proof
    assume "\<exists>ms. match_exact_rules p cmd = Some ms \<and> m \<in> set ms"
    then obtain rs r where "mm_get (rules_by_program p) c = Some rs" "r \<in> set rs"
      "rule_matches r cmd = Some m"
      by (cases "mm_get (rules_by_program p) c")
        (auto simp: Cons match_exact_rules_def in_set_filter_map)
    then show "\<exists>r. filed (rules_by_program p) r \<and> rule_matches r cmd = Some m"
      using assms unfolding filed_def by blast
  next
    assume "\<exists>r. filed (rules_by_program p) r \<and> rule_matches r cmd = Some m"
    then obtain r rs where r: "mm_get (rules_by_program p) (rule_program r) = Some rs" "r \<in> set rs"
      "rule_matches r cmd = Some m"
      by (auto simp: filed_def)
    moreover have "rule_program r = c"
      using pr.matches_program [OF r(3)] Cons by simp
    ultimately show "\<exists>ms. match_exact_rules p cmd = Some ms \<and> m \<in> set ms"
      by (auto simp: Cons match_exact_rules_def in_set_filter_map)
  qed
qed

lemma matches_None_cases:
  "m \<in> set (matches_for_command_with_options h p cmd None opts) \<Longrightarrow>
   (\<exists>ms. match_exact_rules p cmd = Some ms \<and> m \<in> set ms) \<or> m \<in> set (match_host_executable_rules h p cmd)"
  by (auto simp: matches_for_command_with_options_def Let_def split: option.splits list.splits if_splits)

lemma host_match_iff:
  "match_host_executable_rules h p cmd \<noteq> [] \<longleftrightarrow>
     (\<exists>first args program name rs r. cmd = first # args \<and> from_absolute_path h first = Ok program \<and>
        executable_path_lookup_key program = Some name \<and>
        mm_get (rules_by_program p) name = Some rs \<and> r \<in> set rs \<and>
        (\<forall>paths. host_executables_by_name p name = Some paths \<longrightarrow> program \<in> set paths) \<and>
        rule_matches r (name # args) \<noteq> None)"
  unfolding match_host_executable_rules_def
  by (auto simp: filter_map_eq_Nil split: list.splits sum.splits option.splits)

lemma host_match_mono:
  assumes "host_executables_by_name p = host_executables_by_name q"
    and "\<And>k rs r. mm_get (rules_by_program p) k = Some rs \<Longrightarrow> r \<in> set rs \<Longrightarrow>
          \<exists>rs'. mm_get (rules_by_program q) k = Some rs' \<and> r \<in> set rs'"
    and "match_host_executable_rules h p cmd \<noteq> []"
  shows "match_host_executable_rules h q cmd \<noteq> []"
proof -
  obtain first args program name rs r where "cmd = first # args"
    "from_absolute_path h first = Ok program" "executable_path_lookup_key program = Some name"
    and rs: "mm_get (rules_by_program p) name = Some rs" "r \<in> set rs"
    and "\<forall>paths. host_executables_by_name p name = Some paths \<longrightarrow> program \<in> set paths"
    "rule_matches r (name # args) \<noteq> None"
    using assms(3) unfolding host_match_iff by blast
  moreover obtain rs' where "mm_get (rules_by_program q) name = Some rs'" "r \<in> set rs'"
    using assms(2) [OF rs] by blast
  ultimately show ?thesis
    unfolding host_match_iff assms(1) by blast
qed

lemma matches_resolving_nonempty_iff:
  "matches_for_command_with_options h p cmd None resolving = [] \<longleftrightarrow>
     (\<forall>ms. match_exact_rules p cmd = Some ms \<longrightarrow> ms = []) \<and> match_host_executable_rules h p cmd = []"
  by (auto simp: matches_for_command_with_options_def resolving_def Let_def
      split: option.splits list.splits)

lemma validation_matches_build:
  assumes "builder_ok b" and "v \<in> set (pb_pending b)"
    and "matches_for_command_with_options h (validation_policy b v) e None resolving \<noteq> []"
  shows "matches_for_command_with_options h (build b) e None resolving \<noteq> []"
proof -
  let ?p = "validation_policy b v"
  have p: "rules_by_program ?p = own_rules (pv_rules v)"
    "host_executables_by_name ?p = host_executables_by_name (build b)"
    by (simp_all add: validation_policy_def own_rules_def from_parts_def build_def)
  have filed: "filed (rules_by_program (build b)) r" if "r \<in> set (pv_rules v)" for r
    using assms(1,2) that by (auto simp: builder_ok_def build_def from_parts_def)
  have get: "rule_program r = k" if "mm_get (rules_by_program (build b)) k = Some rs" "r \<in> set rs" for k rs r
    using that assms(1) policy_ok_get by (auto simp: builder_ok_def)
  show ?thesis
  proof (cases "match_host_executable_rules h ?p e = []")
    case True
    then obtain ms where ms: "match_exact_rules ?p e = Some ms" "ms \<noteq> []"
      using assms(3) by (auto simp: matches_resolving_nonempty_iff)
    define m where "m = hd ms"
    have "\<exists>ms. match_exact_rules ?p e = Some ms \<and> m \<in> set ms"
      using ms by (auto simp: m_def)
    then obtain r where "filed (rules_by_program ?p) r" "rule_matches r e = Some m"
      using own_rules_get by (subst (asm) exact_match_iff) (auto simp: p)
    then have "\<exists>ms. match_exact_rules (build b) e = Some ms \<and> m \<in> set ms"
      using filed get by (subst exact_match_iff) (auto simp: p filed_own_rules)
    then show ?thesis by (auto simp: matches_resolving_nonempty_iff)
  next
    case False
    have "match_host_executable_rules h (build b) e \<noteq> []"
    proof (rule host_match_mono [OF p(2) _ False])
      fix k rs r
      assume "mm_get (rules_by_program ?p) k = Some rs" "r \<in> set rs"
      then have "rule_program r = k" "filed (rules_by_program (build b)) r"
        using own_rules_get filed by (auto simp: p)
      then show "\<exists>rs'. mm_get (rules_by_program (build b)) k = Some rs' \<and> r \<in> set rs'"
        by (auto simp: filed_def)
    qed
    then show ?thesis by (simp add: matches_resolving_nonempty_iff)
  qed
qed

lemma validate_not_match_Ok:
  "validate_not_match_examples h try_join p rules es = Ok u \<longleftrightarrow>
     (\<forall>e \<in> set es. matches_for_command_with_options h p e None resolving = [])"
  by (induction es) (auto split: list.splits)

lemma validate_match_Ok:
  "validate_match_examples h try_join p rules es = Ok u \<longleftrightarrow>
     (\<forall>e \<in> set es. matches_for_command_with_options h p e None resolving \<noteq> [])"
  by (auto simp: validate_match_examples_def Let_def filter_empty_conv)

lemma validate_pending_Ok:
  "validate_pending h try_join b vs = Ok () \<longleftrightarrow>
     (\<forall>v \<in> set vs.
        (\<forall>e \<in> set (pv_not_matches v).
           matches_for_command_with_options h (validation_policy b v) e None resolving = []) \<and>
        (\<forall>e \<in> set (pv_matches v).
           matches_for_command_with_options h (validation_policy b v) e None resolving \<noteq> []))"
  by (induction vs)
    (auto simp: Let_def res_bind_Inr_iff map_err_Inr_iff validate_not_match_Ok validate_match_Ok)

text \<open>What the validation record of a call of \<^verbatim>\<open>prefix_rule\<close> holds.\<close>

definition records_call ::
  "(string \<Rightarrow> string list option) \<Rightarrow> pending_example_validation \<Rightarrow> star_value list \<Rightarrow>
   star_value list option \<Rightarrow> star_value list option \<Rightarrow> bool" where
  "records_call shlex_split v pat m n \<longleftrightarrow>
     parse_optional_examples shlex_split m = Ok (pv_matches v) \<and>
     parse_optional_examples shlex_split n = Ok (pv_not_matches v) \<and>
     (\<exists>first rest d j. parse_pattern pat = Ok (first # rest) \<and>
        pv_rules v = map (\<lambda>head. \<lparr>rule_pattern = \<lparr>pat_first = head, pat_rest = rest\<rparr>,
          rule_decision = d, rule_justification = j\<rparr>) (alternatives first))"

lemma run_call_pending:
  assumes "run_call h shlex_split b c = Ok b'"
  shows "\<exists>vs. pb_pending b' = pb_pending b @ vs \<and>
    (\<forall>pat d m n j loc. c = CallPrefixRule pat d m n j loc \<longrightarrow>
       (\<exists>v \<in> set vs. records_call shlex_split v pat m n))"
proof (cases c)
  case (CallPrefixRule pat d m n j loc)
  then have "builtin_prefix_rule shlex_split b pat d m n j loc = Ok b'"
    using assms by simp
  then show ?thesis
    by (rule builtin_prefix_rule_cases)
      (auto simp: add_rules_fields add_pending_example_validation_def records_call_def CallPrefixRule)
qed (use assms in \<open>auto simp: builtin_network_rule_def builtin_host_executable_def res_bind_Inr_iff
    builder_add_network_rule_def builder_add_host_executable_def\<close>)

lemma run_calls_pending:
  "run_calls h shlex_split b cs = (b', Ok ()) \<Longrightarrow>
   \<exists>vs. pb_pending b' = pb_pending b @ vs \<and>
     (\<forall>pat d m n j loc. CallPrefixRule pat d m n j loc \<in> set cs \<longrightarrow>
        (\<exists>v \<in> set vs. records_call shlex_split v pat m n))"
proof (induction cs arbitrary: b)
  case (Cons c cs)
  obtain b1 where b1: "run_call h shlex_split b c = Ok b1"
    and cs: "run_calls h shlex_split b1 cs = (b', Ok ())"
    using Cons.prems by (auto split: sum.splits)
  obtain us where us: "pb_pending b1 = pb_pending b @ us"
    "\<forall>pat d m n j loc. c = CallPrefixRule pat d m n j loc \<longrightarrow>
       (\<exists>v \<in> set us. records_call shlex_split v pat m n)"
    using run_call_pending [OF b1] by blast
  obtain vs where vs: "pb_pending b' = pb_pending b1 @ vs"
    "\<forall>pat d m n j loc. CallPrefixRule pat d m n j loc \<in> set cs \<longrightarrow>
       (\<exists>v \<in> set vs. records_call shlex_split v pat m n)"
    using Cons.IH [OF cs] by blast
  have "pb_pending b' = pb_pending b @ us @ vs"
    using us(1) vs(1) by simp
  moreover have "\<exists>v \<in> set (us @ vs). records_call shlex_split v pat m n"
    if "CallPrefixRule pat d m n j loc \<in> set (c # cs)" for pat d m n j loc
    using that us(2) vs(2) unfolding set_append list.set by blast
  ultimately show ?case by blast
qed simp

lemma rule_not_matching:
  assumes "matches_for_command_with_options h (validation_policy b v) e None resolving = []"
    and "r \<in> set (pv_rules v)"
  shows "rule_matches r e = None"
proof (cases "rule_matches r e")
  case (Some m)
  let ?p = "validation_policy b v"
  have p: "rules_by_program ?p = own_rules (pv_rules v)"
    by (simp add: validation_policy_def own_rules_def from_parts_def)
  have "\<exists>ms. match_exact_rules ?p e = Some ms \<and> m \<in> set ms"
    using Some assms(2) own_rules_get by (subst exact_match_iff) (auto simp: p filed_own_rules)
  then show ?thesis
    using assms(1) by (auto simp: matches_resolving_nonempty_iff)
qed simp

lemma records_call_no_expansion:
  assumes "records_call shlex_split v pat m n" and "parse_pattern pat = Ok toks"
    and "\<And>r. r \<in> set (pv_rules v) \<Longrightarrow> rule_matches r e = None"
    and "pre \<in> set (product_lists (map alternatives toks))"
  shows "\<not> prefix pre e"
proof
  assume pre: "prefix pre e"
  obtain first rest d j where toks: "toks = first # rest"
    and rules: "pv_rules v = map (\<lambda>head. \<lparr>rule_pattern = \<lparr>pat_first = head, pat_rest = rest\<rparr>,
          rule_decision = d, rule_justification = j\<rparr>) (alternatives first)"
    using assms(1,2) by (auto simp: records_call_def)
  obtain head where head: "head \<in> set (alternatives first)"
    "pre \<in> set (expansions \<lparr>pat_first = head, pat_rest = rest\<rparr>)"
    using assms(4) by (auto simp: toks expansions_def)
  then have "matches_prefix \<lparr>pat_first = head, pat_rest = rest\<rparr> e = Some pre"
    using pre by (simp add: matches_prefix_expansions)
  then show False
    using assms(3) [of "\<lparr>rule_pattern = \<lparr>pat_first = head, pat_rest = rest\<rparr>,
          rule_decision = d, rule_justification = j\<rparr>"] head(1)
    by (simp add: rules rule_matches_def)
qed

text \<open>
  The examples of an accepted policy file hold: for every \<^verbatim>\<open>prefix_rule\<close> of the file, each
  \<^verbatim>\<open>match\<close> example is matched by a rule of the policy that is built, and no literal prefix the
  pattern stands for is a prefix of a \<^verbatim>\<open>not_match\<close> example.
\<close>

theorem accepted_examples_hold:
  assumes "builder_ok b" and "starlark identifier contents = Ok (calls, None)"
    and "parse_policy h starlark shlex_split try_join b identifier contents = (b', Ok ())"
    and "CallPrefixRule pat d m n j loc \<in> set calls"
  shows "\<exists>toks ms ns. parse_pattern pat = Ok toks \<and>
    parse_optional_examples shlex_split m = Ok ms \<and> parse_optional_examples shlex_split n = Ok ns \<and>
    (\<forall>e \<in> set ms. matches_for_command_with_options h (build b') e None resolving \<noteq> []) \<and>
    (\<forall>e \<in> set ns. \<forall>pre \<in> set (product_lists (map alternatives toks)). \<not> prefix pre e)"
proof -
  from assms(2,3) have run: "run_calls h shlex_split b calls = (b', Ok ())"
    and val: "validate_pending_examples_from h try_join b' (length (pb_pending b)) = Ok ()"
    by (auto simp: parse_policy_def Let_def split: prod.splits sum.splits)
  obtain vs where vs: "pb_pending b' = pb_pending b @ vs"
    and rec: "\<exists>v \<in> set vs. records_call shlex_split v pat m n"
    using run_calls_pending [OF run] assms(4) by blast
  from rec obtain v where v: "v \<in> set vs" "records_call shlex_split v pat m n" by blast
  then obtain toks where toks: "parse_pattern pat = Ok toks"
    by (auto simp: records_call_def)
  have ok: "builder_ok b'"
    using run_calls_ok [OF assms(1), of h shlex_split calls] run by simp
  have "\<forall>e \<in> set (pv_not_matches v).
      matches_for_command_with_options h (validation_policy b' v) e None resolving = []"
    and "\<forall>e \<in> set (pv_matches v).
      matches_for_command_with_options h (validation_policy b' v) e None resolving \<noteq> []"
    using val v(1) vs by (auto simp: validate_pending_examples_from_def validate_pending_Ok)
  then have "\<forall>e \<in> set (pv_matches v). matches_for_command_with_options h (build b') e None resolving \<noteq> []"
    and "\<forall>e \<in> set (pv_not_matches v). \<forall>pre \<in> set (product_lists (map alternatives toks)). \<not> prefix pre e"
    using validation_matches_build [OF ok, of v] rule_not_matching [of h b' v]
      records_call_no_expansion [OF v(2) toks] v(1) vs by auto
  then show ?thesis
    using toks v(2) by (auto simp: records_call_def)
qed

section \<open>The effect of a prefix rule\<close>

lemma add_unmatched_rule:
  "rule_matches r cmd = None \<Longrightarrow>
   match_exact_rules (build (builder_add_rule b r)) cmd = match_exact_rules (build b) cmd"
  by (cases cmd) (auto simp: match_exact_rules_def build_def from_parts_def builder_add_rule_def
      mm.get_insert split: option.splits)

lemma add_unmatched_rules:
  "\<forall>r \<in> set rules. rule_matches r cmd = None \<Longrightarrow>
   match_exact_rules (build (foldl builder_add_rule b rules)) cmd = match_exact_rules (build b) cmd"
  by (induction rules arbitrary: b) (auto simp: add_unmatched_rule)

lemma filed_rule_decides:
  assumes "policy_ok p" and "filed (rules_by_program p) r" and "rule_matches r cmd = Some m"
    and "check_with_options h p cmd heuristics opts = Some ev"
  shows "rule_decision r \<le> eval_decision ev"
proof -
  have "\<exists>ms. match_exact_rules p cmd = Some ms \<and> m \<in> set ms"
    using assms(1-3) policy_ok_get by (subst exact_match_iff) blast+
  then obtain ms where ms: "match_exact_rules p cmd = Some ms" "m \<in> set ms" by blast
  then have "ms \<noteq> []" by auto
  then have "from_matches ms = Some ev"
    using assms(4) by (simp add: check_with_options_def matches_exact [OF ms(1)])
  moreover have "match_decision m = rule_decision r"
    using assms(3) by (rule rule_matches_decision)
  ultimately show ?thesis
    using from_matches_le_iff ms(2) by force
qed

text \<open>
  C36: A successful call of \<^verbatim>\<open>prefix_rule\<close> takes effect on exactly the commands its pattern
  stands for: every command that starts with an expansion of the pattern is from then on judged
  at least as strictly as the rule says, and the exact matches of every other command stay as
  they were.
\<close>

theorem prefix_rule_takes_effect:
  assumes "builder_ok b" and "parse_pattern pat = Ok toks"
    and "builtin_prefix_rule shlex_split b pat d_arg m_arg n_arg just loc = Ok b'"
    and "(case d_arg of Some raw \<Rightarrow> parse_decision raw | None \<Rightarrow> Ok Allow) = Ok d"
  shows "if \<exists>pre \<in> set (product_lists (map alternatives toks)). prefix pre cmd
    then (\<forall>h heuristics opts ev. check_with_options h (build b') cmd heuristics opts = Some ev \<longrightarrow>
            d \<le> eval_decision ev)
    else match_exact_rules (build b') cmd = match_exact_rules (build b) cmd"
proof -
  obtain d' j first rest ms ns rules where toks: "toks = first # rest" and d': "d' = d"
    and rules: "rules = map (\<lambda>head. \<lparr>rule_pattern = \<lparr>pat_first = head, pat_rest = rest\<rparr>,
           rule_decision = d', rule_justification = j\<rparr>) (alternatives first)"
    and b': "b' = foldl builder_add_rule (add_pending_example_validation b rules ms ns loc) rules"
    using assms(2,3,4) by (elim builtin_prefix_rule_cases) auto
  have expand: "set (product_lists (map alternatives toks)) =
      (\<Union>r \<in> set rules. set (expansions (rule_pattern r)))"
    by (auto simp: toks rules expansions_def)
  have pending: "build (add_pending_example_validation b rules ms ns loc) = build b"
    by (simp add: build_def add_pending_example_validation_def)
  show ?thesis
  proof (cases "\<exists>pre \<in> set (product_lists (map alternatives toks)). prefix pre cmd")
    case True
    then obtain r pre where r: "r \<in> set rules" "matches_prefix (rule_pattern r) cmd = Some pre"
      by (auto simp: expand matches_prefix_expansions)
    have ok: "policy_ok (build b')"
      using builder_ok_add_rules [OF assms(1)] by (simp add: b' builder_ok_def)
    have "filed (rules_by_program (build b')) r"
      using r(1) by (simp add: b' filed_add_rules build_def from_parts_def)
    moreover have "rule_decision r = d"
      using r(1) by (auto simp: rules d')
    ultimately have "d \<le> eval_decision ev"
      if "check_with_options h (build b') cmd heuristics opts = Some ev" for h heuristics opts ev
      using filed_rule_decides [OF ok _ _ that, of r] r(2) by (simp add: rule_matches_def)
    then show ?thesis using True by auto
  next
    case False
    then have "\<forall>r \<in> set rules. rule_matches r cmd = None"
      unfolding expand by (auto simp: rule_matches_def matches_prefix_expansions
          simp flip: not_Some_eq)
    then show ?thesis
      using False by (simp add: b' add_unmatched_rules pending)
  qed
qed

section \<open>Witnesses\<close>

text \<open>A file with one rule, its two examples, and nothing that needs the tokeniser.\<close>

definition sample_call :: builtin_call where
  "sample_call =
     CallPrefixRule [SStr ''git'', SList [SStr ''push'', SStr ''fetch'']] (Some ''prompt'')
       (Some [SList [SStr ''git'', SStr ''push'']]) (Some [SList [SStr ''git'', SStr ''status'']])
       None None"

definition sample_starlark :: starlark_eval where
  "sample_starlark identifier contents = Ok ([sample_call], None)"

lemma sample_parse:
  "\<exists>b'. parse_policy sample_host sample_starlark (\<lambda>_. None) (\<lambda>_. None) new_builder [] [] = (b', Ok ())"
  by (simp add: parser_defs sample_starlark_def sample_call_def policy_defs Let_def
      sample_host_def path_eval rule_program_def)

theorem parse_keeps_builder_invariant_witness:
  "builder_ok new_builder \<and>
   policy_ok (build (fst (parse_policy sample_host sample_starlark (\<lambda>_. None) (\<lambda>_. None)
     new_builder [] [])))"
  using parse_keeps_builder_invariant [OF builder_ok_new] builder_ok_new by blast

theorem accepted_examples_hold_witness:
  "\<exists>b'. parse_policy sample_host sample_starlark (\<lambda>_. None) (\<lambda>_. None) new_builder [] [] = (b', Ok ()) \<and>
     matches_for_command_with_options sample_host (build b') [''git'', ''push''] None resolving \<noteq> []"
proof -
  obtain b' where b': "parse_policy sample_host sample_starlark (\<lambda>_. None) (\<lambda>_. None)
      new_builder [] [] = (b', Ok ())"
    using sample_parse by blast
  have run: "sample_starlark [] [] = Ok ([sample_call], None)"
    by (simp add: sample_starlark_def)
  have "\<exists>toks ms ns. parse_pattern [SStr ''git'', SList [SStr ''push'', SStr ''fetch'']] = Ok toks \<and>
    parse_optional_examples (\<lambda>_. None) (Some [SList [SStr ''git'', SStr ''push'']]) = Ok ms \<and>
    parse_optional_examples (\<lambda>_. None) (Some [SList [SStr ''git'', SStr ''status'']]) = Ok ns \<and>
    (\<forall>e \<in> set ms. matches_for_command_with_options sample_host (build b') e None resolving \<noteq> []) \<and>
    (\<forall>e \<in> set ns. \<forall>pre \<in> set (product_lists (map alternatives toks)). \<not> prefix pre e)"
    by (rule accepted_examples_hold [OF builder_ok_new run b']) (simp add: sample_call_def)
  then show ?thesis
    using b' by (auto simp: parser_defs)
qed

theorem prefix_rule_takes_effect_witness:
  "\<exists>b'. builtin_prefix_rule (\<lambda>_. None) new_builder [SStr ''rm''] (Some ''forbidden'') None None None None
      = Ok b' \<and>
     (\<forall>h heuristics opts ev. check_with_options h (build b') [''rm'', ''x''] heuristics opts = Some ev \<longrightarrow>
        Forbidden \<le> eval_decision ev)"
proof -
  obtain b' where b': "builtin_prefix_rule (\<lambda>_. None) new_builder [SStr ''rm''] (Some ''forbidden'')
      None None None None = Ok b'"
    by (simp add: parser_defs Let_def)
  have pat: "parse_pattern [SStr ''rm''] = Ok [Single ''rm'']"
    by (simp add: parser_defs)
  show ?thesis
    using b' prefix_rule_takes_effect [OF builder_ok_new pat b', of Forbidden "[''rm'', ''x'']"]
    by (simp add: parse_decision_def)
qed

end
