(* ===== verification/Amend.thy ===== *)
theory Amend
  imports Policy_Parser
begin

text \<open>
  Writing policy files: \<^verbatim>\<open>codex-rs/execpolicy/src/amend.rs\<close> and
  \<^verbatim>\<open>sandbox_migration.rs\<close>. The state is the contents of the policy file (\<open>None\<close>: no such
  file) and the presence of the migration marker. Every call of the operating system may fail:
  the outcome of each is a field of an environment record, and a failing write says how many
  bytes it wrote before. The serialiser and the parser of \<^verbatim>\<open>serde_json\<close> are the parameters
  \<open>to_json\<close> and \<open>from_json\<close>.
\<close>

section \<open>Amending a policy file\<close>

datatype amend_error =
    EmptyPrefix
  | InvalidNetworkRule string
  | MissingParent string
  | CreatePolicyDir io_error
  | SerializePrefix string
  | SerializeNetworkRule string
  | OpenPolicyFile io_error
  | WritePolicyFile io_error
  | LockPolicyFile io_error
  | SeekPolicyFile io_error
  | ReadPolicyFile io_error
  | PolicyMetadata io_error

record append_env =
  ae_create_dir :: outcome
  ae_open :: outcome
  ae_lock :: outcome
  ae_seek :: outcome
  ae_read :: outcome
  ae_write_newline :: "(io_error \<times> nat) option"
  ae_write_line :: "(io_error \<times> nat) option"

definition write_all ::
  "(io_error \<times> nat) option \<Rightarrow> string \<Rightarrow> string \<Rightarrow> string \<times> outcome" where
  "write_all fault contents bytes =
     (case fault of
        None \<Rightarrow> (contents @ bytes, Ok ())
      | Some (e, n) \<Rightarrow> (contents @ take n bytes, Err e))"

definition append_locked_line ::
  "append_env \<Rightarrow> string option \<Rightarrow> string \<Rightarrow> string option \<times> (amend_error, unit) result" where
  "append_locked_line env file line =
     (case ae_open env of
        Inl e \<Rightarrow> (file, Err (OpenPolicyFile e))
      | Inr _ \<Rightarrow>
     (let contents = (case file of None \<Rightarrow> [] | Some c \<Rightarrow> c)
      in case ae_lock env of
        Inl e \<Rightarrow> (Some contents, Err (LockPolicyFile e))
      | Inr _ \<Rightarrow>
     (case ae_seek env of
        Inl e \<Rightarrow> (Some contents, Err (SeekPolicyFile e))
      | Inr _ \<Rightarrow>
     (case ae_read env of
        Inl e \<Rightarrow> (Some contents, Err (ReadPolicyFile e))
      | Inr _ \<Rightarrow>
     (if line \<in> set (str_lines contents) then (Some contents, Ok ())
      else
        (case (if contents \<noteq> [] \<and> \<not> ends_with contents [NL]
               then write_all (ae_write_newline env) contents [NL]
               else (contents, Ok ())) of
           (c1, Inl e) \<Rightarrow> (Some c1, Err (WritePolicyFile e))
         | (c1, Inr _) \<Rightarrow>
             (case write_all (ae_write_line env) c1 (line @ [NL]) of
                (c2, Inl e) \<Rightarrow> (Some c2, Err (WritePolicyFile e))
              | (c2, Inr _) \<Rightarrow> (Some c2, Ok ()))))))))"

definition has_parent :: "string \<Rightarrow> bool" where
  "has_parent path = (components path \<noteq> [] \<and> last (components path) \<noteq> RootDir)"

definition append_rule_line ::
  "append_env \<Rightarrow> string \<Rightarrow> string option \<Rightarrow> string \<Rightarrow>
   string option \<times> (amend_error, unit) result" where
  "append_rule_line env policy_path file rule =
     (if \<not> has_parent policy_path then (file, Err (MissingParent policy_path))
      else (case ae_create_dir env of
              Inr _ \<Rightarrow> append_locked_line env file rule
            | Inl AlreadyExists \<Rightarrow> append_locked_line env file rule
            | Inl e \<Rightarrow> (file, Err (CreatePolicyDir e))))"

definition allow_prefix_rule_line :: "string list \<Rightarrow> string" where
  "allow_prefix_rule_line tokens =
     ''prefix_rule(pattern='' @ (''['' @ join '', '' tokens @ '']'') @ '', decision=\"allow\")''"

definition blocking_append_allow_prefix_rule ::
  "append_env \<Rightarrow> (string \<Rightarrow> (string, string) result) \<Rightarrow> string \<Rightarrow> string option \<Rightarrow> command \<Rightarrow>
   string option \<times> (amend_error, unit) result" where
  "blocking_append_allow_prefix_rule env to_json policy_path file pre =
     (if pre = [] then (file, Err EmptyPrefix)
      else (case map_res to_json pre of
              Inl e \<Rightarrow> (file, Err (SerializePrefix e))
            | Inr tokens \<Rightarrow>
                append_rule_line env policy_path file (allow_prefix_rule_line tokens)))"

fun network_decision_string :: "decision \<Rightarrow> string" where
  "network_decision_string Allow = ''allow''"
| "network_decision_string Prompt = ''prompt''"
| "network_decision_string Forbidden = ''deny''"

text \<open>
  The message of an error; the variants that print rules are rendered by \<^verbatim>\<open>Debug\<close>.
\<close>

fun exec_error_text :: "(exec_error \<Rightarrow> string) \<Rightarrow> exec_error \<Rightarrow> string" where
  "exec_error_text debug (InvalidDecision s) = ''invalid decision: '' @ s"
| "exec_error_text debug (InvalidPattern s) = ''invalid pattern element: '' @ s"
| "exec_error_text debug (InvalidExample s) = ''invalid example: '' @ s"
| "exec_error_text debug (InvalidRule s) = ''invalid rule: '' @ s"
| "exec_error_text debug e = debug e"

definition network_rule_line ::
  "(string \<Rightarrow> (string, string) result) \<Rightarrow> string \<Rightarrow> network_rule_protocol \<Rightarrow> decision \<Rightarrow>
   string option \<Rightarrow> (string, string) result" where
  "network_rule_line to_json host protocol d just =
     res_bind (to_json host) (\<lambda>host.
     res_bind (to_json (as_policy_string protocol)) (\<lambda>protocol.
     res_bind (to_json (network_decision_string d)) (\<lambda>decision.
     res_bind (case just of
                 None \<Rightarrow> Ok []
               | Some j \<Rightarrow> res_bind (to_json j) (\<lambda>j. Ok [''justification='' @ j])) (\<lambda>extra.
       Ok (''network_rule('' @
           join '', '' ([''host='' @ host, ''protocol='' @ protocol, ''decision='' @ decision] @ extra) @
           '')'')))))"

definition blocking_append_network_rule ::
  "append_env \<Rightarrow> (string \<Rightarrow> (string, string) result) \<Rightarrow> (exec_error \<Rightarrow> string) \<Rightarrow> string \<Rightarrow>
   string option \<Rightarrow> string \<Rightarrow> network_rule_protocol \<Rightarrow> decision \<Rightarrow> string option \<Rightarrow>
   string option \<times> (amend_error, unit) result" where
  "blocking_append_network_rule env to_json debug policy_path file host protocol d just =
     (case normalize_network_rule_host host of
        Inl e \<Rightarrow> (file, Err (InvalidNetworkRule (exec_error_text debug e)))
      | Inr host \<Rightarrow>
          (if (case just of Some raw \<Rightarrow> trim raw = [] | None \<Rightarrow> False)
           then (file, Err (InvalidNetworkRule ''justification cannot be empty''))
           else (case network_rule_line to_json host protocol d just of
                   Inl e \<Rightarrow> (file, Err (SerializeNetworkRule e))
                 | Inr rule \<Rightarrow> append_rule_line env policy_path file rule)))"

section \<open>The one-shot migration\<close>

definition should_remove_rule ::
  "(string \<Rightarrow> (string, string list) result) \<Rightarrow> command list \<Rightarrow> string \<Rightarrow> bool" where
  "should_remove_rule from_json banned line =
     (let line = (case strip_suffix [NL] line of Some l \<Rightarrow> l | None \<Rightarrow> line);
          line = (case strip_suffix [CR] line of Some l \<Rightarrow> l | None \<Rightarrow> line)
      in case Option.bind (strip_prefix ''prefix_rule(pattern='' line)
                (strip_suffix '', decision=\"allow\")'') of
           None \<Rightarrow> False
         | Some pattern \<Rightarrow>
             (case from_json pattern of
                Inl _ \<Rightarrow> False
              | Inr pre \<Rightarrow> map to_ascii_lowercase pre \<in> set banned))"

definition strip_banned_allow_rules ::
  "(string \<Rightarrow> (string, string list) result) \<Rightarrow> string \<Rightarrow> command list \<Rightarrow> string" where
  "strip_banned_allow_rules from_json contents banned_prefixes =
     (let banned = map (map to_ascii_lowercase) banned_prefixes
      in concat (filter (\<lambda>line. \<not> should_remove_rule from_json banned line)
           (split_inclusive NL contents)))"

record migration_env =
  me_try_exists :: outcome
  me_read :: outcome
  me_open :: outcome
  me_read_again :: outcome
  me_seek :: outcome
  me_write :: "(io_error \<times> nat) option"
  me_set_len :: outcome
  me_create_home :: outcome
  me_temp_file :: outcome
  me_temp_write :: outcome
  me_persist :: outcome
  me_join :: outcome

record migration_state =
  ms_marker :: bool
  ms_policy :: "string option"

definition not_found_is_ok :: "io_error \<Rightarrow> outcome" where
  "not_found_is_ok e = (if e = NotFound then Ok () else Err e)"

text \<open>Overwriting from the start of the file, then cutting it to the new length.\<close>

definition overwrite :: "migration_env \<Rightarrow> string \<Rightarrow> string \<Rightarrow> string \<times> outcome" where
  "overwrite env contents retained =
     (case me_seek env of
        Inl e \<Rightarrow> (contents, Err e)
      | Inr _ \<Rightarrow>
          (case me_write env of
             Some (e, n) \<Rightarrow> (take n retained @ drop (length (take n retained)) contents, Err e)
           | None \<Rightarrow>
               (let written = retained @ drop (length retained) contents
                in case me_set_len env of
                     Inl e \<Rightarrow> (written, Err e)
                   | Inr _ \<Rightarrow> (take (length retained) written, Ok ()))))"

definition clean_rules_file ::
  "migration_env \<Rightarrow> (string \<Rightarrow> (string, string list) result) \<Rightarrow> string option \<Rightarrow> command list \<Rightarrow>
   string option \<times> outcome" where
  "clean_rules_file env from_json file banned_prefixes =
     (case file of
        None \<Rightarrow> (file, Ok ())
      | Some contents \<Rightarrow>
          (case me_read env of
             Inl e \<Rightarrow> (file, not_found_is_ok e)
           | Inr _ \<Rightarrow>
               (let retained = strip_banned_allow_rules from_json contents banned_prefixes
                in if retained = contents then (file, Ok ())
                   else (case me_open env of
                           Inl e \<Rightarrow> (file, not_found_is_ok e)
                         | Inr _ \<Rightarrow>
                             (case me_read_again env of
                                Inl e \<Rightarrow> (file, Err e)
                              | Inr _ \<Rightarrow>
                                  (let (c, r) = overwrite env contents retained in (Some c, r)))))))"

definition write_migration_marker :: "migration_env \<Rightarrow> bool \<Rightarrow> bool \<times> outcome" where
  "write_migration_marker env marker =
     (case me_create_home env of
        Inl e \<Rightarrow> (marker, Err e)
      | Inr _ \<Rightarrow>
     (case me_join env of
        Inl e \<Rightarrow> (marker, Err e)
      | Inr _ \<Rightarrow>
     (case me_temp_file env of
        Inl e \<Rightarrow> (marker, Err e)
      | Inr _ \<Rightarrow>
     (case me_temp_write env of
        Inl e \<Rightarrow> (marker, Err e)
      | Inr _ \<Rightarrow>
     (case me_persist env of
        Inr _ \<Rightarrow> (True, Ok ())
      | Inl AlreadyExists \<Rightarrow> (True, Ok ())
      | Inl e \<Rightarrow> (marker, Err e))))))"

definition prefix_rule_migration ::
  "migration_env \<Rightarrow> (string \<Rightarrow> (string, string list) result) \<Rightarrow> migration_state \<Rightarrow> command list \<Rightarrow>
   migration_state \<times> outcome" where
  "prefix_rule_migration env from_json st banned_prefixes =
     (case me_try_exists env of
        Inl e \<Rightarrow> (st, Err e)
      | Inr _ \<Rightarrow>
          (if ms_marker st then (st, Ok ())
           else (case clean_rules_file env from_json (ms_policy st) banned_prefixes of
                   (file, Inl e) \<Rightarrow> (st\<lparr>ms_policy := file\<rparr>, Err e)
                 | (file, Inr _) \<Rightarrow>
                     (let (marker, r) = write_migration_marker env (ms_marker st)
                      in (st\<lparr>ms_policy := file, ms_marker := marker\<rparr>, r)))))"

lemmas amend_defs =
  write_all_def append_locked_line_def has_parent_def append_rule_line_def
  allow_prefix_rule_line_def blocking_append_allow_prefix_rule_def network_rule_line_def
  blocking_append_network_rule_def should_remove_rule_def strip_banned_allow_rules_def
  not_found_is_ok_def overwrite_def clean_rules_file_def write_migration_marker_def
  prefix_rule_migration_def

section \<open>Lines of a file\<close>

lemma split_inclusive_terminated:
  assumes "c = [] \<or> suffix [d] c"
  shows "split_inclusive d (c @ t) = split_inclusive d c @ split_inclusive d t"
  using assms split_inclusive_append_sep [of d _ t] by (auto simp: suffix_def)

lemma line_of_no_newline: "\<not> suffix [NL] l \<Longrightarrow> line_of l = l"
  by (simp add: line_of_def strip_suffix_None_iff [THEN iffD2])

lemma line_of_newline: "\<not> suffix [CR] l \<Longrightarrow> line_of (l @ [NL]) = l"
  by (simp add: line_of_def strip_suffix_None_iff [THEN iffD2]
      strip_suffix_Some_iff [THEN iffD2, OF refl])

lemma str_lines_terminated:
  "c = [] \<or> suffix [NL] c \<Longrightarrow> NL \<notin> set l \<Longrightarrow> \<not> suffix [CR] l \<Longrightarrow>
   str_lines (c @ l @ [NL]) = str_lines c @ [l]"
  by (simp add: str_lines_def split_inclusive_terminated split_inclusive_line line_of_newline)

lemma str_lines_add_newline:
  assumes "c \<noteq> []" and "\<not> suffix [NL] c" and "\<not> suffix [CR] c"
  shows "str_lines (c @ [NL]) = str_lines c"
proof (cases "NL \<in> set c")
  case True
  then obtain a b where c: "c = a @ NL # b" and b: "NL \<notin> set b"
    by (meson split_list_last)
  then have "b \<noteq> []" using assms(2) by (auto simp: suffix_def)
  have "\<not> suffix [CR] b" using assms(3) c by (auto simp: suffix_def)
  have "\<not> suffix [NL] b" using b by (auto simp: suffix_def)
  have "split_inclusive NL c = split_inclusive NL (a @ [NL]) @ [b]"
    using split_inclusive_append_sep [of NL a b] b \<open>b \<noteq> []\<close> by (simp add: c split_inclusive_no_sep)
  moreover have "split_inclusive NL (c @ [NL]) = split_inclusive NL (a @ [NL]) @ [b @ [NL]]"
    using split_inclusive_append_sep [of NL a "b @ [NL]"] split_inclusive_line [OF b, of "[]"]
    by (simp add: c)
  ultimately show ?thesis
    using \<open>\<not> suffix [CR] b\<close> \<open>\<not> suffix [NL] b\<close>
    by (simp add: str_lines_def line_of_newline line_of_no_newline)
next
  case False
  then show ?thesis
    using assms split_inclusive_line [OF False, of "[]"]
    by (simp add: str_lines_def split_inclusive_no_sep line_of_newline line_of_no_newline)
qed

section \<open>Appending a rule\<close>

lemma append_locked_line_prefix:
  "append_locked_line env file line = (file', r) \<Longrightarrow>
   (file = None \<or> (\<exists>c d. file = Some c \<and> file' = Some (c @ d)))"
  by (auto simp: append_locked_line_def write_all_def Let_def
      split: sum.splits option.splits if_splits prod.splits)

lemma append_rule_line_prefix:
  "append_rule_line env path file line = (file', r) \<Longrightarrow>
   (file = None \<or> (\<exists>c d. file = Some c \<and> file' = Some (c @ d)))"
  by (cases "file") (auto simp: append_rule_line_def
      split: sum.splits io_error.splits if_splits dest: append_locked_line_prefix)

text \<open>
  Whatever call of the operating system fails, amending a policy file is append-only: the
  old contents are a prefix of the new ones.
\<close>

theorem amendments_are_append_only:
  "prefix c (the (fst (blocking_append_allow_prefix_rule env to_json path (Some c) pre))) \<and>
   prefix c (the (fst (blocking_append_network_rule env to_json debug path (Some c) host protocol d just)))"
proof
  have line: "prefix c (the (fst (append_rule_line env path (Some c) line)))" for line
    using append_rule_line_prefix [of env path "Some c" line]
    by (cases "append_rule_line env path (Some c) line") auto
  show "prefix c (the (fst (blocking_append_allow_prefix_rule env to_json path (Some c) pre)))"
    by (simp add: blocking_append_allow_prefix_rule_def line split: sum.split)
  show "prefix c (the (fst (blocking_append_network_rule env to_json debug path (Some c) host
      protocol d just)))"
    by (simp add: blocking_append_network_rule_def line split: sum.split)
qed

lemma append_locked_line_lines:
  assumes "append_locked_line env (Some c) line = (file', Ok ())"
    and "NL \<notin> set line" and "\<not> suffix [CR] line" and "\<not> suffix [CR] c"
  shows "\<exists>c'. file' = Some c' \<and>
    str_lines c' = (if line \<in> set (str_lines c) then str_lines c else str_lines c @ [line])"
proof (cases "line \<in> set (str_lines c)")
  case True
  then show ?thesis
    using assms(1) by (auto simp: append_locked_line_def split: sum.splits)
next
  case False
  define c1 where "c1 = (if c \<noteq> [] \<and> \<not> suffix [NL] c then c @ [NL] else c)"
  have "file' = Some (c1 @ line @ [NL])"
    using assms(1) False
    by (auto simp: append_locked_line_def c1_def write_all_def ends_with_iff
        split: sum.splits option.splits if_splits)
  moreover have "c1 = [] \<or> suffix [NL] c1" and "str_lines c1 = str_lines c"
    using assms(4) str_lines_add_newline [of c] by (auto simp: c1_def suffix_def)
  ultimately show ?thesis
    using False assms(2,3) by (simp add: str_lines_terminated)
qed

text \<open>What a rule line is: one line that ends with a parenthesis.\<close>

lemma NL_join: "NL \<in> set (join sep xs) \<Longrightarrow> NL \<in> set sep \<or> (\<exists>x \<in> set xs. NL \<in> set x)"
  by (induction sep xs rule: join.induct) auto

lemma allow_prefix_rule_line_ok:
  assumes "\<forall>t \<in> set tokens. NL \<notin> set t"
  shows "NL \<notin> set (allow_prefix_rule_line tokens)"
    and "\<not> suffix [CR] (allow_prefix_rule_line tokens)"
proof -
  show "NL \<notin> set (allow_prefix_rule_line tokens)"
    using assms NL_join [of "'', ''" tokens] by (auto simp: allow_prefix_rule_line_def)
  show "\<not> suffix [CR] (allow_prefix_rule_line tokens)"
    by (simp add: allow_prefix_rule_line_def suffix_to_prefix)
qed

text \<open>
  A successful amendment adds exactly the line of the allow rule, after the lines that were
  there and only when it is not among them, and amending again with the same prefix changes
  nothing. The tokens are serialised without line breaks, as JSON strings are.
\<close>

theorem append_allow_prefix_rule_lines:
  assumes "map_res to_json pre = Ok tokens" and "\<forall>t \<in> set tokens. NL \<notin> set t"
    and "\<not> suffix [CR] c"
    and "blocking_append_allow_prefix_rule env to_json path (Some c) pre = (file', Ok ())"
  shows "\<exists>c'. file' = Some c' \<and>
    str_lines c' = (if allow_prefix_rule_line tokens \<in> set (str_lines c) then str_lines c
                    else str_lines c @ [allow_prefix_rule_line tokens]) \<and>
    blocking_append_allow_prefix_rule env to_json path (Some c') pre = (Some c', Ok ())"
proof -
  have "append_locked_line env (Some c) (allow_prefix_rule_line tokens) = (file', Ok ())"
    using assms(1,4) by (auto simp: blocking_append_allow_prefix_rule_def append_rule_line_def
        split: if_splits sum.splits io_error.splits)
  then obtain c' where c': "file' = Some c'" "str_lines c' =
      (if allow_prefix_rule_line tokens \<in> set (str_lines c) then str_lines c
       else str_lines c @ [allow_prefix_rule_line tokens])"
    using append_locked_line_lines allow_prefix_rule_line_ok [OF assms(2)] assms(3) by blast
  then have "allow_prefix_rule_line tokens \<in> set (str_lines c')" by auto
  then have "blocking_append_allow_prefix_rule env to_json path (Some c') pre = (Some c', Ok ())"
    using assms(1,4)
    by (auto simp: blocking_append_allow_prefix_rule_def append_rule_line_def
        append_locked_line_def Let_def split: if_splits sum.splits io_error.splits)
  then show ?thesis using c' by blast
qed

section \<open>Removing banned rules\<close>

lemma split_inclusive_cases:
  obtains "s = []" | "s \<noteq> []" "d \<notin> set s" | l t where "s = l @ d # t" "d \<notin> set l"
  using split_list_first [of d s] by blast

lemma split_inclusive_filter:
  "split_inclusive d (concat (filter P (split_inclusive d s))) = filter P (split_inclusive d s)"
proof (induction "length s" arbitrary: s rule: less_induct)
  case less
  show ?case
  proof (cases rule: split_inclusive_cases [where s = s and d = d])
    case 2
    then show ?thesis by (simp add: split_inclusive_no_sep)
  next
    case (3 l t)
    then have s: "split_inclusive d s = (l @ [d]) # split_inclusive d t"
      by (simp add: split_inclusive_line)
    have "split_inclusive d (concat (filter P (split_inclusive d t))) = filter P (split_inclusive d t)"
      using 3 by (intro less) simp
    then show ?thesis
      using split_inclusive_line [OF 3(2)] by (simp add: s)
  qed simp
qed

lemma strip_banned_idem:
  "strip_banned_allow_rules from_json (strip_banned_allow_rules from_json c banned) banned =
     strip_banned_allow_rules from_json c banned"
  by (simp add: strip_banned_allow_rules_def Let_def split_inclusive_filter)

lemma should_remove_allow_line:
  assumes "from_json (''['' @ join '', '' tokens @ '']'') = Ok pre"
  shows "should_remove_rule from_json banned (allow_prefix_rule_line tokens @ [NL]) \<longleftrightarrow>
    map to_ascii_lowercase pre \<in> set banned"
proof -
  have nl: "strip_suffix [NL] (allow_prefix_rule_line tokens @ [NL]) = Some (allow_prefix_rule_line tokens)"
    by (simp add: strip_suffix_Some_iff)
  have cr: "strip_suffix [CR] (allow_prefix_rule_line tokens) = None"
    by (simp add: strip_suffix_None_iff allow_prefix_rule_line_def suffix_to_prefix)
  have pre: "strip_prefix ''prefix_rule(pattern='' (allow_prefix_rule_line tokens) =
      Some ((''['' @ join '', '' tokens @ '']'') @ '', decision=\"allow\")'')"
    unfolding strip_prefix_Some_iff by (simp add: allow_prefix_rule_line_def)
  have suf: "strip_suffix '', decision=\"allow\")'' ((''['' @ join '', '' tokens @ '']'') @
      '', decision=\"allow\")'') = Some (''['' @ join '', '' tokens @ '']'')"
    unfolding strip_suffix_Some_iff ..
  show ?thesis
    unfolding should_remove_rule_def nl option.case Let_def cr pre Option.bind.simps suf assms sum.case ..
qed

text \<open>
  The migration removes from a policy file exactly the allow rules whose prefix is banned up
  to the case of ASCII letters: a rule line that an amendment wrote is dropped if its prefix is
  banned and kept byte for byte otherwise, the lines before it are treated on their own, and a
  second pass finds nothing to remove. The JSON list of an amendment is read back as the prefix it was written for.
\<close>

theorem migration_removes_exactly_banned:
  assumes "c = [] \<or> suffix [NL] c"
    and "map_res to_json pre = Ok tokens" and "\<forall>t \<in> set tokens. NL \<notin> set t"
    and "from_json (''['' @ join '', '' tokens @ '']'') = Ok pre"
  shows "strip_banned_allow_rules from_json (c @ allow_prefix_rule_line tokens @ [NL]) banned =
    strip_banned_allow_rules from_json c banned @
      (if map to_ascii_lowercase pre \<in> map to_ascii_lowercase ` set banned then []
       else allow_prefix_rule_line tokens @ [NL]) \<and>
    strip_banned_allow_rules from_json (strip_banned_allow_rules from_json c banned) banned =
      strip_banned_allow_rules from_json c banned"
  using strip_banned_idem allow_prefix_rule_line_ok(1) [OF assms(3)] should_remove_allow_line [of from_json tokens pre, OF assms(4)]
  by (simp add: strip_banned_allow_rules_def Let_def split_inclusive_terminated [OF assms(1)]
      split_inclusive_line)

lemma overwrite_Ok: "overwrite env c retained = (c', Ok ()) \<Longrightarrow> c' = retained"
  by (auto simp: overwrite_def Let_def split: sum.splits option.splits)

lemma clean_rules_file_Ok:
  assumes "clean_rules_file env from_json file banned = (file', Ok ())"
    and "me_read env = Ok ()" and "me_open env = Ok ()"
  shows "file' = map_option (\<lambda>c. strip_banned_allow_rules from_json c banned) file"
  using assms
  by (cases "file") (auto simp: clean_rules_file_def Let_def dest: overwrite_Ok
      split: sum.splits if_splits prod.splits)

text \<open>
  The migration is one-shot. Once it succeeds the marker is there and, unless it was there
  before, the policy file is the stripped one; from then on the migration changes nothing,
  whatever is in the file. A run that fails sets no marker, so it is repeated.
\<close>

theorem migration_one_shot:
  assumes "prefix_rule_migration env from_json st banned = (st', r)"
    and "me_read env = Ok ()" and "me_open env = Ok ()"
  shows "(case r of
      Inl _ \<Rightarrow> ms_marker st' = ms_marker st
    | Inr _ \<Rightarrow> ms_marker st' \<and>
        ms_policy st' = (if ms_marker st then ms_policy st
          else map_option (\<lambda>c. strip_banned_allow_rules from_json c banned) (ms_policy st)) \<and>
        (\<forall>env' file. fst (prefix_rule_migration env' from_json (st'\<lparr>ms_policy := file\<rparr>) banned) =
           st'\<lparr>ms_policy := file\<rparr>))"
proof -
  have marker: "write_migration_marker env False = (m, w) \<Longrightarrow>
      (case w of Inl _ \<Rightarrow> \<not> m | Inr _ \<Rightarrow> m)" for m w
    by (auto simp: write_migration_marker_def split: sum.splits io_error.splits)
  have again: "fst (prefix_rule_migration env' from_json s banned) = s" if "ms_marker s" for env' s
    using that by (auto simp: prefix_rule_migration_def split: sum.split)
  show ?thesis
    using assms marker clean_rules_file_Ok [OF _ assms(2,3)]
    by (cases "ms_marker st")
      (auto simp: prefix_rule_migration_def again Let_def split: sum.splits prod.splits)
qed

section \<open>Network rules, written and read back\<close>

lemma protocol_roundtrip: "parse_protocol (as_policy_string protocol) = Ok protocol"
  by (cases protocol) (simp_all add: parse_protocol_def)

lemma network_decision_roundtrip: "parse_network_rule_decision (network_decision_string d) = Ok d"
  by (cases d) (simp_all add: parse_network_rule_decision_def parse_decision_def)


definition fault_free :: append_env where
  "fault_free =
     \<lparr>ae_create_dir = Ok (), ae_open = Ok (), ae_lock = Ok (), ae_seek = Ok (), ae_read = Ok (),
      ae_write_newline = None, ae_write_line = None\<rparr>"

definition quote :: "string \<Rightarrow> (string, string) result" where
  "quote s = Ok (''\"'' @ s @ ''\"'')"

lemma bracket_host: "normalize_network_rule_host ''[[a]'' = Ok ''[a''"
  by (simp add: host_defs str_simps)

lemma bracket_host_rejected:
  "normalize_network_rule_host ''[a'' =
     Err (InvalidRule ''network_rule host has an invalid bracketed IPv6 literal'')"
  by (simp add: host_defs str_simps)


section \<open>Witnesses\<close>

theorem append_allow_prefix_rule_lines_witness:
  "\<exists>c'. fst (blocking_append_allow_prefix_rule fault_free quote ''rules/default.rules'' (Some []) [''ls'']) =
     Some c' \<and> str_lines c' = [''prefix_rule(pattern=[\"ls\"], decision=\"allow\")'']"
proof -
  have tokens: "map_res quote [''ls''] = Ok [''\"ls\"'']"
    by (simp add: quote_def)
  obtain file' where run: "blocking_append_allow_prefix_rule fault_free quote ''rules/default.rules''
      (Some []) [''ls''] = (file', Ok ())"
    by (simp add: blocking_append_allow_prefix_rule_def tokens append_rule_line_def has_parent_def
        append_locked_line_def fault_free_def write_all_def str_lines_def components_def
        is_absolute_def seg_components_def del: map_res.simps)
  show ?thesis
    using append_allow_prefix_rule_lines [OF tokens _ _ run] run
    by (auto simp: str_lines_def allow_prefix_rule_line_def)
qed

theorem migration_removes_exactly_banned_witness:
  "strip_banned_allow_rules (\<lambda>_. Ok [''PYTHON'']) (allow_prefix_rule_line [''\"PYTHON\"''] @ [NL])
     [[''python'']] = []"
proof -
  have lower: "map to_ascii_lowercase [''PYTHON''] = [''python'']"
    "map to_ascii_lowercase [''python''] = [''python'']"
    by (simp_all add: to_ascii_lowercase_def ascii_lower_def)
  have nil: "strip_banned_allow_rules (\<lambda>_. Ok [''PYTHON'']) [] [[''python'']] = []"
    by (simp add: strip_banned_allow_rules_def)
  have "strip_banned_allow_rules (\<lambda>_. Ok [''PYTHON'']) ([] @ allow_prefix_rule_line [''\"PYTHON\"''] @ [NL])
      [[''python'']] =
    strip_banned_allow_rules (\<lambda>_. Ok [''PYTHON'']) [] [[''python'']] @
      (if map to_ascii_lowercase [''PYTHON''] \<in> map to_ascii_lowercase ` set [[''python'']] then []
       else allow_prefix_rule_line [''\"PYTHON\"''] @ [NL])"
    using migration_removes_exactly_banned [of "[]" quote "[''PYTHON'']" "[''\"PYTHON\"'']"
        "\<lambda>_. Ok [''PYTHON'']" "[[''python'']]"]
    by (simp add: quote_def)
  then show ?thesis
    using lower nil by simp
qed

definition fault_free_migration :: migration_env where
  "fault_free_migration =
     \<lparr>me_try_exists = Ok (), me_read = Ok (), me_open = Ok (), me_read_again = Ok (), me_seek = Ok (),
      me_write = None, me_set_len = Ok (), me_create_home = Ok (), me_temp_file = Ok (),
      me_temp_write = Ok (), me_persist = Ok (), me_join = Ok ()\<rparr>"

theorem migration_one_shot_witness:
  "ms_marker (fst (prefix_rule_migration fault_free_migration (\<lambda>_. Ok []) \<lparr>ms_marker = False, ms_policy = None\<rparr> []))"
proof -
  obtain st' where run: "prefix_rule_migration fault_free_migration (\<lambda>_. Ok [])
      \<lparr>ms_marker = False, ms_policy = None\<rparr> [] = (st', Ok ())"
    by (simp add: prefix_rule_migration_def fault_free_migration_def clean_rules_file_def
        write_migration_marker_def)
  show ?thesis
    using migration_one_shot [OF run] run by (simp add: fault_free_migration_def)
qed


end
