(* ===== verification/Bash_Tree.thy ===== *)
theory Bash_Tree
  imports Unix_Path "HOL-Library.Multiset"
begin

text \<open>
  Reading shell scripts: \<^verbatim>\<open>codex-rs/shell-command/src/bash.rs\<close> and the detection of the
  shell in \<^verbatim>\<open>shell_detect.rs\<close>. The tree-sitter grammar is a parameter: a function from a
  script to its syntax tree, whose nodes have a kind, a flag that tells named nodes from
  punctuation, the byte range of the script they cover and their children. The loops over an
  explicit stack of nodes are recursive functions on that stack.
\<close>

section \<open>Syntax trees\<close>

datatype node =
  Node (nd_kind: string) (nd_named: bool) (nd_start: nat) (nd_end: nat) (nd_children: "node list")

record syntax_tree =
  root_node :: node
  has_error :: bool

type_synonym shell_parser = "string \<Rightarrow> syntax_tree option"

definition named_children :: "node \<Rightarrow> node list" where
  "named_children n = filter nd_named (nd_children n)"

definition named_child0 :: "node \<Rightarrow> node option" where
  "named_child0 n = (case named_children n of [] \<Rightarrow> None | c # _ \<Rightarrow> Some c)"

text \<open>
  \<^verbatim>\<open>utf8_text\<close>: the bytes of the script a node covers; nodes lie on character boundaries.
\<close>

definition node_text :: "string \<Rightarrow> node \<Rightarrow> string option" where
  "node_text src n =
     (if nd_start n \<le> nd_end n \<and> nd_end n \<le> length src
      then Some (take (nd_end n - nd_start n) (drop (nd_start n) src)) else None)"

lemma size_named_children: "c \<in> set (named_children n) \<Longrightarrow> size c < size n"
  by (cases n) (auto simp: named_children_def less_Suc_eq_le dest: size_list_estimation' [where f = size, OF _ order_refl])

definition stack_size :: "node list \<Rightarrow> nat" where
  "stack_size st = sum_list (map (\<lambda>n. Suc (size n)) st)"

lemma stack_size_simps [simp]:
  "stack_size [] = 0"
  "stack_size (n # st) = Suc (size n + stack_size st)"
  "stack_size (st @ st') = stack_size st + stack_size st'"
  "stack_size (rev st) = stack_size st"
  by (simp_all add: stack_size_def rev_map [symmetric])

lemma stack_size_children: "stack_size (nd_children n) \<le> size n"
proof (cases n)
  case (Node k nm a b cs)
  have "stack_size cs \<le> size_list size cs"
    by (induction cs) auto
  then show ?thesis using Node by simp
qed

lemma stack_size_named: "stack_size (named_children n) \<le> size n"
proof -
  have "stack_size (filter P cs) \<le> stack_size cs" for P cs
    by (induction cs) auto
  then show ?thesis
    using stack_size_children [of n] le_trans unfolding named_children_def by blast
qed

section \<open>Words\<close>

definition parse_double_quoted_string :: "string \<Rightarrow> node \<Rightarrow> string option" where
  "parse_double_quoted_string src n =
     (if nd_kind n \<noteq> ''string'' then None
      else if list_ex (\<lambda>p. nd_kind p \<noteq> ''string_content'') (named_children n) then None
      else Option.bind (node_text src n) (\<lambda>raw.
             Option.bind (strip_prefix [CHR 0x22] raw) (strip_suffix [CHR 0x22])))"

definition parse_raw_string :: "string \<Rightarrow> node \<Rightarrow> string option" where
  "parse_raw_string src n =
     (if nd_kind n \<noteq> ''raw_string'' then None
      else Option.bind (node_text src n) (\<lambda>raw.
             Option.bind (strip_prefix [CHR 0x27] raw) (strip_suffix [CHR 0x27])))"

definition is_literal_word_or_number :: "node \<Rightarrow> bool" where
  "is_literal_word_or_number n =
     (nd_kind n \<in> {''word'', ''number''} \<and> named_children n = [])"

definition parse_concatenation_part :: "string \<Rightarrow> node \<Rightarrow> string option" where
  "parse_concatenation_part src part =
     (if nd_kind part \<in> {''word'', ''number''} then node_text src part
      else if nd_kind part = ''string'' then parse_double_quoted_string src part
      else if nd_kind part = ''raw_string'' then parse_raw_string src part
      else None)"

definition nonempty :: "string \<Rightarrow> string option" where
  "nonempty s = (if s = [] then None else Some s)"

definition parse_plain_word :: "string \<Rightarrow> node \<Rightarrow> string option" where
  "parse_plain_word src child =
     (if nd_kind child = ''command_name'' then
        Option.bind (named_child0 child) (\<lambda>word_node.
          if nd_kind word_node \<noteq> ''word'' then None else node_text src word_node)
      else if nd_kind child \<in> {''word'', ''number''} then node_text src child
      else if nd_kind child = ''string'' then parse_double_quoted_string src child
      else if nd_kind child = ''raw_string'' then parse_raw_string src child
      else if nd_kind child = ''concatenation'' then
        Option.bind (those (map (parse_concatenation_part src) (named_children child)))
          (\<lambda>parts. nonempty (concat parts))
      else None)"

definition parse_plain_command_from_node :: "string \<Rightarrow> node \<Rightarrow> string list option" where
  "parse_plain_command_from_node src cmd =
     (if nd_kind cmd \<noteq> ''command'' then None
      else those (map (parse_plain_word src) (named_children cmd)))"

function (sequential) parse_literal_shell_word :: "string \<Rightarrow> node \<Rightarrow> string option" where
  "parse_literal_shell_word src n =
     (if is_literal_word_or_number n then node_text src n
      else if nd_kind n = ''string'' then parse_double_quoted_string src n
      else if nd_kind n = ''raw_string'' then parse_raw_string src n
      else if nd_kind n = ''concatenation'' then
        Option.bind (those (map (parse_literal_shell_word src) (named_children n)))
          (\<lambda>parts. nonempty (concat parts))
      else None)"
  by pat_completeness auto
termination
  by (relation "measure (\<lambda>(src, n). size n)") (auto simp: size_named_children)

declare parse_literal_shell_word.simps [simp del]

fun literal_words :: "string \<Rightarrow> bool \<Rightarrow> string list \<Rightarrow> node list \<Rightarrow> string list option" where
  "literal_words src found words [] = (if found then Some words else None)"
| "literal_words src found words (child # children) =
     (if nd_kind child = ''command_name'' then
        (case Option.bind (named_child0 child) (parse_literal_shell_word src) of
           None \<Rightarrow> None
         | Some command_name \<Rightarrow> literal_words src True (words @ [command_name]) children)
      else (case (if found then parse_literal_shell_word src child else None) of
              Some word \<Rightarrow> literal_words src found (words @ [word]) children
            | None \<Rightarrow> literal_words src found words children))"

definition parse_literal_command_from_node :: "string \<Rightarrow> node \<Rightarrow> string list option" where
  "parse_literal_command_from_node src cmd =
     (if nd_kind cmd \<noteq> ''command'' then None
      else literal_words src False [] (named_children cmd))"

definition is_allowed_heredoc_attachment_kind :: "string \<Rightarrow> bool" where
  "is_allowed_heredoc_attachment_kind kind =
     (kind \<in> {''heredoc_body'', ''simple_heredoc_body'', ''heredoc_redirect'',
              ''herestring_redirect'', ''redirected_statement''})"

fun heredoc_words :: "string \<Rightarrow> node list \<Rightarrow> string list option" where
  "heredoc_words src [] = Some []"
| "heredoc_words src (child # children) =
     (if nd_kind child = ''command_name'' then
        Option.bind (named_child0 child) (\<lambda>word_node.
          if nd_kind word_node \<notin> {''word'', ''number''} \<or> \<not> is_literal_word_or_number word_node
          then None
          else Option.bind (node_text src word_node) (\<lambda>w.
                 map_option (Cons w) (heredoc_words src children)))
      else if nd_kind child \<in> {''word'', ''number''} then
        (if \<not> is_literal_word_or_number child then None
         else Option.bind (node_text src child) (\<lambda>w.
                map_option (Cons w) (heredoc_words src children)))
      else if nd_kind child = ''comment'' \<or> is_allowed_heredoc_attachment_kind (nd_kind child)
      then heredoc_words src children
      else None)"

definition parse_heredoc_command_words :: "string \<Rightarrow> node \<Rightarrow> string list option" where
  "parse_heredoc_command_words src cmd =
     (if nd_kind cmd \<noteq> ''command'' then None
      else (case heredoc_words src (named_children cmd) of
              None \<Rightarrow> None
            | Some words \<Rightarrow> if words = [] then None else Some words))"

section \<open>Walking a tree\<close>

definition allowed_kinds :: "string list" where
  "allowed_kinds =
     [''program'', ''list'', ''pipeline'', ''command'', ''command_name'', ''word'', ''string'',
      ''string_content'', ''raw_string'', ''number'', ''concatenation'']"

definition allowed_punct_tokens :: "string list" where
  "allowed_punct_tokens = [''&&'', ''||'', '';'', ''|'', [CHR 0x22], [CHR 0x27]]"

definition node_allowed :: "node \<Rightarrow> bool" where
  "node_allowed n =
     (if nd_named n then nd_kind n \<in> set allowed_kinds
      else if list_ex (\<lambda>c. c \<in> set ''&;|'') (nd_kind n) \<and> nd_kind n \<notin> set allowed_punct_tokens
      then False
      else nd_kind n \<in> set allowed_punct_tokens \<or> trim (nd_kind n) = [])"

function collect_command_nodes :: "node list \<Rightarrow> node list \<Rightarrow> node list option" where
  "collect_command_nodes [] acc = Some acc"
| "collect_command_nodes (n # stack) acc =
     (if \<not> node_allowed n then None
      else collect_command_nodes (rev (nd_children n) @ stack)
             (if nd_named n \<and> nd_kind n = ''command'' then acc @ [n] else acc))"
  by pat_completeness auto
termination
  using stack_size_children by (relation "measure (\<lambda>(st, acc). stack_size st)") (auto simp: less_Suc_eq_le)

definition try_parse_word_only_commands_sequence :: "syntax_tree \<Rightarrow> string \<Rightarrow> string list list option" where
  "try_parse_word_only_commands_sequence tree src =
     (if has_error tree then None
      else Option.bind (collect_command_nodes [root_node tree] []) (\<lambda>command_nodes.
             those (map (parse_plain_command_from_node src) (sort_key nd_start command_nodes))))"

definition parse_shell_script_into_commands :: "shell_parser \<Rightarrow> string \<Rightarrow> string list list option" where
  "parse_shell_script_into_commands parser script =
     Option.bind (parser script) (\<lambda>tree. try_parse_word_only_commands_sequence tree script)"

function literal_commands :: "string \<Rightarrow> node list \<Rightarrow> string list list \<Rightarrow> string list list" where
  "literal_commands src [] commands = commands"
| "literal_commands src (n # stack) commands =
     literal_commands src (rev (named_children n) @ stack)
       (case (if nd_kind n = ''command'' then parse_literal_command_from_node src n else None) of
          Some command \<Rightarrow> commands @ [command]
        | None \<Rightarrow> commands)"
  by pat_completeness auto
termination
  using stack_size_named by (relation "measure (\<lambda>(src, st, cs). stack_size st)") (auto simp: less_Suc_eq_le)

function find_single_command :: "node list \<Rightarrow> node option \<Rightarrow> node option" where
  "find_single_command [] single_command = single_command"
| "find_single_command (n # stack) single_command =
     (if nd_kind n = ''command'' then
        (if single_command \<noteq> None then None
         else find_single_command (rev (named_children n) @ stack) (Some n))
      else find_single_command (rev (named_children n) @ stack) single_command)"
  by pat_completeness auto
termination
  using stack_size_named by (relation "measure (\<lambda>(st, s). stack_size st)") (auto simp: less_Suc_eq_le)

definition find_single_command_node :: "node \<Rightarrow> node option" where
  "find_single_command_node root = find_single_command [root] None"

function has_named_kind :: "string \<Rightarrow> node list \<Rightarrow> bool" where
  "has_named_kind kind [] = False"
| "has_named_kind kind (n # stack) =
     (if nd_kind n = kind then True else has_named_kind kind (rev (named_children n) @ stack))"
  by pat_completeness auto
termination
  using stack_size_named by (relation "measure (\<lambda>(k, st). stack_size st)") (auto simp: less_Suc_eq_le)

definition has_named_descendant_kind :: "node \<Rightarrow> string \<Rightarrow> bool" where
  "has_named_descendant_kind n kind = has_named_kind kind [n]"

section \<open>Shell invocations\<close>

datatype shell_type = Zsh | Bash | PowerShell | Sh | Cmd

fun shell_name :: "shell_type \<Rightarrow> string" where
  "shell_name Zsh = ''zsh''"
| "shell_name Bash = ''bash''"
| "shell_name PowerShell = ''powershell''"
| "shell_name Sh = ''sh''"
| "shell_name Cmd = ''cmd''"

function detect_shell_type :: "string \<Rightarrow> shell_type option" where
  "detect_shell_type p =
     (if p = ''zsh'' then Some Zsh
      else if p = ''sh'' then Some Sh
      else if p = ''cmd'' then Some Cmd
      else if p = ''bash'' then Some Bash
      else if p = ''pwsh'' then Some PowerShell
      else if p = ''powershell'' then Some PowerShell
      else (case file_stem (components p) of
              None \<Rightarrow> None
            | Some name \<Rightarrow>
                (if components name \<noteq> components p then detect_shell_type name else None)))"
  by pat_completeness auto
termination
  by (relation "measure length") (auto intro: file_stem_shorter)

declare detect_shell_type.simps [simp del]

definition extract_bash_command :: "string list \<Rightarrow> (string \<times> string) option" where
  "extract_bash_command command =
     (case command of
        [shell, flag, script] \<Rightarrow>
          (if flag \<notin> {''-lc'', ''-c''} \<or> detect_shell_type shell \<notin> {Some Zsh, Some Bash, Some Sh}
           then None else Some (shell, script))
      | _ \<Rightarrow> None)"

definition parse_shell_lc_plain_commands :: "shell_parser \<Rightarrow> string list \<Rightarrow> string list list option" where
  "parse_shell_lc_plain_commands parser command =
     Option.bind (extract_bash_command command) (\<lambda>(_, script).
       parse_shell_script_into_commands parser script)"

definition parse_shell_lc_literal_commands :: "shell_parser \<Rightarrow> string list \<Rightarrow> string list list option" where
  "parse_shell_lc_literal_commands parser command =
     Option.bind (extract_bash_command command) (\<lambda>(_, script).
     Option.bind (parser script) (\<lambda>tree.
       if has_error tree then None else Some (literal_commands script [root_node tree] [])))"

definition parse_shell_lc_single_command_prefix :: "shell_parser \<Rightarrow> string list \<Rightarrow> string list option" where
  "parse_shell_lc_single_command_prefix parser command =
     Option.bind (extract_bash_command command) (\<lambda>(_, script).
     Option.bind (parser script) (\<lambda>tree.
       if has_error tree then None
       else if \<not> has_named_descendant_kind (root_node tree) ''heredoc_redirect'' then None
       else if has_named_descendant_kind (root_node tree) ''file_redirect'' then None
       else Option.bind (find_single_command_node (root_node tree))
              (parse_heredoc_command_words script)))"

section \<open>What the walks visit\<close>

fun subnodes :: "node \<Rightarrow> node list" where
  "subnodes (Node k nm a b cs) = Node k nm a b cs # concat (map subnodes cs)"

function named_subnodes :: "node \<Rightarrow> node list" where
  "named_subnodes n = n # concat (map named_subnodes (named_children n))"
  by pat_completeness auto
termination
  by (relation "measure size") (auto simp: size_named_children)

declare named_subnodes.simps [simp del]

text \<open>
  The stack loops differ in the children they push: the contract they share is that the children
  are smaller and that the nodes below a node are the node and those below its children.
\<close>

locale tree_walk =
  fixes kids :: "node \<Rightarrow> node list"
    and below :: "node \<Rightarrow> node list"
  assumes kids_size: "stack_size (kids n) \<le> size n"
    and below_unfold: "below n = n # concat (map below (kids n))"
begin

lemma stack_induct [case_names Empty Pop]:
  assumes "P []" and "\<And>n st. P (rev (kids n) @ st) \<Longrightarrow> P (n # st)"
  shows "P st"
proof (induction "stack_size st" arbitrary: st rule: less_induct)
  case less
  show ?case
  proof (cases st)
    case (Cons n st')
    then have "stack_size (rev (kids n) @ st') < stack_size st"
      using kids_size [of n] by simp
    then show ?thesis using less assms(2) Cons by blast
  qed (simp add: assms(1))
qed

lemma mset_below_pop:
  "mset (concat (map below (n # st))) = add_mset n (mset (concat (map below (rev (kids n) @ st))))"
  by (simp add: below_unfold [of n] mset_concat rev_map [symmetric])

lemma mset_filter_pop:
  "mset (filter P (concat (map below (n # st)))) =
     (if P n then {#n#} else {#}) + mset (filter P (concat (map below (rev (kids n) @ st))))"
  using mset_below_pop [of n st] by (simp only: mset_filter) auto

lemma set_below_pop:
  "set (concat (map below (n # st))) = insert n (set (concat (map below (rev (kids n) @ st))))"
  using arg_cong [OF mset_below_pop [of n st], of set_mset] by (simp only: set_mset_mset set_mset_add_mset_insert)

end

lemma subnodes_unfold: "subnodes n = n # concat (map subnodes (nd_children n))"
  by (cases n) simp

interpretation all_nodes: tree_walk nd_children subnodes
  by unfold_locales (rule stack_size_children, rule subnodes_unfold)

interpretation named_nodes: tree_walk named_children named_subnodes
  by unfold_locales (rule stack_size_named, rule named_subnodes.simps)

definition is_command :: "node \<Rightarrow> bool" where
  "is_command n = (nd_named n \<and> nd_kind n = ''command'')"

lemma collect_command_nodes_spec:
  "collect_command_nodes st acc = Some ns \<Longrightarrow>
   list_all node_allowed (concat (map subnodes st)) \<and>
   (\<exists>ms. ns = acc @ ms \<and> mset ms = mset (filter is_command (concat (map subnodes st))))"
proof (induction st arbitrary: acc rule: all_nodes.stack_induct)
  case Empty
  then show ?case by simp
next
  case (Pop n st)
  let ?acc = "if is_command n then acc @ [n] else acc"
  have ok: "node_allowed n"
    and rec: "collect_command_nodes (rev (nd_children n) @ st) ?acc = Some ns"
    using Pop.prems by (auto simp: is_command_def split: if_splits)
  from Pop.IH [OF rec] obtain ms where
    all: "list_all node_allowed (concat (map subnodes (rev (nd_children n) @ st)))"
    and ms: "ns = ?acc @ ms"
      "mset ms = mset (filter is_command (concat (map subnodes (rev (nd_children n) @ st))))"
    by blast
  have "list_all node_allowed (concat (map subnodes (n # st)))"
    using all ok all_nodes.set_below_pop [of n st] by (simp add: list_all_iff)
  moreover have "ns = acc @ ((if is_command n then [n] else []) @ ms)"
    using ms(1) by simp
  moreover have "mset ((if is_command n then [n] else []) @ ms) =
      mset (filter is_command (concat (map subnodes (n # st))))"
    unfolding all_nodes.mset_filter_pop using ms(2) by simp
  ultimately show ?case by blast
qed

lemma those_map_Some: "those (map f xs) = Some ys \<Longrightarrow> list_all2 (\<lambda>x y. f x = Some y) xs ys"
  by (induction xs arbitrary: ys) (auto split: option.splits)

lemma those_map_in_set:
  "those (map f xs) = Some ys \<Longrightarrow> x \<in> set xs \<Longrightarrow> \<exists>y \<in> set ys. f x = Some y"
  by (induction xs arbitrary: ys) (auto split: option.splits)

text \<open>
  C14: A script is read as a sequence of plain commands only if its tree has no error and no node
  outside the allowed kinds and operators, and then the commands are the words of all the
  command nodes of the tree, each once, in the order of the script.
\<close>

theorem word_only_sequence_sound:
  assumes "try_parse_word_only_commands_sequence tree src = Some cmds"
  shows "\<not> has_error tree \<and> list_all node_allowed (subnodes (root_node tree)) \<and>
    (\<exists>nodes. mset nodes = mset (filter is_command (subnodes (root_node tree))) \<and>
       sorted (map nd_start nodes) \<and>
       list_all2 (\<lambda>n ws. parse_plain_command_from_node src n = Some ws) nodes cmds)"
proof -
  obtain ns where err: "\<not> has_error tree"
    and ns: "collect_command_nodes [root_node tree] [] = Some ns"
    and cmds: "those (map (parse_plain_command_from_node src) (sort_key nd_start ns)) = Some cmds"
    using assms by (auto simp: try_parse_word_only_commands_sequence_def bind_eq_Some_conv split: if_splits)
  from collect_command_nodes_spec [OF ns] err those_map_Some [OF cmds] show ?thesis
    by (intro conjI exI [of _ "sort_key nd_start ns"]) auto
qed

lemma has_named_kind_iff:
  "has_named_kind kind st \<longleftrightarrow> (\<exists>n \<in> set (concat (map named_subnodes st)). nd_kind n = kind)"
proof (induction st rule: named_nodes.stack_induct)
  case (Pop n st)
  then show ?case
    unfolding named_nodes.set_below_pop by simp
qed simp

lemma literal_commands_set:
  "set (literal_commands src st acc) =
     set acc \<union> {ws. \<exists>n \<in> set (concat (map named_subnodes st)).
       nd_kind n = ''command'' \<and> parse_literal_command_from_node src n = Some ws}"
proof (induction st arbitrary: acc rule: named_nodes.stack_induct)
  case (Pop n st)
  then show ?case
    unfolding named_nodes.set_below_pop by (auto split: option.splits)
qed simp

lemma find_single_command_spec:
  "find_single_command st s = Some n \<longleftrightarrow>
     (case s of
        None \<Rightarrow> mset (filter (\<lambda>n. nd_kind n = ''command'') (concat (map named_subnodes st))) = {#n#}
      | Some m \<Rightarrow> n = m \<and>
          mset (filter (\<lambda>n. nd_kind n = ''command'') (concat (map named_subnodes st))) = {#})"
proof (induction st arbitrary: s rule: named_nodes.stack_induct)
  case Empty
  then show ?case by (cases s) auto
next
  case (Pop m st)
  show ?case
    unfolding named_nodes.mset_filter_pop
    by (cases s) (auto simp: Pop.IH simp del: mset_filter)
qed

lemma mset_singleton_list: "mset xs = {#x#} \<longleftrightarrow> xs = [x]"
  by (cases xs) auto

lemma find_single_command_node_iff:
  "find_single_command_node root = Some n \<longleftrightarrow>
     filter (\<lambda>n. nd_kind n = ''command'') (named_subnodes root) = [n]"
  using find_single_command_spec [of "[root]" None n]
  by (simp add: find_single_command_node_def mset_singleton_list
      del: mset_filter find_single_command.simps)

text \<open>
  A script is reduced to the words of a single command for its here-document only if its
  tree has no error, a here-document, no file redirection anywhere and exactly one command; the
  words are then not empty.
\<close>

theorem single_command_prefix_sound:
  assumes "parse_shell_lc_single_command_prefix parser command = Some words"
  shows "\<exists>shell script tree cmd. extract_bash_command command = Some (shell, script) \<and>
    parser script = Some tree \<and> \<not> has_error tree \<and>
    filter (\<lambda>n. nd_kind n = ''command'') (named_subnodes (root_node tree)) = [cmd] \<and>
    parse_heredoc_command_words script cmd = Some words \<and> words \<noteq> [] \<and>
    (\<exists>n \<in> set (named_subnodes (root_node tree)). nd_kind n = ''heredoc_redirect'') \<and>
    (\<forall>n \<in> set (named_subnodes (root_node tree)). nd_kind n \<noteq> ''file_redirect'')"
proof -
  obtain shell script tree cmd where shell: "extract_bash_command command = Some (shell, script)"
    and tree: "parser script = Some tree" "\<not> has_error tree"
    and kinds: "has_named_descendant_kind (root_node tree) ''heredoc_redirect''"
      "\<not> has_named_descendant_kind (root_node tree) ''file_redirect''"
    and cmd: "find_single_command_node (root_node tree) = Some cmd"
      "parse_heredoc_command_words script cmd = Some words"
    using assms
    by (auto simp: parse_shell_lc_single_command_prefix_def bind_eq_Some_conv split: if_splits)
  moreover have "words \<noteq> []"
    using cmd(2) by (auto simp: parse_heredoc_command_words_def split: if_splits option.splits)
  moreover have "\<exists>n \<in> set (named_subnodes (root_node tree)). nd_kind n = ''heredoc_redirect''"
    and "\<forall>n \<in> set (named_subnodes (root_node tree)). nd_kind n \<noteq> ''file_redirect''"
    using kinds by (auto simp: has_named_descendant_kind_def has_named_kind_iff)
  ultimately show ?thesis
    unfolding find_single_command_node_iff by blast
qed

section \<open>Witnesses\<close>

definition sample_command_node :: "nat \<Rightarrow> nat \<Rightarrow> node" where
  "sample_command_node a b =
     Node ''command'' True a b
       [Node ''command_name'' True a b [Node ''word'' True a b []]]"

text \<open>The tree of \<^verbatim>\<open>ls; pwd\<close>.\<close>

definition sample_tree :: syntax_tree where
  "sample_tree =
     \<lparr>root_node = Node ''program'' True 0 7
        [sample_command_node 0 2, Node '';'' False 2 3 [], sample_command_node 4 7],
      has_error = False\<rparr>"

lemma sample_tree_commands:
  "try_parse_word_only_commands_sequence sample_tree ''ls; pwd'' = Some [[''ls''], [''pwd'']]"
  by (simp add: try_parse_word_only_commands_sequence_def sample_tree_def sample_command_node_def
      node_allowed_def allowed_kinds_def allowed_punct_tokens_def parse_plain_command_from_node_def
      named_children_def parse_plain_word_def named_child0_def node_text_def)

theorem word_only_sequence_sound_witness:
  "list_all node_allowed (subnodes (root_node sample_tree)) \<and>
   length (filter is_command (subnodes (root_node sample_tree))) = 2"
proof -
  obtain nodes where nodes: "list_all node_allowed (subnodes (root_node sample_tree))"
    "mset nodes = mset (filter is_command (subnodes (root_node sample_tree)))"
    "list_all2 (\<lambda>n ws. parse_plain_command_from_node ''ls; pwd'' n = Some ws) nodes
       [[''ls''], [''pwd'']]"
    using word_only_sequence_sound [OF sample_tree_commands] by blast
  then show ?thesis
    using mset_eq_length [OF nodes(2)] list_all2_lengthD [OF nodes(3)] by simp
qed

text \<open>The tree of \<^verbatim>\<open>cat <<E\<close> with its body left out.\<close>

definition sample_heredoc_tree :: syntax_tree where
  "sample_heredoc_tree =
     \<lparr>root_node = Node ''program'' True 0 8
        [Node ''redirected_statement'' True 0 8
          [sample_command_node 0 3, Node ''heredoc_redirect'' True 4 8 []]],
      has_error = False\<rparr>"

theorem single_command_prefix_sound_witness:
  "parse_shell_lc_single_command_prefix (\<lambda>_. Some sample_heredoc_tree) [''bash'', ''-lc'', ''cat <<E''] =
     Some [''cat''] \<and>
   ''file_redirect'' \<notin> nd_kind ` set (named_subnodes (root_node sample_heredoc_tree))"
proof -
  have run: "parse_shell_lc_single_command_prefix (\<lambda>_. Some sample_heredoc_tree)
      [''bash'', ''-lc'', ''cat <<E''] = Some [''cat'']"
    by (simp add: parse_shell_lc_single_command_prefix_def extract_bash_command_def
        detect_shell_type.simps sample_heredoc_tree_def sample_command_node_def
        has_named_descendant_kind_def named_children_def find_single_command_node_def
        parse_heredoc_command_words_def named_child0_def node_text_def
        is_literal_word_or_number_def)
  then show ?thesis
    using single_command_prefix_sound [OF run] by auto
qed

end
