(* ===== verification/Shell_Safety.thy ===== *)
theory Shell_Safety
  imports Bash_Tree
begin

text \<open>
  The classification of commands: \<^verbatim>\<open>is_dangerous_command.rs\<close> and
  \<^verbatim>\<open>is_safe_command.rs\<close> of \<^verbatim>\<open>codex-rs/shell-command/src/command_safety\<close>, in the
  build for Linux.
\<close>

section \<open>Dangerous commands\<close>

datatype dangerous_command_match = ForcedRm | OtherDanger

definition max_dangerous_command_wrapper_depth :: nat where
  "max_dangerous_command_wrapper_depth = 8"

definition executable_name_lookup_key :: "string \<Rightarrow> string option" where
  "executable_name_lookup_key raw = file_name (components raw)"

definition rm_args_include_force_option :: "string list \<Rightarrow> bool" where
  "rm_args_include_force_option args =
     list_ex (\<lambda>arg. arg = ''--force'' \<or>
         (case strip_prefix ''-'' arg of
            Some flags \<Rightarrow> \<not> prefix ''-'' flags \<and> contains flags ''f''
          | None \<Rightarrow> False))
       (takeWhile (\<lambda>arg. arg \<noteq> ''--'') args)"

text \<open>The loop of \<^verbatim>\<open>env\<close> over its options and assignments, on the rest of the arguments.\<close>

fun skip_env_assignments :: "string list \<Rightarrow> string list" where
  "skip_env_assignments [] = []"
| "skip_env_assignments (argument # rest) =
     (if argument = ''--'' then rest
      else if argument \<in> {''-i'', ''--ignore-environment''} \<or>
              (case split_once (CHR ''='') argument of
                 Some (name, _) \<Rightarrow> name \<noteq> [] \<and> \<not> prefix ''-'' name
               | None \<Rightarrow> False)
      then skip_env_assignments rest
      else argument # rest)"

definition trap_action :: "string list \<Rightarrow> string option" where
  "trap_action args =
     (case (case args of ''--'' # rest \<Rightarrow> rest | _ \<Rightarrow> args) of
        [] \<Rightarrow> None
      | action # _ \<Rightarrow> if prefix ''-'' action then None else Some action)"

definition wrapper_budget :: "nat \<Rightarrow> nat" where
  "wrapper_budget d = 4 * (9 - d)"

function (sequential)
  dangerous_command_match_with_depth :: "shell_parser \<Rightarrow> string list \<Rightarrow> nat \<Rightarrow> dangerous_command_match option"
  and dangerous_command_match_for_exec :: "shell_parser \<Rightarrow> string list \<Rightarrow> nat \<Rightarrow> dangerous_command_match option"
  and dangerous_command_match_for_env :: "shell_parser \<Rightarrow> string list \<Rightarrow> nat \<Rightarrow> dangerous_command_match option"
  and dangerous_command_match_for_trap :: "shell_parser \<Rightarrow> string list \<Rightarrow> nat \<Rightarrow> dangerous_command_match option"
where
  "dangerous_command_match_with_depth parser command depth =
     (if depth > max_dangerous_command_wrapper_depth then None
      else case dangerous_command_match_for_exec parser command depth of
             Some m \<Rightarrow> Some m
           | None \<Rightarrow>
               (case parse_shell_lc_literal_commands parser command of
                  None \<Rightarrow> None
                | Some commands \<Rightarrow>
                    find_map (\<lambda>c. dangerous_command_match_with_depth parser c (depth + 1)) commands))"
| "dangerous_command_match_for_exec parser command depth =
     (case command of
        [] \<Rightarrow> None
      | first # args \<Rightarrow>
          (let cmd0 = executable_name_lookup_key first
           in if cmd0 = Some ''rm'' \<and> rm_args_include_force_option args then Some ForcedRm
              else if cmd0 = Some ''sudo''
              then dangerous_command_match_with_depth parser args (depth + 1)
              else if cmd0 = Some ''env'' then dangerous_command_match_for_env parser command depth
              else if cmd0 = Some ''trap'' then dangerous_command_match_for_trap parser command depth
              else None))"
| "dangerous_command_match_for_env parser command depth =
     dangerous_command_match_with_depth parser (skip_env_assignments (drop 1 command)) (depth + 1)"
| "dangerous_command_match_for_trap parser command depth =
     (case trap_action (drop 1 command) of
        None \<Rightarrow> None
      | Some action \<Rightarrow>
          dangerous_command_match_with_depth parser [''sh'', ''-c'', action] (depth + 1))"
  by pat_completeness auto
termination
  by (relation "measure (\<lambda>x. case x of
        Inl (Inl (p, c, d)) \<Rightarrow> if d > 8 then 0 else wrapper_budget d + 3
      | Inl (Inr (p, c, d)) \<Rightarrow> wrapper_budget d + 2
      | Inr (Inl (p, c, d)) \<Rightarrow> wrapper_budget d + 1
      | Inr (Inr (p, c, d)) \<Rightarrow> wrapper_budget d + 1)")
    (auto simp: wrapper_budget_def max_dangerous_command_wrapper_depth_def)

declare dangerous_command_match_with_depth.simps [simp del]
  dangerous_command_match_for_exec.simps [simp del]

definition dangerous_command_match :: "shell_parser \<Rightarrow> string list \<Rightarrow> dangerous_command_match option" where
  "dangerous_command_match parser command = dangerous_command_match_with_depth parser command 0"

definition dangerous_powershell_words_match :: "string list \<Rightarrow> dangerous_command_match option" where
  "dangerous_powershell_words_match command = None"

section \<open>Git invocations\<close>

definition is_git_global_option_with_value :: "string \<Rightarrow> bool" where
  "is_git_global_option_with_value arg =
     (arg \<in> {''-C'', ''-c'', ''--config-env'', ''--exec-path'', ''--git-dir'', ''--namespace'',
             ''--super-prefix'', ''--work-tree''})"

definition is_git_global_option_with_inline_value :: "string \<Rightarrow> bool" where
  "is_git_global_option_with_inline_value arg =
     (list_ex (\<lambda>p. prefix p arg)
        [''--config-env='', ''--exec-path='', ''--git-dir='', ''--namespace='',
         ''--super-prefix='', ''--work-tree=''] \<or>
      (prefix ''-C'' arg \<or> prefix ''-c'' arg) \<and> length arg > 2)"

fun git_subcommand_scan :: "string list \<Rightarrow> bool \<Rightarrow> nat \<Rightarrow> string list \<Rightarrow> (nat \<times> string) option" where
  "git_subcommand_scan subs skip_next idx [] = None"
| "git_subcommand_scan subs skip_next idx (arg # args) =
     (if skip_next then git_subcommand_scan subs False (idx + 1) args
      else if is_git_global_option_with_inline_value arg
      then git_subcommand_scan subs False (idx + 1) args
      else if is_git_global_option_with_value arg
      then git_subcommand_scan subs True (idx + 1) args
      else if arg = ''--'' \<or> prefix ''-'' arg then git_subcommand_scan subs False (idx + 1) args
      else if arg \<in> set subs then Some (idx, arg)
      else None)"

definition find_git_subcommand :: "string list \<Rightarrow> string list \<Rightarrow> (nat \<times> string) option" where
  "find_git_subcommand command subs =
     (case command of
        [] \<Rightarrow> None
      | cmd0 # args \<Rightarrow>
          (if executable_name_lookup_key cmd0 \<noteq> Some ''git'' then None
           else git_subcommand_scan subs False 1 args))"

datatype git_option_pattern = Exact string | ShortWithInlineValue string | Prefix string

fun option_pattern_matches :: "git_option_pattern \<Rightarrow> string \<Rightarrow> bool" where
  "option_pattern_matches (Exact opt) arg = (arg = opt)"
| "option_pattern_matches (ShortWithInlineValue opt) arg = (prefix opt arg \<and> length arg > length opt)"
| "option_pattern_matches (Prefix p) arg = prefix p arg"

definition unsafe_git_global_options :: "git_option_pattern list" where
  "unsafe_git_global_options =
     [Exact ''-C'', ShortWithInlineValue ''-C'', Exact ''-c'', ShortWithInlineValue ''-c'',
      Exact ''-p'', Exact ''--config-env'', Prefix ''--config-env='', Exact ''--exec-path'',
      Prefix ''--exec-path='', Exact ''--git-dir'', Prefix ''--git-dir='', Exact ''--namespace'',
      Prefix ''--namespace='', Exact ''--paginate'', Exact ''--super-prefix'',
      Prefix ''--super-prefix='', Exact ''--work-tree'', Prefix ''--work-tree='']"

definition unsafe_git_subcommand_options :: "git_option_pattern list" where
  "unsafe_git_subcommand_options =
     [Exact ''--output'', Prefix ''--output='', Exact ''--ext-diff'', Exact ''--textconv'',
      Exact ''--exec'', Prefix ''--exec='']"

definition git_matches_option_pattern :: "string \<Rightarrow> git_option_pattern list \<Rightarrow> bool" where
  "git_matches_option_pattern arg patterns = list_ex (\<lambda>p. option_pattern_matches p arg) patterns"

definition git_has_unsafe_global_option :: "string list \<Rightarrow> bool" where
  "git_has_unsafe_global_option global_args =
     list_ex (\<lambda>arg. git_matches_option_pattern arg unsafe_git_global_options) global_args"

definition git_subcommand_args_are_read_only :: "string list \<Rightarrow> bool" where
  "git_subcommand_args_are_read_only args =
     (\<not> list_ex (\<lambda>arg. git_matches_option_pattern arg unsafe_git_subcommand_options) args)"

fun branch_args_scan :: "bool \<Rightarrow> string list \<Rightarrow> bool" where
  "branch_args_scan saw_read_only_flag [] = saw_read_only_flag"
| "branch_args_scan saw_read_only_flag (arg # args) =
     (if arg \<in> {''--list'', ''-l'', ''--show-current'', ''-a'', ''--all'', ''-r'', ''--remotes'',
                ''-v'', ''-vv'', ''--verbose''} \<or> prefix ''--format='' arg
      then branch_args_scan True args else False)"

definition git_branch_is_read_only :: "string list \<Rightarrow> bool" where
  "git_branch_is_read_only branch_args = (branch_args = [] \<or> branch_args_scan False branch_args)"

definition is_safe_git_command :: "string list \<Rightarrow> bool" where
  "is_safe_git_command command =
     (case find_git_subcommand command [''status'', ''log'', ''diff'', ''show'', ''branch''] of
        None \<Rightarrow> False
      | Some (idx, sub) \<Rightarrow>
          (let global_args = drop 1 (take idx command);
               subcommand_args = drop (idx + 1) command
           in if git_has_unsafe_global_option global_args then False
              else if sub \<in> {''status'', ''log'', ''diff'', ''show''}
              then git_subcommand_args_are_read_only subcommand_args
              else if sub = ''branch''
              then git_subcommand_args_are_read_only subcommand_args \<and>
                   git_branch_is_read_only subcommand_args
              else False))"

section \<open>Known-safe commands\<close>

definition all_digits :: "string \<Rightarrow> bool" where
  "all_digits s = (s \<noteq> [] \<and> list_all is_ascii_digit s)"

definition is_valid_sed_n_arg :: "string option \<Rightarrow> bool" where
  "is_valid_sed_n_arg arg =
     (case arg of
        None \<Rightarrow> False
      | Some s \<Rightarrow>
          (case strip_suffix ''p'' s of
             None \<Rightarrow> False
           | Some core \<Rightarrow>
               (case split_on (CHR '','') core of
                  [num] \<Rightarrow> all_digits num
                | [a, b] \<Rightarrow> all_digits a \<and> all_digits b
                | _ \<Rightarrow> False)))"

definition always_safe_programs :: "string list" where
  "always_safe_programs =
     [''numfmt'', ''tac'', ''cat'', ''cd'', ''cut'', ''echo'', ''expr'', ''false'', ''grep'',
      ''head'', ''id'', ''ls'', ''nl'', ''paste'', ''pwd'', ''rev'', ''seq'', ''stat'', ''tail'',
      ''tr'', ''true'', ''uname'', ''uniq'', ''wc'', ''which'', ''whoami'']"

definition unsafe_base64_arg :: "string \<Rightarrow> bool" where
  "unsafe_base64_arg arg =
     (arg \<in> {''-o'', ''--output''} \<or> prefix ''--output='' arg \<or> prefix ''-o'' arg \<and> arg \<noteq> ''-o'')"

definition unsafe_find_options :: "string list" where
  "unsafe_find_options =
     [''-exec'', ''-execdir'', ''-ok'', ''-okdir'', ''-delete'', ''-fls'', ''-fprint'',
      ''-fprint0'', ''-fprintf'']"

definition unsafe_ripgrep_arg :: "string \<Rightarrow> bool" where
  "unsafe_ripgrep_arg arg =
     (arg \<in> {''--search-zip'', ''-z''} \<or>
      list_ex (\<lambda>opt. arg = opt \<or> prefix (opt @ ''='') arg) [''--pre'', ''--hostname-bin''])"

definition is_safe_to_call_with_exec :: "string list \<Rightarrow> bool" where
  "is_safe_to_call_with_exec command =
     (case command of
        [] \<Rightarrow> False
      | cmd0 # args \<Rightarrow>
          (case executable_name_lookup_key cmd0 of
             None \<Rightarrow> False
           | Some cmd \<Rightarrow>
               (if cmd \<in> set always_safe_programs then True
                else if cmd = ''base64'' then \<not> list_ex unsafe_base64_arg args
                else if cmd = ''find''
                then \<not> list_ex (\<lambda>arg. arg \<in> set unsafe_find_options) command
                else if cmd = ''rg'' then \<not> list_ex unsafe_ripgrep_arg command
                else if cmd = ''git'' then is_safe_git_command command
                else cmd = ''sed'' \<and> length command \<le> 4 \<and>
                     (case args of
                        ''-n'' # rest \<Rightarrow>
                          is_valid_sed_n_arg (case rest of [] \<Rightarrow> None | arg # _ \<Rightarrow> Some arg)
                      | _ \<Rightarrow> False))))"

definition zsh_as_bash :: "string \<Rightarrow> string" where
  "zsh_as_bash s = (if s = ''zsh'' then ''bash'' else s)"

definition is_known_safe_command :: "shell_parser \<Rightarrow> string list \<Rightarrow> bool" where
  "is_known_safe_command parser command =
     (let command = map zsh_as_bash command
      in if is_safe_to_call_with_exec command then True
         else (case parse_shell_lc_plain_commands parser command of
                 None \<Rightarrow> False
               | Some all_commands \<Rightarrow>
                   all_commands \<noteq> [] \<and> list_all is_safe_to_call_with_exec all_commands))"

definition is_safe_powershell_words :: "string list \<Rightarrow> bool" where
  "is_safe_powershell_words command = False"

section \<open>A known-safe command is not a dangerous one\<close>

definition safe_programs :: "string list" where
  "safe_programs = always_safe_programs @ [''base64'', ''find'', ''rg'', ''git'', ''sed'']"

definition shell_programs :: "string list" where
  "shell_programs = [''zsh'', ''sh'', ''cmd'', ''bash'', ''pwsh'', ''powershell'']"

lemma plain_name_components: "plain_name n \<Longrightarrow> components n = [Normal n]"
  by (auto simp: components_def is_absolute_def plain_name_def split_on_no_sep seg_components_def
      Let_def prefix_def)

lemma file_name_plain: "file_name (components p) = Some n \<Longrightarrow> plain_name n"
proof -
  assume "file_name (components p) = Some n"
  then have "components p \<noteq> []" and "last (components p) = Normal n"
    by (auto simp: file_name_def split: if_splits component.splits)
  then have "Normal n \<in> set (components p)"
    using last_in_set by metis
  then show "plain_name n" by (rule Normal_in_components)
qed

lemma file_stem_no_dot:
  "file_name cs = Some n \<Longrightarrow> CHR ''.'' \<notin> set n \<Longrightarrow> file_stem cs = Some n"
proof -
  assume fn: "file_name cs = Some n" and dot: "CHR ''.'' \<notin> set n"
  have "rsplit_once (CHR ''.'') n = None"
    using dot by (simp add: rsplit_once_def split_once_None_iff)
  then show ?thesis
    using fn by (simp add: file_stem_def file_stem_of_name_def)
qed

lemma detect_shell_type_other:
  assumes "file_name (components p) = Some n" and "CHR ''.'' \<notin> set n" and "n \<notin> set shell_programs"
  shows "detect_shell_type p = None"
proof -
  have plain: "plain_name n" by (rule file_name_plain [OF assms(1)])
  have comp: "components n = [Normal n]" by (rule plain_name_components [OF plain])
  have not_shell: "detect_shell_type q = (case file_stem (components q) of
              None \<Rightarrow> None
            | Some name \<Rightarrow>
                (if components name \<noteq> components q then detect_shell_type name else None))"
    if "q \<notin> set shell_programs" for q
    using that by (subst detect_shell_type.simps) (simp add: shell_programs_def)
  have stem_n: "file_stem (components n) = Some n"
    using assms(2) by (intro file_stem_no_dot) (simp_all add: comp file_name_def)
  have n: "detect_shell_type n = None"
    by (subst not_shell) (simp_all add: assms(3) stem_n)
  have "p \<notin> set shell_programs"
  proof
    assume p: "p \<in> set shell_programs"
    then have "plain_name p" by (auto simp: shell_programs_def plain_name_def)
    then have "n = p" using assms(1) by (simp add: plain_name_components file_name_def)
    then show False using p assms(3) by simp
  qed
  then show ?thesis
    using n file_stem_no_dot [OF assms(1,2)] by (subst not_shell) simp_all
qed

lemma safe_program_facts:
  assumes "n \<in> set safe_programs"
  shows "CHR ''.'' \<notin> set n" and "n \<notin> set shell_programs"
    and "n \<notin> {''rm'', ''sudo'', ''env'', ''trap''}"
proof -
  have "list_all (\<lambda>n. CHR ''.'' \<notin> set n \<and> n \<notin> set shell_programs \<and>
      n \<notin> {''rm'', ''sudo'', ''env'', ''trap''}) safe_programs"
    by (simp add: safe_programs_def always_safe_programs_def shell_programs_def)
  then show "CHR ''.'' \<notin> set n" and "n \<notin> set shell_programs"
    and "n \<notin> {''rm'', ''sudo'', ''env'', ''trap''}"
    using assms by (simp_all add: list_all_iff)
qed

lemma safe_exec_program:
  assumes "is_safe_to_call_with_exec command"
  obtains c args n where "command = c # args" and "executable_name_lookup_key c = Some n"
    and "n \<in> set safe_programs"
  using assms
  by (auto simp: is_safe_to_call_with_exec_def safe_programs_def
      split: list.splits option.splits if_splits)

lemma other_exec_not_dangerous:
  assumes "executable_name_lookup_key c = Some n" and "n \<notin> {''rm'', ''sudo'', ''env'', ''trap''}"
  shows "dangerous_command_match_for_exec parser (c # args) d = None"
  using assms by (simp add: dangerous_command_match_for_exec.simps)

lemma safe_program_not_dangerous:
  assumes "executable_name_lookup_key c = Some n" and "n \<in> set safe_programs"
  shows "dangerous_command_match_with_depth parser (c # args) d = None"
proof -
  have "detect_shell_type c = None"
    using assms safe_program_facts(1,2) [OF assms(2)]
    by (intro detect_shell_type_other) (auto simp: executable_name_lookup_key_def)
  then have "parse_shell_lc_literal_commands parser (c # args) = None"
    by (auto simp: parse_shell_lc_literal_commands_def extract_bash_command_def split: list.split)
  then show ?thesis
    using other_exec_not_dangerous [OF assms(1) safe_program_facts(3) [OF assms(2)]]
    by (simp add: dangerous_command_match_with_depth.simps)
qed

text \<open>
  What is used of the grammar: the named children of a command are assignments and redirections,
  then the name of the command, then its arguments.
\<close>

definition name_first :: "node \<Rightarrow> bool" where
  "name_first n \<longleftrightarrow>
     (\<exists>before name args. named_children n = before @ name # args \<and> nd_kind name = ''command_name'' \<and>
        (\<forall>c \<in> set before. nd_kind c \<in> {''variable_assignment'', ''file_redirect'', ''herestring_redirect''}) \<and>
        (\<forall>c \<in> set args. nd_kind c \<noteq> ''command_name''))"

definition bash_grammar :: "shell_parser \<Rightarrow> bool" where
  "bash_grammar parser \<longleftrightarrow>
     (\<forall>script tree n. parser script = Some tree \<longrightarrow> n \<in> set (subnodes (root_node tree)) \<longrightarrow>
        nd_kind n = ''command'' \<longrightarrow> name_first n)"

lemma literal_words_prefix: "literal_words src found ws cs = Some ws' \<Longrightarrow> prefix ws ws'"
proof (induction src found ws cs rule: literal_words.induct)
  case (2 src found ws c cs)
  then show ?case
    by (auto split: if_splits option.splits dest: append_prefixD)
qed (auto split: if_splits)

lemma literal_name_is_plain_name:
  assumes "name_first n" and "parse_plain_command_from_node src n = Some ws"
    and "parse_literal_command_from_node src n = Some ls"
  shows "ws \<noteq> [] \<and> ls \<noteq> [] \<and> hd ls = hd ws"
proof -
  obtain before name args where kids: "named_children n = before @ name # args"
    and name: "nd_kind name = ''command_name''"
    and before: "\<forall>c \<in> set before. nd_kind c \<in> {''variable_assignment'', ''file_redirect'', ''herestring_redirect''}"
    using assms(1) unfolding name_first_def by blast
  have plain: "list_all2 (\<lambda>x y. parse_plain_word src x = Some y) (before @ name # args) ws"
    using assms(2) kids
    by (auto simp: parse_plain_command_from_node_def split: if_splits intro: those_map_Some)
  have "before = []"
  proof (rule ccontr)
    assume "before \<noteq> []"
    then obtain b bs where b: "before = b # bs" by (cases before) auto
    then have "parse_plain_word src b = None"
      using before by (auto simp: parse_plain_word_def)
    then show False using plain b by (auto simp: list_all2_Cons1)
  qed
  then obtain w ws' where ws: "ws = w # ws'" and w: "parse_plain_word src name = Some w"
    using plain by (auto simp: list_all2_Cons1)
  then obtain word where word: "named_child0 name = Some word" "nd_kind word = ''word''"
    "node_text src word = Some w"
    using name by (auto simp: parse_plain_word_def bind_eq_Some_conv split: if_splits)
  obtain l where l: "parse_literal_shell_word src word = Some l"
    and ls: "literal_words src True [l] args = Some ls"
    using assms(3) kids \<open>before = []\<close> name word(1)
    by (auto simp: parse_literal_command_from_node_def split: if_splits option.splits)
  have "l = w"
    using l word by (simp add: parse_literal_shell_word.simps is_literal_word_or_number_def split: if_splits)
  then show ?thesis
    using ws literal_words_prefix [OF ls] by (auto simp: prefix_def)
qed

lemma named_subnodes_subset: "set (named_subnodes n) \<subseteq> set (subnodes n)"
proof (induction n rule: named_subnodes.induct)
  case (1 n)
  then show ?case
    unfolding named_subnodes.simps [of n] subnodes_unfold [of n] by (fastforce simp: named_children_def)
qed

lemma allowed_command_is_named: "node_allowed n \<Longrightarrow> nd_kind n = ''command'' \<Longrightarrow> is_command n"
  by (auto simp: is_command_def node_allowed_def allowed_punct_tokens_def str_simps split: if_splits)

lemma word_only_literal_heads:
  assumes "try_parse_word_only_commands_sequence tree src = Some cmds"
    and "\<And>n. n \<in> set (subnodes (root_node tree)) \<Longrightarrow> nd_kind n = ''command'' \<Longrightarrow> name_first n"
    and "ls \<in> set (literal_commands src [root_node tree] [])"
  shows "\<exists>ws \<in> set cmds. ws \<noteq> [] \<and> ls \<noteq> [] \<and> hd ls = hd ws"
proof -
  obtain n where n: "n \<in> set (named_subnodes (root_node tree))" "nd_kind n = ''command''"
    and ls: "parse_literal_command_from_node src n = Some ls"
    using assms(3) unfolding literal_commands_set by auto
  then have sub: "n \<in> set (subnodes (root_node tree))"
    using named_subnodes_subset by blast
  obtain ns where err: "\<not> has_error tree"
    and ns: "collect_command_nodes [root_node tree] [] = Some ns"
    and cmds: "those (map (parse_plain_command_from_node src) (sort_key nd_start ns)) = Some cmds"
    using assms(1) by (auto simp: try_parse_word_only_commands_sequence_def bind_eq_Some_conv split: if_splits)
  have allowed: "list_all node_allowed (subnodes (root_node tree))"
    and mset: "mset ns = mset (filter is_command (subnodes (root_node tree)))"
    using collect_command_nodes_spec [OF ns] by auto
  have "is_command n"
    using allowed sub n(2) by (intro allowed_command_is_named) (auto simp: list_all_iff)
  then have "n \<in> set (sort_key nd_start ns)"
    using sub mset_eq_setD [OF mset] by simp
  then obtain ws where ws: "ws \<in> set cmds" "parse_plain_command_from_node src n = Some ws"
    using those_map_in_set [OF cmds] by blast
  then show ?thesis
    using literal_name_is_plain_name [OF assms(2) [OF sub n(2)] ws(2) ls] by blast
qed

lemma shell_exec_not_dangerous:
  assumes "detect_shell_type c \<noteq> None"
  shows "dangerous_command_match_for_exec parser (c # args) d = None"
proof (cases "executable_name_lookup_key c")
  case None
  then show ?thesis by (simp add: dangerous_command_match_for_exec.simps)
next
  case (Some n)
  have "n \<notin> {''rm'', ''sudo'', ''env'', ''trap''}"
    using assms detect_shell_type_other [of c n] Some
    by (auto simp: executable_name_lookup_key_def shell_programs_def)
  then show ?thesis using Some by (intro other_exec_not_dangerous)
qed

text \<open>
  C17: The two classifiers do not contradict each other: a command that is known to be safe is
  not reported as dangerous, for every parser whose trees name a command before its arguments,
  and when no argument is the literal \<^verbatim>\<open>zsh\<close> (which the safe-command check rewrites).
\<close>

theorem known_safe_not_dangerous:
  assumes "is_known_safe_command parser command" and "bash_grammar parser"
    and "''zsh'' \<notin> set (drop 1 command)"
  shows "dangerous_command_match parser command = None"
proof -
  let ?command = "map zsh_as_bash command"
  obtain c args where command: "command = c # args"
    using assms(1) by (cases command) (auto simp: is_known_safe_command_def is_safe_to_call_with_exec_def
        parse_shell_lc_plain_commands_def extract_bash_command_def)
  have args: "map zsh_as_bash args = args"
    using assms(3) command by (auto simp: zsh_as_bash_def intro: map_idI)
  show ?thesis
  proof (cases "is_safe_to_call_with_exec ?command")
    case True
    then obtain n where n: "executable_name_lookup_key (zsh_as_bash c) = Some n" "n \<in> set safe_programs"
      by (rule safe_exec_program) (simp add: command)
    have "zsh_as_bash c = c"
      using n by (auto simp: zsh_as_bash_def executable_name_lookup_key_def path_eval
          safe_programs_def always_safe_programs_def)
    then show ?thesis
      using safe_program_not_dangerous n by (simp add: dangerous_command_match_def command)
  next
    case False
    obtain cmds where cmds: "parse_shell_lc_plain_commands parser ?command = Some cmds"
      and safe: "list_all is_safe_to_call_with_exec cmds"
      using assms(1) False by (auto simp: is_known_safe_command_def Let_def split: option.splits)
    obtain flag script tree where args_eq: "args = [flag, script]"
      and shell: "detect_shell_type (zsh_as_bash c) \<noteq> None"
      and tree: "parser script = Some tree" "try_parse_word_only_commands_sequence tree script = Some cmds"
      using cmds args
      by (auto simp: parse_shell_lc_plain_commands_def parse_shell_script_into_commands_def
          extract_bash_command_def command bind_eq_Some_conv split: list.splits if_splits)
    have "detect_shell_type c \<noteq> None"
      using shell by (auto simp: zsh_as_bash_def detect_shell_type.simps [of "''zsh''"] split: if_splits)
    moreover have "dangerous_command_match_with_depth parser ls 1 = None"
      if ls: "ls \<in> set (literal_commands script [root_node tree] [])" for ls
    proof -
      obtain ws where ws: "ws \<in> set cmds" "ws \<noteq> []" "ls \<noteq> []" "hd ls = hd ws"
        using word_only_literal_heads [OF tree(2) _ ls] assms(2) tree(1)
        unfolding bash_grammar_def by blast
      then have "is_safe_to_call_with_exec ws" using safe by (simp add: list_all_iff)
      then obtain n where n: "executable_name_lookup_key (hd ws) = Some n" "n \<in> set safe_programs"
        by (rule safe_exec_program) simp
      have "dangerous_command_match_with_depth parser (hd ws # tl ls) 1 = None"
        by (rule safe_program_not_dangerous [OF n])
      moreover have "hd ws # tl ls = ls"
        using ws(3,4) by (cases ls) auto
      ultimately show ?thesis by simp
    qed
    moreover have "parse_shell_lc_literal_commands parser command = None \<or>
        parse_shell_lc_literal_commands parser command = Some (literal_commands script [root_node tree] [])"
      by (auto simp: parse_shell_lc_literal_commands_def extract_bash_command_def command args_eq
          tree(1) simp del: literal_commands.simps)
    ultimately show ?thesis
      using shell_exec_not_dangerous [of c parser args 0]
      unfolding dangerous_command_match_def dangerous_command_match_with_depth.simps [of parser command 0]
      by (auto simp: command find_map_None_iff simp del: literal_commands.simps)
  qed
qed

section \<open>Wrappers\<close>

lemma no_shell_program:
  assumes "plain_name c" and "CHR ''.'' \<notin> set c" and "c \<notin> set shell_programs"
  shows "parse_shell_lc_literal_commands parser (c # args) = None"
    and "executable_name_lookup_key c = Some c"
proof -
  have "file_name (components c) = Some c"
    using assms(1) by (simp add: plain_name_components file_name_def)
  then show "executable_name_lookup_key c = Some c"
    by (simp add: executable_name_lookup_key_def)
  have "detect_shell_type c = None"
    by (rule detect_shell_type_other [OF \<open>file_name (components c) = Some c\<close> assms(2,3)])
  then show "parse_shell_lc_literal_commands parser (c # args) = None"
    by (auto simp: parse_shell_lc_literal_commands_def extract_bash_command_def split: list.split)
qed

lemma sudo_rm_with_depth:
  "dangerous_command_match_with_depth parser (replicate n ''sudo'' @ ''rm'' # args) d =
     (if n + d \<le> 8 \<and> rm_args_include_force_option args then Some ForcedRm else None)"
proof (induction n arbitrary: d)
  case 0
  have "parse_shell_lc_literal_commands parser (''rm'' # args) = None"
    and "executable_name_lookup_key ''rm'' = Some ''rm''"
    using no_shell_program [of "''rm''"] by (simp_all add: plain_name_def shell_programs_def)
  then show ?case
    by (simp add: dangerous_command_match_with_depth.simps dangerous_command_match_for_exec.simps
        max_dangerous_command_wrapper_depth_def)
next
  case (Suc n)
  have "parse_shell_lc_literal_commands parser (''sudo'' # replicate n ''sudo'' @ ''rm'' # args) = None"
    and "executable_name_lookup_key ''sudo'' = Some ''sudo''"
    using no_shell_program [of "''sudo''"] by (simp_all add: plain_name_def shell_programs_def)
  then show ?case
    using Suc.IH [of "d + 1"]
    by (subst dangerous_command_match_with_depth.simps)
      (auto simp: dangerous_command_match_for_exec.simps max_dangerous_command_wrapper_depth_def)
qed

text \<open>
  C39: A forced removal is recognised behind up to eight wrappers and not behind more: under
  \<^verbatim>\<open>n\<close> nested calls of \<^verbatim>\<open>sudo\<close>, \<^verbatim>\<open>rm\<close> is reported exactly when it has the
  force option and \<^verbatim>\<open>n\<close> is at most eight.
\<close>

theorem sudo_rm_detected_iff:
  "dangerous_command_match parser (replicate n ''sudo'' @ ''rm'' # args) =
     (if n \<le> max_dangerous_command_wrapper_depth \<and> rm_args_include_force_option args
      then Some ForcedRm else None)"
  using sudo_rm_with_depth [of parser n args 0]
  by (simp add: dangerous_command_match_def max_dangerous_command_wrapper_depth_def)

section \<open>Git and sed\<close>

lemma git_option_dash:
  "is_git_global_option_with_inline_value g \<Longrightarrow> prefix ''-'' g"
  by (auto simp: is_git_global_option_with_inline_value_def prefix_def)

lemma git_subcommand_scan_spec:
  "git_subcommand_scan subs skip idx args = Some (i, sub) \<Longrightarrow>
   \<exists>globals rest. args = globals @ sub # rest \<and> i = idx + length globals \<and> sub \<in> set subs \<and>
     (\<not> skip \<and> (\<forall>g \<in> set globals. \<not> is_git_global_option_with_value g) \<longrightarrow>
      (\<forall>g \<in> set globals. prefix ''-'' g))"
proof (induction args arbitrary: skip idx)
  case (Cons arg args)
  consider (found) "\<not> skip" "sub = arg" "i = idx" "arg \<in> set subs"
    | (again) skip' where "git_subcommand_scan subs skip' (idx + 1) args = Some (i, sub)"
        "skip \<or> prefix ''-'' arg \<and> (skip' \<longrightarrow> is_git_global_option_with_value arg)"
    using Cons.prems git_option_dash [of arg]
    by (auto simp: is_git_global_option_with_value_def split: if_splits)
  then show ?case
  proof cases
    case found
    then show ?thesis by (intro exI [of _ "[]"] exI [of _ args]) auto
  next
    case (again skip')
    obtain globals rest where g: "args = globals @ sub # rest" "i = idx + 1 + length globals"
      "sub \<in> set subs"
      "\<not> skip' \<and> (\<forall>g \<in> set globals. \<not> is_git_global_option_with_value g) \<longrightarrow>
       (\<forall>g \<in> set globals. prefix ''-'' g)"
      using Cons.IH [OF again(1)] by blast
    show ?thesis
      by (rule exI [of _ "arg # globals"], rule exI [of _ rest]) (use g again(2) in auto)
  qed
qed simp

lemma unsafe_git_global_with_value:
  "is_git_global_option_with_value g \<Longrightarrow> git_matches_option_pattern g unsafe_git_global_options"
  by (auto simp: is_git_global_option_with_value_def git_matches_option_pattern_def
      unsafe_git_global_options_def)

definition branch_listing_flag :: "string \<Rightarrow> bool" where
  "branch_listing_flag arg =
     (arg \<in> {''--list'', ''-l'', ''--show-current'', ''-a'', ''--all'', ''-r'', ''--remotes'',
             ''-v'', ''-vv'', ''--verbose''} \<or> prefix ''--format='' arg)"

lemma branch_args_scan_flags: "branch_args_scan saw args \<Longrightarrow> list_all branch_listing_flag args"
  by (induction args arbitrary: saw) (auto simp: branch_listing_flag_def split: if_splits)

text \<open>
  A git invocation that is known to be safe is a read-only query without overrides: before
  the subcommand stand only dashed options, none of which redirects git (such as
  \<^verbatim>\<open>-C\<close>, \<^verbatim>\<open>-c\<close>, \<^verbatim>\<open>--git-dir\<close>, \<^verbatim>\<open>--exec-path\<close>) or starts a pager; the
  subcommand is one of five; none of its arguments writes output or runs a program; and the
  arguments of \<^verbatim>\<open>branch\<close> are all listing flags.
\<close>

theorem safe_git_command_shape:
  assumes "is_safe_git_command command"
  shows "\<exists>git globals sub args. command = git # globals @ sub # args \<and>
    executable_name_lookup_key git = Some ''git'' \<and>
    sub \<in> {''status'', ''log'', ''diff'', ''show'', ''branch''} \<and>
    (\<forall>g \<in> set globals. prefix ''-'' g \<and> \<not> git_matches_option_pattern g unsafe_git_global_options) \<and>
    (\<forall>a \<in> set args. \<not> git_matches_option_pattern a unsafe_git_subcommand_options) \<and>
    (sub = ''branch'' \<longrightarrow> list_all branch_listing_flag args)"
proof -
  let ?subs = "[''status'', ''log'', ''diff'', ''show'', ''branch'']"
  obtain idx sub where found: "find_git_subcommand command ?subs = Some (idx, sub)"
    and globals: "\<not> git_has_unsafe_global_option (drop 1 (take idx command))"
    and args: "git_subcommand_args_are_read_only (drop (idx + 1) command)"
    and branch: "sub = ''branch'' \<Longrightarrow> git_branch_is_read_only (drop (idx + 1) command)"
    using assms by (auto simp: is_safe_git_command_def Let_def split: option.splits if_splits)
  from found obtain git rest where command: "command = git # rest"
    and git: "executable_name_lookup_key git = Some ''git''"
    and scan: "git_subcommand_scan ?subs False 1 rest = Some (idx, sub)"
    by (auto simp: find_git_subcommand_def split: list.splits if_splits)
  from git_subcommand_scan_spec [OF scan] obtain gs as where rest: "rest = gs @ sub # as"
    and idx: "idx = 1 + length gs" and sub: "sub \<in> set ?subs"
    and dash: "(\<forall>g \<in> set gs. \<not> is_git_global_option_with_value g) \<longrightarrow> (\<forall>g \<in> set gs. prefix ''-'' g)"
    by blast
  have gs: "drop 1 (take idx command) = gs" and as: "drop (idx + 1) command = as"
    by (simp_all add: command rest idx)
  have unsafe: "\<forall>g \<in> set gs. \<not> git_matches_option_pattern g unsafe_git_global_options"
    using globals gs by (auto simp: git_has_unsafe_global_option_def list_ex_iff)
  then have "\<forall>g \<in> set gs. prefix ''-'' g"
    using dash unsafe_git_global_with_value by blast
  moreover have "\<forall>a \<in> set as. \<not> git_matches_option_pattern a unsafe_git_subcommand_options"
    using args as by (auto simp: git_subcommand_args_are_read_only_def list_ex_iff)
  moreover have "sub = ''branch'' \<longrightarrow> list_all branch_listing_flag as"
    using branch as by (auto simp: git_branch_is_read_only_def dest: branch_args_scan_flags)
  moreover have "command = git # gs @ sub # as"
    by (simp add: command rest)
  moreover have "sub \<in> {''status'', ''log'', ''diff'', ''show'', ''branch''}"
    using sub by simp
  ultimately show ?thesis
    using git unsafe by (intro exI [of _ git] exI [of _ gs] exI [of _ sub] exI [of _ as] conjI) simp_all
qed

lemma comma_not_digit: "all_digits s \<Longrightarrow> CHR '','' \<notin> set s"
proof
  assume "all_digits s" and "CHR '','' \<in> set s"
  then have "is_ascii_digit (CHR '','')" by (simp add: all_digits_def list_all_iff)
  then show False by (simp add: is_ascii_digit_def)
qed

text \<open>
  The argument of \<^verbatim>\<open>sed -n\<close> is accepted exactly when it is one decimal number or two with
  a comma between them, followed by \<^verbatim>\<open>p\<close>, as the comment's regular expression
  \<^verbatim>\<open>(\d+,)?\d+p\<close> says.
\<close>

theorem sed_argument_iff_regex:
  "is_valid_sed_n_arg (Some s) \<longleftrightarrow>
     (\<exists>n. all_digits n \<and> s = n @ ''p'') \<or>
     (\<exists>a b. all_digits a \<and> all_digits b \<and> s = a @ '','' @ b @ ''p'')"
proof
  assume valid: "is_valid_sed_n_arg (Some s)"
  then obtain core where s: "s = core @ ''p''"
    by (auto simp: is_valid_sed_n_arg_def strip_suffix_Some_iff split: option.splits)
  then have "strip_suffix ''p'' s = Some core" by (simp add: strip_suffix_Some_iff)
  with valid consider n where "split_on (CHR '','') core = [n]" "all_digits n"
    | a b where "split_on (CHR '','') core = [a, b]" "all_digits a" "all_digits b"
    by (auto simp: is_valid_sed_n_arg_def split: list.splits)
  then show "(\<exists>n. all_digits n \<and> s = n @ ''p'') \<or>
     (\<exists>a b. all_digits a \<and> all_digits b \<and> s = a @ '','' @ b @ ''p'')"
  proof cases
    case 1
    then show ?thesis using join_split_on [of "CHR '',''" core] s by auto
  next
    case 2
    then show ?thesis using join_split_on [of "CHR '',''" core] s by auto
  qed
next
  assume "(\<exists>n. all_digits n \<and> s = n @ ''p'') \<or>
     (\<exists>a b. all_digits a \<and> all_digits b \<and> s = a @ '','' @ b @ ''p'')"
  then consider n where "all_digits n" "s = n @ ''p''"
    | a b where "all_digits a" "all_digits b" "s = (a @ CHR '','' # b) @ ''p''"
    by auto
  then show "is_valid_sed_n_arg (Some s)"
  proof cases
    case (1 n)
    then have "strip_suffix ''p'' s = Some n" by (simp add: strip_suffix_Some_iff)
    then show ?thesis
      using 1 by (simp add: is_valid_sed_n_arg_def split_on_no_sep comma_not_digit)
  next
    case (2 a b)
    then have "strip_suffix ''p'' s = Some (a @ CHR '','' # b)" by (simp add: strip_suffix_Some_iff)
    then show ?thesis
      using 2 by (simp add: is_valid_sed_n_arg_def split_on_append split_on_no_sep comma_not_digit)
  qed
qed

section \<open>Witnesses\<close>

lemma sample_grammar: "bash_grammar (\<lambda>_. Some sample_tree)"
proof -
  have "name_first (sample_command_node a b)" for a b
    unfolding name_first_def
    by (rule exI [of _ "[]"]) (simp add: sample_command_node_def named_children_def)
  moreover have "list_all (\<lambda>n. nd_kind n = ''command'' \<longrightarrow>
      n = sample_command_node 0 2 \<or> n = sample_command_node 4 7) (subnodes (root_node sample_tree))"
    by (simp add: sample_tree_def sample_command_node_def)
  ultimately show ?thesis
    unfolding bash_grammar_def list_all_iff by fastforce
qed

lemma sample_known_safe:
  "is_known_safe_command (\<lambda>_. Some sample_tree) [''bash'', ''-lc'', ''ls; pwd'']"
proof -
  have plain: "parse_shell_lc_plain_commands (\<lambda>_. Some sample_tree) [''bash'', ''-lc'', ''ls; pwd''] =
      Some [[''ls''], [''pwd'']]"
    by (simp add: parse_shell_lc_plain_commands_def extract_bash_command_def detect_shell_type.simps
        parse_shell_script_into_commands_def sample_tree_commands)
  have exec: "executable_name_lookup_key ''ls'' = Some ''ls''" "executable_name_lookup_key ''pwd'' = Some ''pwd''"
    by (simp_all add: executable_name_lookup_key_def path_eval)
  show ?thesis
    by (simp add: is_known_safe_command_def zsh_as_bash_def plain is_safe_to_call_with_exec_def [of "[_]"]
        exec always_safe_programs_def)
qed

theorem known_safe_not_dangerous_witness:
  "dangerous_command_match (\<lambda>_. Some sample_tree) [''bash'', ''-lc'', ''ls; pwd''] = None"
  by (rule known_safe_not_dangerous [OF sample_known_safe sample_grammar]) simp

theorem safe_git_command_shape_witness:
  "is_safe_git_command [''git'', ''status''] \<and>
   (\<exists>git globals sub args. [''git'', ''status''] = git # globals @ sub # args \<and>
      sub \<in> {''status'', ''log'', ''diff'', ''show'', ''branch''})"
proof -
  have safe: "is_safe_git_command [''git'', ''status'']"
    by (simp add: is_safe_git_command_def find_git_subcommand_def executable_name_lookup_key_def
        path_eval is_git_global_option_with_inline_value_def is_git_global_option_with_value_def
        git_has_unsafe_global_option_def git_subcommand_args_are_read_only_def)
  show ?thesis
    using safe safe_git_command_shape [OF safe]
    by (elim exE conjE) (intro conjI exI, assumption+)
qed

end
