(* ===== verification/Permissions.thy ===== *)
theory Permissions
  imports Unix_Path
begin

text \<open>
  The permission types that decide how a command runs: the sandbox policy of the file system and
  the permission profile of \<^verbatim>\<open>codex-rs/protocol/src/permissions.rs\<close> and
  \<^verbatim>\<open>models.rs\<close>, and the approval policy of \<^verbatim>\<open>protocol.rs\<close>.
\<close>

datatype network_sandbox_policy = NetRestricted | NetEnabled

datatype access_mode = Read | Write | Deny

datatype special_path =
    RootPath
  | Minimal
  | ProjectRoots "string option"
  | Tmpdir
  | SlashTmp
  | UnknownPath string "string option"

datatype fs_path = FsPath abs_path | GlobPattern string | Special special_path

datatype missing_path_behavior = SkipMissing

record sandbox_entry =
  en_path :: fs_path
  en_access :: access_mode
  en_missing :: "missing_path_behavior option"

datatype fs_sandbox_kind = Restricted | Unrestricted | ExternalSandbox

record fs_sandbox_policy =
  fs_kind :: fs_sandbox_kind
  fs_glob_scan_max_depth :: "nat option"
  fs_entries :: "sandbox_entry list"

definition unrestricted :: fs_sandbox_policy where
  "unrestricted = \<lparr>fs_kind = Unrestricted, fs_glob_scan_max_depth = None, fs_entries = []\<rparr>"

definition external_sandbox :: fs_sandbox_policy where
  "external_sandbox = \<lparr>fs_kind = ExternalSandbox, fs_glob_scan_max_depth = None, fs_entries = []\<rparr>"

definition has_denied_read_restrictions :: "fs_sandbox_policy \<Rightarrow> bool" where
  "has_denied_read_restrictions p =
     (fs_kind p = Restricted \<and> list_ex (\<lambda>e. en_access e = Deny) (fs_entries p))"

section \<open>Permission profiles\<close>

text \<open>A scan depth of a managed profile is a \<^verbatim>\<open>NonZeroUsize\<close>.\<close>

datatype managed_fs_permissions = ManagedRestricted "sandbox_entry list" "nat option" | ManagedUnrestricted

datatype permission_profile =
    Managed managed_fs_permissions network_sandbox_policy
  | Disabled
  | External network_sandbox_policy

datatype sandbox_enforcement = EnforceManaged | EnforceDisabled | EnforceExternal

fun to_sandbox_policy :: "managed_fs_permissions \<Rightarrow> fs_sandbox_policy" where
  "to_sandbox_policy (ManagedRestricted entries depth) =
     \<lparr>fs_kind = Restricted, fs_glob_scan_max_depth = depth, fs_entries = entries\<rparr>"
| "to_sandbox_policy ManagedUnrestricted = unrestricted"

text \<open>\<^verbatim>\<open>from_sandbox_policy\<close>; \<open>None\<close> is the branch the code declares unreachable.\<close>

definition from_sandbox_policy :: "fs_sandbox_policy \<Rightarrow> managed_fs_permissions option" where
  "from_sandbox_policy p =
     (case fs_kind p of
        Restricted \<Rightarrow>
          Some (ManagedRestricted (fs_entries p)
            (case fs_glob_scan_max_depth p of
               None \<Rightarrow> None
             | Some n \<Rightarrow> if n = 0 then None else Some n))
      | Unrestricted \<Rightarrow> Some ManagedUnrestricted
      | ExternalSandbox \<Rightarrow> None)"

definition from_runtime_permissions_with_enforcement ::
  "sandbox_enforcement \<Rightarrow> fs_sandbox_policy \<Rightarrow> network_sandbox_policy \<Rightarrow> permission_profile option" where
  "from_runtime_permissions_with_enforcement enforcement p net =
     (case fs_kind p of
        ExternalSandbox \<Rightarrow> Some (External net)
      | Unrestricted \<Rightarrow>
          (if enforcement = EnforceDisabled then Some Disabled
           else map_option (\<lambda>m. Managed m net) (from_sandbox_policy p))
      | Restricted \<Rightarrow> map_option (\<lambda>m. Managed m net) (from_sandbox_policy p))"

definition from_runtime_permissions ::
  "fs_sandbox_policy \<Rightarrow> network_sandbox_policy \<Rightarrow> permission_profile option" where
  "from_runtime_permissions p net =
     from_runtime_permissions_with_enforcement
       (case fs_kind p of ExternalSandbox \<Rightarrow> EnforceExternal | _ \<Rightarrow> EnforceManaged) p net"

fun file_system_sandbox_policy :: "permission_profile \<Rightarrow> fs_sandbox_policy" where
  "file_system_sandbox_policy (Managed m _) = to_sandbox_policy m"
| "file_system_sandbox_policy Disabled = unrestricted"
| "file_system_sandbox_policy (External _) = external_sandbox"

fun network_sandbox_policy_of :: "permission_profile \<Rightarrow> network_sandbox_policy" where
  "network_sandbox_policy_of (Managed _ net) = net"
| "network_sandbox_policy_of (External net) = net"
| "network_sandbox_policy_of Disabled = NetEnabled"

section \<open>Approval policies\<close>

record granular_approval_config =
  sandbox_approval :: bool
  rules_approval :: bool
  skill_approval :: bool
  request_permissions :: bool
  mcp_elicitations :: bool

datatype ask_for_approval = UnlessTrusted | OnRequest | Granular granular_approval_config | Never

datatype sandbox_permissions = UseDefault | RequireEscalated | WithAdditionalPermissions

definition requires_escalated_permissions :: "sandbox_permissions \<Rightarrow> bool" where
  "requires_escalated_permissions p = (p = RequireEscalated)"

definition requests_sandbox_override :: "sandbox_permissions \<Rightarrow> bool" where
  "requests_sandbox_override p = (p \<noteq> UseDefault)"

section \<open>Round trip of runtime permissions\<close>

text \<open>The scan depth that a managed profile can represent.\<close>

definition runtime_policy_ok :: "fs_sandbox_policy \<Rightarrow> bool" where
  "runtime_policy_ok p \<longleftrightarrow>
     (case fs_kind p of
        Restricted \<Rightarrow> fs_glob_scan_max_depth p \<noteq> Some 0
      | _ \<Rightarrow> fs_glob_scan_max_depth p = None \<and> fs_entries p = [])"

text \<open>
  A permission profile stands for the runtime permissions it was made of: making the profile
  never reaches the branch declared unreachable, and reading back its file system and network
  policy gives what it was made of, unless the file system is unrestricted and the sandbox is
  disabled, when the network is always enabled.
\<close>

theorem permission_profile_roundtrip:
  assumes "runtime_policy_ok p"
  shows "\<exists>profile. from_runtime_permissions_with_enforcement enforcement p net = Some profile \<and>
    file_system_sandbox_policy profile = p \<and>
    network_sandbox_policy_of profile =
      (if fs_kind p = Unrestricted \<and> enforcement = EnforceDisabled then NetEnabled else net)"
  using assms
  by (cases "fs_kind p"; cases p)
    (auto simp: from_runtime_permissions_with_enforcement_def from_sandbox_policy_def
      unrestricted_def external_sandbox_def runtime_policy_ok_def split: option.splits)

theorem permission_profile_roundtrip_witness:
  "\<exists>profile. from_runtime_permissions_with_enforcement EnforceManaged unrestricted NetRestricted =
     Some profile \<and> network_sandbox_policy_of profile = NetRestricted"
  using permission_profile_roundtrip [of unrestricted EnforceManaged NetRestricted]
  by (auto simp: runtime_policy_ok_def unrestricted_def)

end
