(* ===== verification/Exec_Approval.thy ===== *)
theory Exec_Approval
  imports Amend Shell_Safety Permissions
begin

text \<open>
  The decision how a command may run: \<^verbatim>\<open>codex-rs/core/src/exec_policy.rs\<close> and the sandbox
  override of \<^verbatim>\<open>core/src/tools/sandboxing.rs\<close>. The parser of shell scripts and the renderer
  of \<^verbatim>\<open>shlex\<close> are parameters, collected with the process environment in the record
  \<open>approval_env\<close>. An evaluation that panics makes the result \<open>None\<close>.
\<close>

section \<open>Constants\<close>

definition prompt_conflict_reason :: string where
  "prompt_conflict_reason = ''approval required by policy, but AskForApproval is set to Never''"

definition reject_sandbox_approval_reason :: string where
  "reject_sandbox_approval_reason =
     ''approval required by policy, but AskForApproval::Granular.sandbox_approval is false''"

definition reject_rules_approval_reason :: string where
  "reject_rules_approval_reason =
     ''approval required by policy rule, but AskForApproval::Granular.rules is false''"

definition banned_prefix_suggestions :: "command list" where
  "banned_prefix_suggestions =
     [[''/bin/bash''], [''/bin/bash'', ''-c''], [''/bin/bash'', ''-lc''],
      [''/bin/sh''], [''/bin/sh'', ''-c''], [''/bin/sh'', ''-lc''],
      [''/bin/zsh''], [''/bin/zsh'', ''-c''], [''/bin/zsh'', ''-lc''],
      [''Rscript''], [''bash''], [''bash'', ''-c''], [''bash'', ''-lc''],
      [''bun''], [''bun'', ''-e''], [''bun'', ''run''],
      [''cmd''], [''cmd'', ''/c''], [''cmd'', ''/k''],
      [''cmd.exe''], [''cmd.exe'', ''/c''], [''cmd.exe'', ''/k''],
      [''dash''], [''dash'', ''-c''], [''deno''], [''deno'', ''eval''], [''env''],
      [''fish''], [''fish'', ''-c''], [''git''], [''julia''], [''julia'', ''-e''],
      [''ksh''], [''ksh'', ''-c''], [''lua''], [''lua'', ''-e''],
      [''node''], [''node'', ''-e''], [''nodejs''], [''nodejs'', ''-e''], [''npm'', ''run''],
      [''osascript''], [''perl''], [''perl'', ''-e''], [''php''], [''php'', ''-r''],
      [''pnpm'', ''run''], [''powershell''], [''powershell'', ''-Command''],
      [''powershell'', ''-EncodedCommand''], [''powershell'', ''-File''], [''powershell'', ''-c''],
      [''powershell.exe''], [''powershell.exe'', ''-Command''],
      [''powershell.exe'', ''-EncodedCommand''], [''powershell.exe'', ''-File''],
      [''powershell.exe'', ''-c''], [''pwsh''], [''pwsh'', ''-Command''],
      [''pwsh'', ''-EncodedCommand''], [''pwsh'', ''-File''], [''pwsh'', ''-c''],
      [''pwsh'', ''-e''], [''pwsh'', ''-ec''], [''pwsh'', ''-f''], [''py''], [''py'', ''-3''],
      [''pypy''], [''pypy3''], [''python''], [''python'', ''-''], [''python'', ''-c''],
      [''python3''], [''python3'', ''-''], [''python3'', ''-c''], [''pythonw''], [''pyw''],
      [''rm''], [''ruby''], [''ruby'', ''-e''], [''sh''], [''sh'', ''-c''], [''sh'', ''-lc''],
      [''sudo''], [''yarn'', ''run''], [''zsh''], [''zsh'', ''-c''], [''zsh'', ''-lc'']]"

section \<open>Requests and requirements\<close>

record approval_env =
  env_host :: host
  env_parser :: shell_parser
  env_try_join :: "command \<Rightarrow> string option"

type_synonym exec_policy_amendment = command

datatype exec_approval_requirement =
    Skip bool "exec_policy_amendment option"
  | NeedsApproval "string option" "exec_policy_amendment option"
  | ReqForbidden string

record exec_approval_request =
  req_command :: command
  req_approval_policy :: ask_for_approval
  req_permission_profile :: permission_profile
  req_sandbox_permissions :: sandbox_permissions
  req_prefix_rule :: "command option"

record unmatched_context =
  uc_approval_policy :: ask_for_approval
  uc_permission_profile :: permission_profile
  uc_sandbox_permissions :: sandbox_permissions
  uc_used_complex_parsing :: bool

fun is_policy_match :: "rule_match \<Rightarrow> bool" where
  "is_policy_match (PrefixRuleMatch _ _ _ _) = True"
| "is_policy_match (HeuristicsRuleMatch _ _) = False"

definition prompt_is_rejected_by_policy :: "ask_for_approval \<Rightarrow> bool \<Rightarrow> string option" where
  "prompt_is_rejected_by_policy approval_policy prompt_is_rule =
     (case approval_policy of
        Never \<Rightarrow> Some prompt_conflict_reason
      | OnRequest \<Rightarrow> None
      | UnlessTrusted \<Rightarrow> None
      | Granular config \<Rightarrow>
          (if prompt_is_rule then
             (if \<not> rules_approval config then Some reject_rules_approval_reason else None)
           else if \<not> sandbox_approval config then Some reject_sandbox_approval_reason
           else None))"

definition dangerous_command_match_for_heuristics ::
  "shell_parser \<Rightarrow> evaluation \<Rightarrow> decision \<Rightarrow> dangerous_command_match option" where
  "dangerous_command_match_for_heuristics parser ev d =
     find_map (\<lambda>m. case m of
         HeuristicsRuleMatch command matched_decision \<Rightarrow>
           (if matched_decision = d then dangerous_command_match parser command else None)
       | _ \<Rightarrow> None) (matched_rules ev)"

text \<open>
  The decision for a command no rule matches. The test for a missing Windows sandbox is false in
  this build.
\<close>

definition render_decision_for_unmatched_command ::
  "shell_parser \<Rightarrow> unmatched_context \<Rightarrow> command \<Rightarrow> decision" where
  "render_decision_for_unmatched_command parser ctx command =
     (let dangerous = dangerous_command_match parser command;
          kind = fs_kind (file_system_sandbox_policy (uc_permission_profile ctx));
          is_known_safe = is_known_safe_command parser command
      in if is_known_safe \<and> \<not> uc_used_complex_parsing ctx \<and> uc_approval_policy ctx = UnlessTrusted
         then Allow
         else if dangerous \<noteq> None
         then (case uc_approval_policy ctx of Never \<Rightarrow> Forbidden | _ \<Rightarrow> Prompt)
         else (case uc_approval_policy ctx of
                 Never \<Rightarrow> Allow
               | UnlessTrusted \<Rightarrow> Prompt
               | _ \<Rightarrow>
                   (case kind of
                      Restricted \<Rightarrow>
                        (if requests_sandbox_override (uc_sandbox_permissions ctx) then Prompt else Allow)
                    | _ \<Rightarrow> Allow)))"

definition commands_for_exec_policy :: "shell_parser \<Rightarrow> command \<Rightarrow> command list \<times> bool" where
  "commands_for_exec_policy parser command =
     (case parse_shell_lc_plain_commands parser command of
        Some (c # cs) \<Rightarrow> (c # cs, False)
      | _ \<Rightarrow>
          (case parse_shell_lc_single_command_prefix parser command of
             Some single_command \<Rightarrow> ([single_command], True)
           | None \<Rightarrow> ([command], False)))"

section \<open>Proposed amendments\<close>

definition try_derive_execpolicy_amendment_for_prompt_rules ::
  "rule_match list \<Rightarrow> exec_policy_amendment option" where
  "try_derive_execpolicy_amendment_for_prompt_rules ms =
     (if list_ex (\<lambda>m. is_policy_match m \<and> match_decision m = Prompt) ms then None
      else find_map (\<lambda>m. case m of
               HeuristicsRuleMatch command d \<Rightarrow> if d = Prompt then Some command else None
             | _ \<Rightarrow> None) ms)"

definition try_derive_execpolicy_amendment_for_allow_rules ::
  "rule_match list \<Rightarrow> exec_policy_amendment option" where
  "try_derive_execpolicy_amendment_for_allow_rules ms =
     (if list_ex is_policy_match ms then None
      else find_map (\<lambda>m. case m of
               HeuristicsRuleMatch command d \<Rightarrow> if d = Allow then Some command else None
             | _ \<Rightarrow> None) ms)"

definition prefix_rule_would_approve_all_commands ::
  "host \<Rightarrow> policy \<Rightarrow> command \<Rightarrow> command list \<Rightarrow> (command \<Rightarrow> decision) \<Rightarrow> match_options \<Rightarrow> bool" where
  "prefix_rule_would_approve_all_commands h p pre commands fallback opts =
     (case add_prefix_rule p pre Allow of
        Inl _ \<Rightarrow> False
      | Inr p' \<Rightarrow>
          list_all (\<lambda>c. map_option eval_decision (check_with_options h p' c fallback opts) = Some Allow)
            commands)"

definition derive_requested_execpolicy_amendment_from_prefix_rule ::
  "host \<Rightarrow> command option \<Rightarrow> rule_match list \<Rightarrow> policy \<Rightarrow> command list \<Rightarrow> (command \<Rightarrow> decision) \<Rightarrow>
   match_options \<Rightarrow> exec_policy_amendment option" where
  "derive_requested_execpolicy_amendment_from_prefix_rule h prefix_rule ms p commands fallback opts =
     (case prefix_rule of
        None \<Rightarrow> None
      | Some pre \<Rightarrow>
          (if pre = [] then None
           else if pre \<in> set banned_prefix_suggestions then None
           else if list_ex is_policy_match ms then None
           else if prefix_rule_would_approve_all_commands h p pre commands fallback opts
           then Some pre else None))"

section \<open>Reasons\<close>

definition render_shlex_command :: "(command \<Rightarrow> string option) \<Rightarrow> command \<Rightarrow> string" where
  "render_shlex_command try_join args =
     (case try_join args of Some s \<Rightarrow> s | None \<Rightarrow> join '' '' args)"

definition rule_matches_with :: "decision \<Rightarrow> rule_match list \<Rightarrow> (command \<times> string option) list" where
  "rule_matches_with d ms =
     filter_map (\<lambda>m. case m of
         PrefixRuleMatch matched_prefix d' _ justification \<Rightarrow>
           (if d' = d then Some (matched_prefix, justification) else None)
       | _ \<Rightarrow> None) ms"

definition derive_prompt_reason ::
  "(command \<Rightarrow> string option) \<Rightarrow> command \<Rightarrow> evaluation \<Rightarrow> string option" where
  "derive_prompt_reason try_join command_args ev =
     (let command = render_shlex_command try_join command_args
      in case max_by_key (\<lambda>(n, _). n)
                (map (\<lambda>(mp, just). (length mp, just)) (rule_matches_with Prompt (matched_rules ev))) of
           Some (_, Some justification) \<Rightarrow>
             Some (''`'' @ command @ ''` requires approval: '' @ justification)
         | Some (_, None) \<Rightarrow> Some (''`'' @ command @ ''` requires approval by policy'')
         | None \<Rightarrow> None)"

fun dangerous_command_rejection_reason :: "dangerous_command_match \<Rightarrow> string" where
  "dangerous_command_rejection_reason ForcedRm =
     ''rm -f style commands are not permitted. Use a safer approach''"
| "dangerous_command_rejection_reason OtherDanger = ''blocked by policy''"

definition derive_forbidden_reason ::
  "(command \<Rightarrow> string option) \<Rightarrow> command \<Rightarrow> evaluation \<Rightarrow> dangerous_command_match option \<Rightarrow> string" where
  "derive_forbidden_reason try_join command_args ev dangerous =
     (let command = render_shlex_command try_join command_args
      in case max_by_key (\<lambda>(mp, _). length mp) (rule_matches_with Forbidden (matched_rules ev)) of
           Some (_, Some justification) \<Rightarrow> ''`'' @ command @ ''` rejected: '' @ justification
         | Some (matched_prefix, None) \<Rightarrow>
             ''`'' @ command @ ''` rejected: policy forbids commands starting with `'' @
             render_shlex_command try_join matched_prefix @ ''`''
         | None \<Rightarrow>
             (case dangerous of
                Some m \<Rightarrow> ''`'' @ command @ ''` rejected: '' @ dangerous_command_rejection_reason m
              | None \<Rightarrow> ''`'' @ command @ ''` rejected: blocked by policy''))"

definition derive_rejected_prompt_reason :: "string \<Rightarrow> dangerous_command_match option \<Rightarrow> string" where
  "derive_rejected_prompt_reason fallback_reason dangerous =
     (if dangerous = Some ForcedRm then dangerous_command_rejection_reason ForcedRm
      else fallback_reason)"

section \<open>The requirement for a command\<close>

definition request_fallback :: "shell_parser \<Rightarrow> exec_approval_request \<Rightarrow> bool \<Rightarrow> command \<Rightarrow> decision" where
  "request_fallback parser req used_complex_parsing =
     render_decision_for_unmatched_command parser
       \<lparr>uc_approval_policy = req_approval_policy req,
        uc_permission_profile = req_permission_profile req,
        uc_sandbox_permissions = req_sandbox_permissions req,
        uc_used_complex_parsing = used_complex_parsing\<rparr>"

definition requirement_for_evaluation ::
  "approval_env \<Rightarrow> policy \<Rightarrow> exec_approval_request \<Rightarrow> command list \<Rightarrow> bool \<Rightarrow> evaluation \<Rightarrow>
   exec_approval_requirement" where
  "requirement_for_evaluation env p req commands used_complex_parsing ev =
     (let h = env_host env; parser = env_parser env; try_join = env_try_join env;
          fallback = request_fallback parser req used_complex_parsing;
          requested_amendment =
            (if \<not> used_complex_parsing
             then derive_requested_execpolicy_amendment_from_prefix_rule h (req_prefix_rule req)
                    (matched_rules ev) p commands fallback resolving
             else None)
      in case eval_decision ev of
           Forbidden \<Rightarrow>
             ReqForbidden (derive_forbidden_reason try_join (req_command req) ev
               (dangerous_command_match_for_heuristics parser ev Forbidden))
         | Prompt \<Rightarrow>
             (let prompt_is_rule =
                    list_ex (\<lambda>m. is_policy_match m \<and> match_decision m = Prompt) (matched_rules ev)
              in case prompt_is_rejected_by_policy (req_approval_policy req) prompt_is_rule of
                   Some reason \<Rightarrow>
                     (if prompt_is_rule then ReqForbidden reason
                      else ReqForbidden (derive_rejected_prompt_reason reason
                             (dangerous_command_match_for_heuristics parser ev Prompt)))
                 | None \<Rightarrow>
                     NeedsApproval (derive_prompt_reason try_join (req_command req) ev)
                       (case requested_amendment of
                          Some a \<Rightarrow> Some a
                        | None \<Rightarrow>
                            (if \<not> used_complex_parsing
                             then try_derive_execpolicy_amendment_for_prompt_rules (matched_rules ev)
                             else None)))
         | Allow \<Rightarrow>
             Skip
               (list_all (\<lambda>c. list_ex (\<lambda>m. is_policy_match m \<and> match_decision m = Allow)
                    (matches_for_command_with_options h p c None resolving)) commands)
               (if \<not> used_complex_parsing
                then try_derive_execpolicy_amendment_for_allow_rules (matched_rules ev) else None))"

definition create_exec_approval_requirement_for_command ::
  "approval_env \<Rightarrow> policy \<Rightarrow> exec_approval_request \<Rightarrow> exec_approval_requirement option" where
  "create_exec_approval_requirement_for_command env p req =
     (let (commands, used_complex_parsing) = commands_for_exec_policy (env_parser env) (req_command req)
      in map_option (requirement_for_evaluation env p req commands used_complex_parsing)
           (check_multiple_with_options (env_host env) p commands
             (request_fallback (env_parser env) req used_complex_parsing) resolving))"

section \<open>Sandbox overrides\<close>

definition default_exec_approval_requirement ::
  "ask_for_approval \<Rightarrow> fs_sandbox_policy \<Rightarrow> exec_approval_requirement" where
  "default_exec_approval_requirement approval fs =
     (let needs_approval =
            (case approval of
               Never \<Rightarrow> False
             | OnRequest \<Rightarrow> fs_kind fs = Restricted
             | Granular _ \<Rightarrow> fs_kind fs = Restricted
             | UnlessTrusted \<Rightarrow> True)
      in if needs_approval \<and>
            (case approval of Granular config \<Rightarrow> \<not> sandbox_approval config | _ \<Rightarrow> False)
         then ReqForbidden ''approval policy disallowed sandbox approval prompt''
         else if needs_approval then NeedsApproval None None
         else Skip False None)"

datatype sandbox_override = NoOverride | BypassSandboxFirstAttempt

definition unsandboxed_execution_allowed :: "fs_sandbox_policy \<Rightarrow> bool" where
  "unsandboxed_execution_allowed fs = (\<not> has_denied_read_restrictions fs)"

definition sandbox_override_for_first_attempt ::
  "sandbox_permissions \<Rightarrow> exec_approval_requirement \<Rightarrow> fs_sandbox_policy \<Rightarrow> sandbox_override" where
  "sandbox_override_for_first_attempt perms req fs =
     (if \<not> unsandboxed_execution_allowed fs then NoOverride
      else if (case req of Skip bypass _ \<Rightarrow> bypass | _ \<Rightarrow> False) then BypassSandboxFirstAttempt
      else if requires_escalated_permissions perms then BypassSandboxFirstAttempt
      else NoOverride)"

definition sandbox_permissions_preserving_denied_reads ::
  "sandbox_permissions \<Rightarrow> fs_sandbox_policy \<Rightarrow> sandbox_permissions" where
  "sandbox_permissions_preserving_denied_reads perms fs =
     (if requires_escalated_permissions perms \<and> \<not> unsandboxed_execution_allowed fs
      then UseDefault else perms)"

section \<open>From an evaluation to a requirement\<close>

lemma rule_match_is_policy_match: "rule_matches r cmd = Some m \<Longrightarrow> is_policy_match m"
  by (auto simp: rule_matches_iff)

lemma with_resolved_is_policy_match: "is_policy_match m \<Longrightarrow> is_policy_match (with_resolved_program m prog)"
  by (cases m) auto

lemma rules_are_policy_matches:
  assumes "m \<in> set (matches_for_command_with_options h p c None opts)"
  shows "is_policy_match m"
  using matches_None_cases [OF assms]
proof
  assume "\<exists>ms. match_exact_rules p c = Some ms \<and> m \<in> set ms"
  then obtain r where "rule_matches r c = Some m"
    by (cases "mm_get (rules_by_program p) (hd c)"; cases c)
      (auto simp: match_exact_rules_def in_set_filter_map)
  then show ?thesis by (rule rule_match_is_policy_match)
next
  assume "m \<in> set (match_host_executable_rules h p c)"
  then show ?thesis
    by (auto simp: match_host_executable_rules_def in_set_filter_map
        intro!: with_resolved_is_policy_match intro: rule_match_is_policy_match
        split: list.splits sum.splits option.splits if_splits)
      (rule rule_match_is_policy_match)
qed

lemma commands_for_exec_policy_nonempty:
  "commands_for_exec_policy parser command = (cmds, complex) \<Longrightarrow> cmds \<noteq> []"
  by (auto simp: commands_for_exec_policy_def split: option.splits list.splits)

lemma matches_with_fallback:
  "matches_for_command_with_options h p c None opts \<noteq> [] \<Longrightarrow>
   matches_for_command_with_options h p c (Some f) opts = matches_for_command_with_options h p c None opts"
  by (auto simp: matches_for_command_with_options_def Let_def)

lemma matches_fallback_only:
  "matches_for_command_with_options h p c None opts = [] \<Longrightarrow>
   matches_for_command_with_options h p c (Some f) opts = [HeuristicsRuleMatch c (f c)]"
  by (auto simp: matches_for_command_with_options_def Let_def)

lemma Forbidden_le_iff [simp]: "Forbidden \<le> d \<longleftrightarrow> d = Forbidden"
  by (cases d) (simp_all add: less_eq_decision_def)

lemma le_Allow_iff [simp]: "d \<le> Allow \<longleftrightarrow> d = Allow"
  by (cases d) (simp_all add: less_eq_decision_def)

lemma Allow_le [simp]: "Allow \<le> d"
  by (cases d) (simp_all add: less_eq_decision_def)

lemma Prompt_le_iff: "Prompt \<le> d \<longleftrightarrow> d \<noteq> Allow"
  by (cases d) (simp_all add: less_eq_decision_def)

lemma check_multiple_le_iff:
  "check_multiple_with_options h p cmds f opts = Some ev \<Longrightarrow>
   d \<le> eval_decision ev \<longleftrightarrow>
     (\<exists>c \<in> set cmds. \<exists>m \<in> set (matches_for_command_with_options h p c (Some f) opts). d \<le> match_decision m)"
  unfolding check_multiple_with_options_def by (drule from_matches_le_iff [of _ _ d]) auto

lemma check_multiple_matched:
  "check_multiple_with_options h p cmds f opts = Some ev \<Longrightarrow>
   set (matched_rules ev) = (\<Union>c \<in> set cmds. set (matches_for_command_with_options h p c (Some f) opts))"
  unfolding check_multiple_with_options_def by (auto simp: from_matches_Some_iff)

lemma check_multiple_defined:
  "cmds \<noteq> [] \<Longrightarrow> \<exists>ev. check_multiple_with_options h p cmds f opts = Some ev"
  using from_matches_None_iff [of "concat (map (\<lambda>c. matches_for_command_with_options h p c (Some f) opts) cmds)"]
  by (cases "check_multiple_with_options h p cmds f opts"; cases cmds)
    (simp_all add: check_multiple_with_options_def)

text \<open>The segments of a request and what it is evaluated to.\<close>

lemma requirement_cases:
  assumes "create_exec_approval_requirement_for_command env p req = r"
  obtains cmds complex ev where
    "commands_for_exec_policy (env_parser env) (req_command req) = (cmds, complex)"
    and "check_multiple_with_options (env_host env) p cmds
           (request_fallback (env_parser env) req complex) resolving = Some ev"
    and "r = Some (requirement_for_evaluation env p req cmds complex ev)"
proof -
  obtain cmds complex where cmds:
    "commands_for_exec_policy (env_parser env) (req_command req) = (cmds, complex)"
    by (cases "commands_for_exec_policy (env_parser env) (req_command req)")
  then obtain ev where "check_multiple_with_options (env_host env) p cmds
      (request_fallback (env_parser env) req complex) resolving = Some ev"
    using check_multiple_defined commands_for_exec_policy_nonempty by blast
  then show ?thesis
    using that [OF cmds] assms cmds by (auto simp: create_exec_approval_requirement_for_command_def)
qed

text \<open>The decision of the evaluation, read off the requirement.\<close>

lemma requirement_Skip_iff:
  "(\<exists>b a. requirement_for_evaluation env p req cmds complex ev = Skip b a) \<longleftrightarrow> eval_decision ev = Allow"
  by (cases "eval_decision ev")
    (auto simp: requirement_for_evaluation_def Let_def split: option.splits)

lemma requirement_Forbidden:
  "eval_decision ev = Forbidden \<Longrightarrow>
   \<exists>reason. requirement_for_evaluation env p req cmds complex ev = ReqForbidden reason"
  by (auto simp: requirement_for_evaluation_def Let_def)

text \<open>
  C1: A forbidding rule cannot be bypassed: if any rule that matches a segment of the command,
  after shell scripts are split, forbids it, then the command is forbidden, whatever the approval
  policy and the permissions are.
\<close>

theorem forbidding_rule_forbids:
  assumes "commands_for_exec_policy (env_parser env) (req_command req) = (cmds, complex)"
    and "c \<in> set cmds"
    and "m \<in> set (matches_for_command_with_options (env_host env) p c None resolving)"
    and "match_decision m = Forbidden"
  shows "\<exists>reason. create_exec_approval_requirement_for_command env p req = Some (ReqForbidden reason)"
proof -
  obtain ev where ev: "check_multiple_with_options (env_host env) p cmds
      (request_fallback (env_parser env) req complex) resolving = Some ev"
    and r: "create_exec_approval_requirement_for_command env p req =
      Some (requirement_for_evaluation env p req cmds complex ev)"
    using requirement_cases [where env = env and p = p and req = req, OF refl] assms(1) by (metis prod.inject)
  have "m \<in> set (matches_for_command_with_options (env_host env) p c
      (Some (request_fallback (env_parser env) req complex)) resolving)"
    using assms(3) matches_with_fallback [of "env_host env" p c resolving] by (metis empty_iff empty_set)
  then have "Forbidden \<le> eval_decision ev"
    using check_multiple_le_iff [OF ev, of Forbidden] assms(2,4) by auto
  then show ?thesis
    using r requirement_Forbidden by auto
qed

lemma skip_bypass_needs_rules:
  assumes "create_exec_approval_requirement_for_command env p req = Some (Skip True amendment)"
    and "commands_for_exec_policy (env_parser env) (req_command req) = (cmds, complex)"
    and "c \<in> set cmds"
  shows "matches_for_command_with_options (env_host env) p c None resolving \<noteq> [] \<and>
    (\<forall>m \<in> set (matches_for_command_with_options (env_host env) p c None resolving).
       is_policy_match m \<and> match_decision m = Allow)"
proof -
  let ?ms = "matches_for_command_with_options (env_host env) p c None resolving"
  obtain ev where ev: "check_multiple_with_options (env_host env) p cmds
      (request_fallback (env_parser env) req complex) resolving = Some ev"
    and skip: "requirement_for_evaluation env p req cmds complex ev = Skip True amendment"
    using requirement_cases [OF assms(1)] assms(2) by (metis option.inject prod.inject)
  then have allow: "eval_decision ev = Allow"
    using requirement_Skip_iff by blast
  then have "list_ex (\<lambda>m. is_policy_match m \<and> match_decision m = Allow) ?ms"
    using skip assms(3) by (auto simp: requirement_for_evaluation_def Let_def list_all_iff)
  then have "?ms \<noteq> []" by auto
  moreover have "match_decision m = Allow" if "m \<in> set ?ms" for m
    using check_multiple_le_iff [OF ev, of Prompt] allow assms(3) that
      matches_with_fallback [OF \<open>?ms \<noteq> []\<close>] by (auto simp: Prompt_le_iff)
  ultimately show ?thesis using rules_are_policy_matches by blast
qed

text \<open>
  C2: The first attempt at a command leaves the sandbox only for a reason: no reads are denied by
  the active profile, and either the command itself asked for escalation or every segment of it
  is matched by rules all of which allow it.
\<close>

theorem unsandboxed_first_attempt_justified:
  assumes "create_exec_approval_requirement_for_command env p req = Some r"
    and "sandbox_override_for_first_attempt (req_sandbox_permissions req) r
           (file_system_sandbox_policy (req_permission_profile req)) = BypassSandboxFirstAttempt"
    and "commands_for_exec_policy (env_parser env) (req_command req) = (cmds, complex)"
  shows "\<not> has_denied_read_restrictions (file_system_sandbox_policy (req_permission_profile req)) \<and>
    (req_sandbox_permissions req = RequireEscalated \<or>
     (\<forall>c \<in> set cmds. matches_for_command_with_options (env_host env) p c None resolving \<noteq> [] \<and>
        (\<forall>m \<in> set (matches_for_command_with_options (env_host env) p c None resolving).
           is_policy_match m \<and> match_decision m = Allow)))"
proof -
  let ?fs = "file_system_sandbox_policy (req_permission_profile req)"
  have fs: "\<not> has_denied_read_restrictions ?fs"
    and r: "(\<exists>a. r = Skip True a) \<or> req_sandbox_permissions req = RequireEscalated"
    using assms(2) by (auto simp: sandbox_override_for_first_attempt_def unsandboxed_execution_allowed_def
        requires_escalated_permissions_def split: if_splits exec_approval_requirement.splits)
  then show ?thesis
    using assms(1) skip_bypass_needs_rules [OF _ assms(3)] by metis
qed

text \<open>
  With prompts disabled nothing is ever surfaced to the user: under the policy
  \<^verbatim>\<open>Never\<close> every command is either run or forbidden, and evaluating it does not panic.
\<close>

theorem never_policy_never_prompts:
  assumes "req_approval_policy req = Never"
  shows "(\<exists>b a. create_exec_approval_requirement_for_command env p req = Some (Skip b a)) \<or>
    (\<exists>reason. create_exec_approval_requirement_for_command env p req = Some (ReqForbidden reason))"
proof -
  obtain cmds complex ev where r: "create_exec_approval_requirement_for_command env p req =
      Some (requirement_for_evaluation env p req cmds complex ev)"
    using requirement_cases [where env = env and p = p and req = req, OF refl] by metis
  show ?thesis
    unfolding r using assms
    by (cases "eval_decision ev")
      (auto simp: requirement_for_evaluation_def Let_def prompt_is_rejected_by_policy_def)
qed

lemma unmatched_dangerous:
  assumes "dangerous_command_match parser c \<noteq> None"
    and "\<not> is_known_safe_command parser c \<or> uc_approval_policy ctx \<noteq> UnlessTrusted"
  shows "render_decision_for_unmatched_command parser ctx c =
    (if uc_approval_policy ctx = Never then Forbidden else Prompt)"
  using assms by (auto simp: render_decision_for_unmatched_command_def Let_def split: ask_for_approval.splits)

text \<open>
  C3: A dangerous command never runs unattended because no rule speaks about it: if a segment
  that no rule matches is recognised as dangerous, and is not also taken for known-safe, then the
  command is not skipped past approval.
\<close>

theorem unmatched_dangerous_not_skipped:
  assumes "commands_for_exec_policy (env_parser env) (req_command req) = (cmds, complex)"
    and "c \<in> set cmds"
    and "matches_for_command_with_options (env_host env) p c None resolving = []"
    and "dangerous_command_match (env_parser env) c \<noteq> None"
    and "\<not> is_known_safe_command (env_parser env) c"
  shows "\<nexists>b a. create_exec_approval_requirement_for_command env p req = Some (Skip b a)"
proof -
  let ?f = "request_fallback (env_parser env) req complex"
  obtain ev where ev: "check_multiple_with_options (env_host env) p cmds ?f resolving = Some ev"
    and r: "create_exec_approval_requirement_for_command env p req =
      Some (requirement_for_evaluation env p req cmds complex ev)"
    using requirement_cases [where env = env and p = p and req = req, OF refl] assms(1)
    by (metis prod.inject)
  have "?f c \<noteq> Allow"
    using assms(4,5) by (simp add: request_fallback_def unmatched_dangerous)
  then have "\<exists>m \<in> set (matches_for_command_with_options (env_host env) p c (Some ?f) resolving).
      Prompt \<le> match_decision m"
    by (simp add: matches_fallback_only [OF assms(3)] Prompt_le_iff)
  then have "Prompt \<le> eval_decision ev"
    using check_multiple_le_iff [OF ev, of Prompt] assms(2) by blast
  then show ?thesis
    using r requirement_Skip_iff [of env p req cmds complex ev] by (auto simp: Prompt_le_iff)
qed

lemma unless_trusted_unmatched:
  assumes "uc_approval_policy ctx = UnlessTrusted"
  shows "render_decision_for_unmatched_command parser ctx c =
    (if is_known_safe_command parser c \<and> \<not> uc_used_complex_parsing ctx then Allow else Prompt)"
  using assms by (auto simp: render_decision_for_unmatched_command_def Let_def)

lemma empty_policy_no_matches: "matches_for_command_with_options h empty_policy c None opts = []"
  by (auto simp: matches_for_command_with_options_def match_exact_rules_def empty_policy_def
      from_parts_def mm_get_def match_host_executable_rules_def split: list.split sum.split option.split)

text \<open>
  C13: Without rules, the policy \<^verbatim>\<open>UnlessTrusted\<close> runs a command without asking exactly when
  every segment is known to be safe and the script was read completely, not only up to its
  here-document.
\<close>

theorem unless_trusted_runs_only_known_safe:
  assumes "req_approval_policy req = UnlessTrusted"
    and "commands_for_exec_policy (env_parser env) (req_command req) = (cmds, complex)"
  shows "(\<exists>b a. create_exec_approval_requirement_for_command env empty_policy req = Some (Skip b a)) \<longleftrightarrow>
    \<not> complex \<and> list_all (is_known_safe_command (env_parser env)) cmds"
proof -
  let ?f = "request_fallback (env_parser env) req complex"
  obtain ev where ev: "check_multiple_with_options (env_host env) empty_policy cmds ?f resolving = Some ev"
    and r: "create_exec_approval_requirement_for_command env empty_policy req =
      Some (requirement_for_evaluation env empty_policy req cmds complex ev)"
    using requirement_cases [where env = env and p = empty_policy and req = req, OF refl] assms(2)
    by (metis prod.inject)
  have "(\<exists>b a. create_exec_approval_requirement_for_command env empty_policy req = Some (Skip b a)) \<longleftrightarrow>
      \<not> Prompt \<le> eval_decision ev"
    using r requirement_Skip_iff [of env empty_policy req cmds complex ev] by (auto simp: Prompt_le_iff)
  also have "\<dots> \<longleftrightarrow> (\<forall>c \<in> set cmds. ?f c = Allow)"
    using check_multiple_le_iff [OF ev, of Prompt]
    by (auto simp: matches_fallback_only [OF empty_policy_no_matches] Prompt_le_iff)
  also have "\<dots> \<longleftrightarrow> \<not> complex \<and> list_all (is_known_safe_command (env_parser env)) cmds"
    using commands_for_exec_policy_nonempty [OF assms(2)] assms(1)
    by (cases cmds) (auto simp: request_fallback_def unless_trusted_unmatched list_all_iff)
  finally show ?thesis .
qed

section \<open>Banned prefixes\<close>

lemma requested_amendment_not_banned:
  "derive_requested_execpolicy_amendment_from_prefix_rule h pre ms p cmds f opts = Some a \<Longrightarrow>
   a \<noteq> [] \<and> a \<notin> set banned_prefix_suggestions \<and> pre = Some a"
  by (auto simp: derive_requested_execpolicy_amendment_from_prefix_rule_def split: option.splits if_splits)

text \<open>
  A proposed amendment is either the prefix the model asked for, and then not empty and none
  of the banned ones, or it is the whole of one of the segments of the command, never a shorter
  prefix of it.
\<close>

theorem proposed_amendment_origin:
  assumes "create_exec_approval_requirement_for_command env p req = Some (NeedsApproval reason (Some a))"
    and "commands_for_exec_policy (env_parser env) (req_command req) = (cmds, complex)"
  shows "\<not> complex \<and>
    (req_prefix_rule req = Some a \<and> a \<noteq> [] \<and> a \<notin> set banned_prefix_suggestions \<or> a \<in> set cmds)"
proof -
  let ?f = "request_fallback (env_parser env) req complex"
  obtain ev where ev: "check_multiple_with_options (env_host env) p cmds ?f resolving = Some ev"
    and r: "requirement_for_evaluation env p req cmds complex ev = NeedsApproval reason (Some a)"
    using requirement_cases [OF assms(1)] assms(2) by (metis option.inject prod.inject)
  have complex: "\<not> complex"
    using r by (auto simp: requirement_for_evaluation_def Let_def split: decision.splits option.splits if_splits)
  moreover consider "derive_requested_execpolicy_amendment_from_prefix_rule (env_host env)
        (req_prefix_rule req) (matched_rules ev) p cmds ?f resolving = Some a"
    | "try_derive_execpolicy_amendment_for_prompt_rules (matched_rules ev) = Some a"
    using r complex
    by (auto simp: requirement_for_evaluation_def Let_def split: decision.splits option.splits if_splits)
  then have "req_prefix_rule req = Some a \<and> a \<noteq> [] \<and> a \<notin> set banned_prefix_suggestions \<or> a \<in> set cmds"
  proof cases
    case 1
    then show ?thesis using requested_amendment_not_banned by blast
  next
    case 2
    then obtain d where "HeuristicsRuleMatch a d \<in> set (matched_rules ev)"
      by (auto simp: try_derive_execpolicy_amendment_for_prompt_rules_def split: if_splits
          dest!: find_map_Some split: rule_match.splits)
    then obtain c where c: "c \<in> set cmds"
      "HeuristicsRuleMatch a d \<in> set (matches_for_command_with_options (env_host env) p c (Some ?f) resolving)"
      using check_multiple_matched [OF ev] by auto
    show ?thesis
    proof (cases "matches_for_command_with_options (env_host env) p c None resolving = []")
      case True
      then show ?thesis using c by (simp add: matches_fallback_only)
    next
      case False
      then show ?thesis
        using c rules_are_policy_matches [of "HeuristicsRuleMatch a d"] by (auto simp: matches_with_fallback)
    qed
  qed
  ultimately show ?thesis by blast
qed

text \<open>
  The list of banned prefixes guards only the prefixes the model asks for: for the command
  \<^verbatim>\<open>python\<close> with no rules and no requested prefix, the amendment that is proposed is
  \<^verbatim>\<open>python\<close>, which is on the list, and which the migration removes from policy files.
\<close>

theorem banned_prefix_still_proposed:
  "create_exec_approval_requirement_for_command env empty_policy
      \<lparr>req_command = [''python''], req_approval_policy = UnlessTrusted, req_permission_profile = profile,
       req_sandbox_permissions = perms, req_prefix_rule = None\<rparr> =
     Some (NeedsApproval None (Some [''python''])) \<and>
   [''python''] \<in> set banned_prefix_suggestions"
proof
  let ?req = "\<lparr>req_command = [''python''], req_approval_policy = UnlessTrusted, req_permission_profile = profile,
       req_sandbox_permissions = perms, req_prefix_rule = None\<rparr>"
  have "executable_name_lookup_key ''python'' = Some ''python''"
    by (simp add: executable_name_lookup_key_def path_eval)
  then have "\<not> is_known_safe_command (env_parser env) [''python'']"
    by (simp add: is_known_safe_command_def zsh_as_bash_def is_safe_to_call_with_exec_def
        always_safe_programs_def parse_shell_lc_plain_commands_def extract_bash_command_def)
  then have f: "request_fallback (env_parser env) ?req False [''python''] = Prompt"
    by (simp add: request_fallback_def unless_trusted_unmatched)
  have cmds: "commands_for_exec_policy (env_parser env) [''python''] = ([[''python'']], False)"
    by (simp add: commands_for_exec_policy_def parse_shell_lc_plain_commands_def
        parse_shell_lc_single_command_prefix_def extract_bash_command_def)
  show "create_exec_approval_requirement_for_command env empty_policy ?req =
      Some (NeedsApproval None (Some [''python'']))"
    by (simp add: create_exec_approval_requirement_for_command_def cmds check_multiple_with_options_def
        matches_fallback_only [OF empty_policy_no_matches] f from_matches_def requirement_for_evaluation_def
        derive_requested_execpolicy_amendment_from_prefix_rule_def prompt_is_rejected_by_policy_def
        derive_prompt_reason_def rule_matches_with_def
        try_derive_execpolicy_amendment_for_prompt_rules_def)
  show "[''python''] \<in> set banned_prefix_suggestions"
    by (simp add: banned_prefix_suggestions_def)
qed

section \<open>Witnesses\<close>

text \<open>A request to run \<^verbatim>\<open>make all\<close> and to allow \<^verbatim>\<open>make\<close> from then on.\<close>

definition sample_env :: approval_env where
  "sample_env = \<lparr>env_host = sample_host, env_parser = (\<lambda>_. None), env_try_join = (\<lambda>_. None)\<rparr>"

definition sample_request :: exec_approval_request where
  "sample_request =
     \<lparr>req_command = [''make'', ''all''], req_approval_policy = UnlessTrusted,
      req_permission_profile = Disabled, req_sandbox_permissions = UseDefault,
      req_prefix_rule = Some [''make'']\<rparr>"

lemma sample_commands:
  "commands_for_exec_policy (env_parser sample_env) (req_command sample_request) = ([[''make'', ''all'']], False)"
  by (simp add: commands_for_exec_policy_def sample_env_def sample_request_def
      parse_shell_lc_plain_commands_def parse_shell_lc_single_command_prefix_def extract_bash_command_def)

lemma sample_make_unmatched:
  "request_fallback (env_parser sample_env) sample_request False [''make'', ''all''] = Prompt"
proof -
  have "executable_name_lookup_key ''make'' = Some ''make''"
    by (simp add: executable_name_lookup_key_def path_eval)
  then have "\<not> is_known_safe_command (\<lambda>_. None) [''make'', ''all'']"
    by (simp add: is_known_safe_command_def zsh_as_bash_def is_safe_to_call_with_exec_def
        always_safe_programs_def parse_shell_lc_plain_commands_def extract_bash_command_def)
  then show ?thesis
    by (simp add: request_fallback_def unless_trusted_unmatched sample_request_def sample_env_def)
qed

lemma sample_commands_of:
  "req_command req = [a, b] \<Longrightarrow>
   commands_for_exec_policy (env_parser sample_env) (req_command req) = ([[a, b]], False)"
  by (simp add: commands_for_exec_policy_def sample_env_def
      parse_shell_lc_plain_commands_def parse_shell_lc_single_command_prefix_def extract_bash_command_def)

theorem forbidding_rule_forbids_witness:
  "\<exists>reason. create_exec_approval_requirement_for_command sample_env sample_policy
     (sample_request\<lparr>req_command := [''git'', ''push'']\<rparr>) = Some (ReqForbidden reason)"
  using forbidding_rule_forbids [OF sample_commands_of [of "sample_request\<lparr>req_command := [''git'', ''push'']\<rparr>"
        "''git''" "''push''"], of "[''git'', ''push'']" "PrefixRuleMatch [''git'', ''push''] Forbidden None None"
        sample_policy]
  by (simp add: matches_exact [OF sample_push])

theorem unsandboxed_first_attempt_justified_witness:
  "\<exists>r. create_exec_approval_requirement_for_command sample_env sample_policy
      (sample_request\<lparr>req_command := [''git'', ''status'']\<rparr>) = Some r \<and>
     sandbox_override_for_first_attempt UseDefault r unrestricted = BypassSandboxFirstAttempt \<and>
     \<not> has_denied_read_restrictions unrestricted"
proof -
  let ?req = "sample_request\<lparr>req_command := [''git'', ''status'']\<rparr>"
  have cmds: "commands_for_exec_policy (env_parser sample_env) (req_command ?req) = ([[''git'', ''status'']], False)"
    by (rule sample_commands_of) simp
  have r: "create_exec_approval_requirement_for_command sample_env sample_policy ?req = Some (Skip True None)"
    unfolding create_exec_approval_requirement_for_command_def cmds
    by (simp add: check_multiple_with_options_def matches_exact [OF sample_status] from_matches_def
        requirement_for_evaluation_def Let_def try_derive_execpolicy_amendment_for_allow_rules_def)
  have over: "sandbox_override_for_first_attempt (req_sandbox_permissions ?req) (Skip True None)
      (file_system_sandbox_policy (req_permission_profile ?req)) = BypassSandboxFirstAttempt"
    by (simp add: sandbox_override_for_first_attempt_def unsandboxed_execution_allowed_def sample_request_def
        has_denied_read_restrictions_def unrestricted_def)
  show ?thesis
    using r over unsandboxed_first_attempt_justified [OF r over cmds] by (simp add: sample_request_def)
qed

theorem never_policy_never_prompts_witness:
  "\<nexists>reason a. create_exec_approval_requirement_for_command sample_env sample_policy
     (sample_request\<lparr>req_approval_policy := Never\<rparr>) = Some (NeedsApproval reason a)"
  using never_policy_never_prompts [of "sample_request\<lparr>req_approval_policy := Never\<rparr>" sample_env sample_policy]
  by auto

theorem unmatched_dangerous_not_skipped_witness:
  "\<nexists>b a. create_exec_approval_requirement_for_command sample_env empty_policy
     (sample_request\<lparr>req_command := [''rm'', ''-f'']\<rparr>) = Some (Skip b a)"
proof -
  let ?req = "sample_request\<lparr>req_command := [''rm'', ''-f'']\<rparr>"
  have exec: "executable_name_lookup_key ''rm'' = Some ''rm''"
    by (simp add: executable_name_lookup_key_def path_eval)
  have cmds: "commands_for_exec_policy (env_parser sample_env) (req_command ?req) = ([[''rm'', ''-f'']], False)"
    by (rule sample_commands_of) simp
  have "dangerous_command_match (env_parser sample_env) [''rm'', ''-f''] = Some ForcedRm"
    by (simp add: dangerous_command_match_def dangerous_command_match_with_depth.simps
        dangerous_command_match_for_exec.simps exec rm_args_include_force_option_def strip_prefix_def)
  moreover have "\<not> is_known_safe_command (env_parser sample_env) [''rm'', ''-f'']"
    by (simp add: is_known_safe_command_def zsh_as_bash_def is_safe_to_call_with_exec_def exec
        always_safe_programs_def parse_shell_lc_plain_commands_def extract_bash_command_def)
  ultimately show ?thesis
    using unmatched_dangerous_not_skipped [OF cmds, of "[''rm'', ''-f'']" empty_policy]
    by (simp add: empty_policy_no_matches)
qed

theorem unless_trusted_runs_only_known_safe_witness:
  "\<nexists>b a. create_exec_approval_requirement_for_command sample_env empty_policy sample_request = Some (Skip b a)"
proof -
  have "request_fallback (env_parser sample_env) sample_request False [''make'', ''all''] = Prompt"
    by (rule sample_make_unmatched)
  then have "\<not> is_known_safe_command (env_parser sample_env) [''make'', ''all'']"
    by (auto simp: request_fallback_def unless_trusted_unmatched sample_request_def)
  then show ?thesis
    using unless_trusted_runs_only_known_safe [OF _ sample_commands] by (simp add: sample_request_def)
qed

theorem proposed_amendment_origin_witness:
  "\<exists>reason. create_exec_approval_requirement_for_command sample_env empty_policy
      (sample_request\<lparr>req_prefix_rule := None\<rparr>) = Some (NeedsApproval reason (Some [''make'', ''all''])) \<and>
     [''make'', ''all''] \<in> set [[''make'', ''all'']]"
proof -
  let ?req = "sample_request\<lparr>req_prefix_rule := None\<rparr>"
  have cmds: "commands_for_exec_policy (env_parser sample_env) (req_command ?req) = ([[''make'', ''all'']], False)"
    using sample_commands by simp
  have f: "request_fallback (env_parser sample_env) ?req False [''make'', ''all''] = Prompt"
    using sample_make_unmatched by (simp add: request_fallback_def)
  have r: "create_exec_approval_requirement_for_command sample_env empty_policy ?req =
      Some (NeedsApproval None (Some [''make'', ''all'']))"
    unfolding create_exec_approval_requirement_for_command_def cmds using f
    by (simp add: check_multiple_with_options_def
        matches_fallback_only [OF empty_policy_no_matches] from_matches_def requirement_for_evaluation_def
        derive_requested_execpolicy_amendment_from_prefix_rule_def prompt_is_rejected_by_policy_def
        derive_prompt_reason_def rule_matches_with_def sample_request_def
        try_derive_execpolicy_amendment_for_prompt_rules_def)
  show ?thesis
    using r proposed_amendment_origin [OF r cmds] by auto
qed

end
