(* ===== verification/Policy_Manager.thy ===== *)
theory Policy_Manager
  imports Exec_Approval
begin

text \<open>
  The owner of the policy of a session: loading the policy files of the configuration layers and
  the two operations that change policy and policy file together, from
  \<^verbatim>\<open>codex-rs/core/src/exec_policy.rs\<close>. The file system is a pair of functions for reading
  directories and files; closing the update semaphore and failing to join the blocking task are
  outcomes in the environment.
\<close>

section \<open>Updating\<close>

datatype exec_policy_update_error =
    AppendRule string amend_error
  | JoinBlockingTask string
  | AddRule exec_error

record exec_policy_manager =
  mgr_policy :: policy
  mgr_file :: "string option"

record update_env =
  ue_codex_home :: string
  ue_semaphore_closed :: bool
  ue_join_error :: "string option"
  ue_append :: append_env
  ue_to_json :: "string \<Rightarrow> (string, string) result"
  ue_debug :: "exec_error \<Rightarrow> string"

definition rules_dir_name :: string where
  "rules_dir_name = ''rules''"

definition default_policy_file :: string where
  "default_policy_file = ''default.rules''"

definition default_policy_path :: "string \<Rightarrow> string" where
  "default_policy_path codex_home = path_join (path_join codex_home rules_dir_name) default_policy_file"

definition semaphore_closed_error :: exec_policy_update_error where
  "semaphore_closed_error = AddRule (InvalidRule ''exec policy update semaphore closed'')"

definition already_allowed :: "evaluation \<Rightarrow> bool" where
  "already_allowed ev =
     (eval_decision ev = Allow \<and>
      list_ex (\<lambda>m. is_policy_match m \<and> match_decision m = Allow) (matched_rules ev))"

text \<open>\<open>None\<close> is the panic of an evaluation without matches.\<close>

definition append_amendment_and_update ::
  "host \<Rightarrow> update_env \<Rightarrow> exec_policy_manager \<Rightarrow> exec_policy_amendment \<Rightarrow>
   (exec_policy_manager \<times> (exec_policy_update_error, unit) result) option" where
  "append_amendment_and_update h env mgr amendment =
     (if ue_semaphore_closed env then Some (mgr, Err semaphore_closed_error)
      else (case ue_join_error env of
              Some e \<Rightarrow> Some (mgr, Err (JoinBlockingTask e))
            | None \<Rightarrow>
     (let policy_path = default_policy_path (ue_codex_home env);
          (file, appended) = blocking_append_allow_prefix_rule (ue_append env) (ue_to_json env)
                               policy_path (mgr_file mgr) amendment;
          mgr = mgr\<lparr>mgr_file := file\<rparr>
      in case appended of
           Inl e \<Rightarrow> Some (mgr, Err (AppendRule policy_path e))
         | Inr _ \<Rightarrow>
             map_option (\<lambda>ev.
                 if already_allowed ev then (mgr, Ok ())
                 else (case add_prefix_rule (mgr_policy mgr) amendment Allow of
                         Inl e \<Rightarrow> (mgr, Err (AddRule e))
                       | Inr p \<Rightarrow> (mgr\<lparr>mgr_policy := p\<rparr>, Ok ())))
               (check_multiple_with_options h (mgr_policy mgr) [amendment] (\<lambda>_. Forbidden) resolving))))"

definition append_network_rule_and_update ::
  "update_env \<Rightarrow> exec_policy_manager \<Rightarrow> string \<Rightarrow> network_rule_protocol \<Rightarrow> decision \<Rightarrow> string option \<Rightarrow>
   exec_policy_manager \<times> (exec_policy_update_error, unit) result" where
  "append_network_rule_and_update env mgr host protocol d just =
     (if ue_semaphore_closed env then (mgr, Err semaphore_closed_error)
      else (case ue_join_error env of
              Some e \<Rightarrow> (mgr, Err (JoinBlockingTask e))
            | None \<Rightarrow>
     (let policy_path = default_policy_path (ue_codex_home env);
          (file, appended) = blocking_append_network_rule (ue_append env) (ue_to_json env)
                               (ue_debug env) policy_path (mgr_file mgr) host protocol d just;
          mgr = mgr\<lparr>mgr_file := file\<rparr>
      in case appended of
           Inl e \<Rightarrow> (mgr, Err (AppendRule policy_path e))
         | Inr _ \<Rightarrow>
             (case add_network_rule (mgr_policy mgr) host protocol d just of
                Inl e \<Rightarrow> (mgr, Err (AddRule e))
              | Inr p \<Rightarrow> (mgr\<lparr>mgr_policy := p\<rparr>, Ok ())))))"

section \<open>Loading\<close>

datatype layer_source = UserLayer | ProjectLayer | OtherLayer

record config_layer =
  ly_source :: layer_source
  ly_config_folder :: "abs_path option"

record config_stack =
  cs_layers_low_to_high :: "config_layer list"
  cs_ignore_user_and_project_rules :: bool
  cs_requirements_exec_policy :: "policy option"

datatype exec_policy_error =
    ReadDir abs_path io_error
  | ReadFile abs_path io_error
  | ParsePolicy string exec_error

record dir_entry =
  de_name :: string
  de_is_file :: "(io_error, bool) result"

record load_env =
  le_host :: host
  le_read_dir :: "abs_path \<Rightarrow> (io_error, (io_error, dir_entry) result list) result"
  le_read_file :: "abs_path \<Rightarrow> (io_error, string) result"
  le_starlark :: starlark_eval
  le_shlex_split :: "string \<Rightarrow> string list option"
  le_try_join :: "command \<Rightarrow> string option"

definition has_rules_extension :: "string \<Rightarrow> bool" where
  "has_rules_extension name =
     (case rsplit_once (CHR ''.'') name of
        Some (stem, ext) \<Rightarrow> stem \<noteq> [] \<and> ext = ''rules''
      | None \<Rightarrow> False)"

fun rule_file_names ::
  "abs_path \<Rightarrow> (io_error, dir_entry) result list \<Rightarrow> (exec_policy_error, string list) result" where
  "rule_file_names dir [] = Ok []"
| "rule_file_names dir (Inl e # entries) = Err (ReadDir dir e)"
| "rule_file_names dir (Inr entry # entries) =
     (case de_is_file entry of
        Inl e \<Rightarrow> Err (ReadDir dir e)
      | Inr is_file \<Rightarrow>
          res_bind (rule_file_names dir entries) (\<lambda>names.
            Ok (if has_rules_extension (de_name entry) \<and> is_file then de_name entry # names else names)))"

definition collect_policy_files :: "load_env \<Rightarrow> abs_path \<Rightarrow> (exec_policy_error, abs_path list) result" where
  "collect_policy_files env dir =
     (case le_read_dir env dir of
        Inl e \<Rightarrow> (if e = NotFound then Ok [] else Err (ReadDir dir e))
      | Inr entries \<Rightarrow>
          res_bind (rule_file_names dir entries) (\<lambda>names.
            Ok (map (\<lambda>name. dir @ [Normal name]) (sort names))))"

definition layer_enabled :: "config_stack \<Rightarrow> config_layer \<Rightarrow> bool" where
  "layer_enabled stack layer =
     (\<not> (cs_ignore_user_and_project_rules stack \<and> ly_source layer \<in> {UserLayer, ProjectLayer}))"

fun layer_policy_paths ::
  "load_env \<Rightarrow> config_stack \<Rightarrow> config_layer list \<Rightarrow> (exec_policy_error, abs_path list) result" where
  "layer_policy_paths env stack [] = Ok []"
| "layer_policy_paths env stack (layer # layers) =
     (if \<not> layer_enabled stack layer then layer_policy_paths env stack layers
      else (case ly_config_folder layer of
              None \<Rightarrow> layer_policy_paths env stack layers
            | Some folder \<Rightarrow>
                res_bind (collect_policy_files env (abs_join (le_host env) folder rules_dir_name))
                  (\<lambda>paths. res_bind (layer_policy_paths env stack layers)
                    (\<lambda>more. Ok (paths @ more)))))"

fun parse_policy_files ::
  "load_env \<Rightarrow> policy_builder \<Rightarrow> abs_path list \<Rightarrow> (exec_policy_error, policy_builder) result" where
  "parse_policy_files env b [] = Ok b"
| "parse_policy_files env b (path # paths) =
     (case le_read_file env path of
        Inl e \<Rightarrow> Err (ReadFile path e)
      | Inr contents \<Rightarrow>
          (case parse_policy (le_host env) (le_starlark env) (le_shlex_split env) (le_try_join env) b
                  (path_string path) contents of
             (b', Inl e) \<Rightarrow> Err (ParsePolicy (path_string path) e)
           | (b', Inr _) \<Rightarrow> parse_policy_files env b' paths))"

definition load_exec_policy :: "load_env \<Rightarrow> config_stack \<Rightarrow> (exec_policy_error, policy) result" where
  "load_exec_policy env stack =
     res_bind (layer_policy_paths env stack (cs_layers_low_to_high stack)) (\<lambda>policy_paths.
     res_bind (parse_policy_files env new_builder policy_paths) (\<lambda>b.
       (let p = build b
        in Ok (case cs_requirements_exec_policy stack of
                 None \<Rightarrow> p
               | Some requirements_policy \<Rightarrow> merge_overlay p requirements_policy))))"

definition load_exec_policy_with_warning ::
  "load_env \<Rightarrow> config_stack \<Rightarrow> (exec_policy_error, policy \<times> exec_policy_error option) result" where
  "load_exec_policy_with_warning env stack =
     (case load_exec_policy env stack of
        Inr p \<Rightarrow> Ok (p, None)
      | Inl (ParsePolicy path e) \<Rightarrow>
          Ok (case cs_requirements_exec_policy stack of None \<Rightarrow> empty_policy | Some p \<Rightarrow> p,
              Some (ParsePolicy path e))
      | Inl e \<Rightarrow> Err e)"

definition exec_policy_config_folders :: "config_stack \<Rightarrow> abs_path list" where
  "exec_policy_config_folders stack = filter_map ly_config_folder (cs_layers_low_to_high stack)"

definition child_uses_parent_exec_policy :: "config_stack \<Rightarrow> config_stack \<Rightarrow> bool" where
  "child_uses_parent_exec_policy parent child =
     (exec_policy_config_folders parent = exec_policy_config_folders child \<and>
      cs_ignore_user_and_project_rules parent = cs_ignore_user_and_project_rules child \<and>
      cs_requirements_exec_policy parent = cs_requirements_exec_policy child)"

section \<open>Loaded policies\<close>

lemma parse_policy_files_ok:
  "parse_policy_files env b paths = Ok b' \<Longrightarrow> builder_ok b \<Longrightarrow> builder_ok b'"
proof (induction paths arbitrary: b)
  case (Cons path paths)
  obtain contents b1 where
    "parse_policy (le_host env) (le_starlark env) (le_shlex_split env) (le_try_join env) b
       (path_string path) contents = (b1, Ok ())"
    and rest: "parse_policy_files env b1 paths = Ok b'"
    using Cons.prems(1) by (auto split: sum.splits prod.splits)
  then have "builder_ok b1"
    using parse_policy_ok [OF Cons.prems(2)] by (metis fst_conv)
  then show ?case using Cons.IH [OF rest] by blast
qed simp

lemma load_exec_policy_cases:
  assumes "load_exec_policy env stack = Ok p"
  obtains b where "builder_ok b"
    and "p = (case cs_requirements_exec_policy stack of
                None \<Rightarrow> build b | Some requirements \<Rightarrow> merge_overlay (build b) requirements)"
  using assms parse_policy_files_ok [OF _ builder_ok_new]
  by (auto simp: load_exec_policy_def res_bind_Inr_iff Let_def)

text \<open>
  C4: Managed requirements are always in force: whenever loading succeeds, also when the rule
  files of the layers cannot be parsed, a command that an exact rule of the requirements matches
  is judged at least as strictly as the requirements say.
\<close>

theorem requirements_always_enforced:
  assumes "load_exec_policy_with_warning env stack = Ok (p, warning)"
    and "cs_requirements_exec_policy stack = Some requirements" and "policy_ok requirements"
    and "match_exact_rules requirements cmd = Some ms" and "ms \<noteq> []"
    and "check_with_options h requirements cmd heuristics opts = Some ev"
  shows "\<exists>ev'. check_with_options h p cmd heuristics' opts' = Some ev' \<and>
    eval_decision ev \<le> eval_decision ev'"
proof (cases "load_exec_policy env stack")
  case (Inl e)
  then have "p = requirements"
    using assms(1,2) by (auto simp: load_exec_policy_with_warning_def split: exec_policy_error.splits)
  then show ?thesis
    using assms(4-6) by (simp add: check_with_options_def matches_exact [OF assms(4,5)])
next
  case (Inr p0)
  then obtain b where "p = merge_overlay (build b) requirements"
    using assms(1,2) by (auto simp: load_exec_policy_with_warning_def elim!: load_exec_policy_cases)
  then show ?thesis
    using merge_overlay_strict [OF assms(3) _ assms(4,5,6), of "build b"] by simp
qed


section \<open>Amendments settle prompts\<close>

lemma plain_program_lookup_key:
  assumes "from_absolute_path h name = Ok program" and "plain_name name" and "name \<noteq> ''~''"
    and "\<And>d. current_dir h = Some d \<Longrightarrow> is_absolute d"
  shows "executable_path_lookup_key program = Some name"
proof -
  have rel: "\<not> is_absolute name"
    using assms(2) by (auto simp: is_absolute_def plain_name_def prefix_def)
  have "maybe_expand_home_directory h name = name"
    using assms(2,3) by (auto simp: maybe_expand_home_directory_def strip_prefix_Some_iff plain_name_def
        split: option.splits)
  then obtain cwd where cwd: "current_dir h = Some cwd"
    and program: "program = normalize_path (path_join cwd name)"
    using assms(1) rel
    by (auto simp: from_absolute_path_def absolutize_def absolutize_from_def path_with_base_def split: option.splits)
  define q where "q = (if last cwd = CHR ''/'' then butlast cwd else cwd)"
  have "cwd \<noteq> []" using assms(4) [OF cwd] by (auto simp: is_absolute_def)
  then have "path_join cwd name = q @ ''/'' @ name"
    using rel by (auto simp: path_join_def q_def) (metis append_butlast_last_id append.assoc append_Cons append_Nil)
  then have "file_name program = Some name"
    using file_name_normalize_path [of q name] is_absolute_path_join [OF assms(4) [OF cwd], of name] assms(2)
    by (simp add: program)
  then show ?thesis
    by (simp add: executable_path_lookup_key_def executable_lookup_key_def)
qed

lemma exact_match_some_rule:
  "(\<exists>ms. match_exact_rules p (name # args) = Some ms \<and> ms \<noteq> []) \<longleftrightarrow>
     (\<exists>rs r. mm_get (rules_by_program p) name = Some rs \<and> r \<in> set rs \<and> rule_matches r (name # args) \<noteq> None)"
  by (auto simp: match_exact_rules_def filter_map_eq_Nil split: option.splits)

lemma rule_matches_more: "rule_matches r (name # args) \<noteq> None \<Longrightarrow> rule_matches r (name # args @ extra) \<noteq> None"
  using pr.matches_extend [of r "name # args" _ extra] by auto

lemma host_matchI:
  assumes "from_absolute_path h first = Ok program" and "executable_path_lookup_key program = Some n"
    and "mm_get (rules_by_program p) n = Some rs" and "r \<in> set rs"
    and "\<forall>paths. host_executables_by_name p n = Some paths \<longrightarrow> program \<in> set paths"
    and "rule_matches r (n # args) \<noteq> None"
  shows "match_host_executable_rules h p (first # args) \<noteq> []"
  unfolding host_match_iff using assms
  by (intro exI [of _ first] exI [of _ args] exI [of _ program] exI [of _ n] exI [of _ rs]
      exI [of _ r] conjI) simp_all

text \<open>A rule that matches a prefix of a command also matches the command.\<close>

lemma matches_extend_command:
  assumes "matches_for_command_with_options h p (name # args) None resolving \<noteq> []"
  shows "matches_for_command_with_options h p (name # args @ extra) None resolving \<noteq> []"
proof (cases "\<exists>ms. match_exact_rules p (name # args) = Some ms \<and> ms \<noteq> []")
  case True
  then have "\<exists>ms. match_exact_rules p (name # args @ extra) = Some ms \<and> ms \<noteq> []"
    unfolding exact_match_some_rule using rule_matches_more by blast
  then show ?thesis by (auto simp: matches_resolving_nonempty_iff)
next
  case False
  then have "match_host_executable_rules h p (name # args) \<noteq> []"
    using assms by (auto simp: matches_resolving_nonempty_iff)
  then obtain program n rs r where host: "from_absolute_path h name = Ok program"
    "executable_path_lookup_key program = Some n" "mm_get (rules_by_program p) n = Some rs" "r \<in> set rs"
    "\<forall>paths. host_executables_by_name p n = Some paths \<longrightarrow> program \<in> set paths"
    and r: "rule_matches r (n # args) \<noteq> None"
    unfolding host_match_iff by blast
  have "match_host_executable_rules h p (name # args @ extra) \<noteq> []"
    by (rule host_matchI [OF host rule_matches_more [OF r]])
  then show ?thesis by (simp add: matches_resolving_nonempty_iff)
qed

text \<open>If a rule for a prefix adds a match to a command, the command had one if the prefix had.\<close>

lemma new_rule_matches_old:
  assumes add: "add_prefix_rule p a d = Ok p'" and home: "hd a \<noteq> ''~''"
    and cwd: "\<And>d. current_dir h = Some d \<Longrightarrow> is_absolute d"
    and a: "matches_for_command_with_options h p a None resolving \<noteq> []"
    and c: "matches_for_command_with_options h p' c None resolving \<noteq> []"
  shows "matches_for_command_with_options h p c None resolving \<noteq> []"
proof -
  obtain t ts where at: "a = t # ts" using add by (cases a) (auto simp: add_prefix_rule_def)
  let ?r = "\<lparr>rule_pattern = \<lparr>pat_first = t, pat_rest = map Single ts\<rparr>, rule_decision = d,
       rule_justification = None\<rparr>"
  have rules: "rules_by_program p' = mm_insert (rules_by_program p) t ?r"
    and hosts: "host_executables_by_name p' = host_executables_by_name p"
    using add at by (auto simp: add_prefix_rule_def Let_def)
  have extend: "matches_for_command_with_options h p c None resolving \<noteq> []" if "prefix a c"
    using that a matches_extend_command [of h p t ts] by (auto simp: at prefix_def)
  show ?thesis
  proof (cases "match_host_executable_rules h p' c = []")
    case True
    then obtain ms where "match_exact_rules p' c = Some ms" "ms \<noteq> []"
      using c by (auto simp: matches_resolving_nonempty_iff)
    then have "prefix a c \<or> (\<exists>ms. match_exact_rules p c = Some ms \<and> ms \<noteq> [])"
      using add_prefix_rule_exact [OF add, of c] by (auto split: if_splits)
    then show ?thesis
      using extend by (auto simp: matches_resolving_nonempty_iff)
  next
    case False
    then obtain first args program n rs r where host: "c = first # args"
      "from_absolute_path h first = Ok program" "executable_path_lookup_key program = Some n"
      "\<forall>paths. host_executables_by_name p n = Some paths \<longrightarrow> program \<in> set paths"
      and r: "mm_get (rules_by_program p') n = Some rs" "r \<in> set rs" "rule_matches r (n # args) \<noteq> None"
      unfolding host_match_iff hosts by blast
    have old: ?thesis if "mm_get (rules_by_program p) n = Some rs'" "r' \<in> set rs'"
      "rule_matches r' (n # args) \<noteq> None" for rs' r'
    proof -
      have "match_host_executable_rules h p c \<noteq> []"
        unfolding host(1) by (rule host_matchI [OF host(2,3) that(1,2) host(4) that(3)])
      then show ?thesis by (simp add: matches_resolving_nonempty_iff)
    qed
    show ?thesis
    proof (cases "\<exists>rs'. mm_get (rules_by_program p) n = Some rs' \<and> r \<in> set rs'")
      case True
      then show ?thesis using old r(3) by blast
    next
      case False
      then have n: "n = t" and "r = ?r"
        using r(1,2) by (auto simp: rules mm.get_insert split: if_splits option.splits)
      then have "prefix (t # ts) (n # args)"
        using r(3) by (auto simp: literal_rule_matches split: if_splits)
      then obtain extra where args: "args = ts @ extra" by (auto simp: prefix_def)
      have plain: "plain_name t"
        using host(3) n abs_file_name_plain [OF host(2)]
        by (auto simp: executable_path_lookup_key_def executable_lookup_key_def)
      have "\<exists>rs r. mm_get (rules_by_program p) t = Some rs \<and> r \<in> set rs \<and> rule_matches r (t # ts) \<noteq> None"
      proof (cases "\<exists>ms. match_exact_rules p (t # ts) = Some ms \<and> ms \<noteq> []")
        case True
        then show ?thesis by (simp only: exact_match_some_rule)
      next
        case False
        then have "match_host_executable_rules h p (t # ts) \<noteq> []"
          using a by (auto simp: at matches_resolving_nonempty_iff)
        then obtain program' n' rs r where "from_absolute_path h t = Ok program'"
          "executable_path_lookup_key program' = Some n'"
          "mm_get (rules_by_program p) n' = Some rs" "r \<in> set rs" "rule_matches r (n' # ts) \<noteq> None"
          unfolding host_match_iff by blast
        moreover from this have "n' = t"
          using plain_program_lookup_key [OF _ plain _ cwd] home at by fastforce
        ultimately show ?thesis by blast
      qed
      then show ?thesis
        using old n args rule_matches_more by blast
    qed
  qed
qed

lemma check_multiple_Allow_iff:
  assumes "check_multiple_with_options h p cmds f opts = Some ev"
  shows "eval_decision ev = Allow \<longleftrightarrow>
    (\<forall>c \<in> set cmds. map_option eval_decision (check_with_options h p c f opts) = Some Allow)"
proof -
  have "map_option eval_decision (check_with_options h p c f opts) = Some Allow \<longleftrightarrow>
      (\<forall>m \<in> set (matches_for_command_with_options h p c (Some f) opts). match_decision m = Allow)" for c
  proof -
    obtain ev' where ev': "check_with_options h p c f opts = Some ev'"
      using check_with_options_defined by blast
    show ?thesis
      using from_matches_le_iff [OF ev' [unfolded check_with_options_def], of Prompt]
      by (auto simp: ev' Prompt_le_iff)
  qed
  then show ?thesis
    using check_multiple_le_iff [OF assms, of Prompt] by (auto simp: Prompt_le_iff)
qed

lemma already_allowed_policy_match:
  assumes "check_multiple_with_options h p [a] f resolving = Some ev" and "already_allowed ev"
  shows "matches_for_command_with_options h p a None resolving \<noteq> []"
proof
  assume none: "matches_for_command_with_options h p a None resolving = []"
  have "set (matched_rules ev) = {HeuristicsRuleMatch a (f a)}"
    using check_multiple_matched [OF assms(1)] by (simp add: matches_fallback_only [OF none])
  then show False
    using assms(2) by (auto simp: already_allowed_def list_ex_iff)
qed

text \<open>
  C18: Accepting a requested amendment settles the prompt for good: when the prefix that the model
  asked for was proposed for a command and the amendment is applied, the same request is from
  then on run without asking, also when the update finds the prefix allowed already and leaves
  the policy as it is. The working directory is absolute and the prefix does not begin with the
  home directory.
\<close>

theorem requested_amendment_settles_prompt:
  assumes "commands_for_exec_policy (env_parser env) (req_command req) = (cmds, False)"
    and "check_multiple_with_options (env_host env) (mgr_policy mgr) cmds
           (request_fallback (env_parser env) req False) resolving = Some ev"
    and "derive_requested_execpolicy_amendment_from_prefix_rule (env_host env) (req_prefix_rule req)
           (matched_rules ev) (mgr_policy mgr) cmds (request_fallback (env_parser env) req False)
           resolving = Some a"
    and "append_amendment_and_update (env_host env) uenv mgr a = Some (mgr', Ok ())"
    and "current_dir (env_host env) = Some cwd" and "is_absolute cwd" and "hd a \<noteq> ''~''"
  shows "\<exists>b am. create_exec_approval_requirement_for_command env (mgr_policy mgr') req = Some (Skip b am)"
proof -
  let ?h = "env_host env" and ?p = "mgr_policy mgr" and ?f = "request_fallback (env_parser env) req False"
  obtain p' where add: "add_prefix_rule ?p a Allow = Ok p'"
    and all: "\<forall>c \<in> set cmds. map_option eval_decision (check_with_options ?h p' c ?f resolving) = Some Allow"
    and none: "\<not> list_ex is_policy_match (matched_rules ev)"
    using assms(3)
    by (auto simp: derive_requested_execpolicy_amendment_from_prefix_rule_def
        prefix_rule_would_approve_all_commands_def list_all_iff split: option.splits if_splits sum.splits)
  obtain ev1 where ev1: "check_multiple_with_options ?h ?p [a] (\<lambda>_. Forbidden) resolving = Some ev1"
    and mgr': "mgr_policy mgr' = (if already_allowed ev1 then ?p else p')"
    using assms(4) add check_multiple_defined [of "[a]" ?h ?p "\<lambda>_. Forbidden" resolving]
    by (auto simp: append_amendment_and_update_def Let_def split: if_splits option.splits prod.splits sum.splits)
  have "\<forall>c \<in> set cmds. map_option eval_decision
      (check_with_options ?h (mgr_policy mgr') c ?f resolving) = Some Allow"
  proof (cases "already_allowed ev1")
    case False
    then show ?thesis using all mgr' by simp
  next
    case True
    have a: "matches_for_command_with_options ?h ?p a None resolving \<noteq> []"
      by (rule already_allowed_policy_match [OF ev1 True])
    show ?thesis
    proof
      fix c
      assume c: "c \<in> set cmds"
      have old: "matches_for_command_with_options ?h ?p c None resolving = []"
      proof (rule ccontr)
        assume some: "matches_for_command_with_options ?h ?p c None resolving \<noteq> []"
        then obtain m where m: "m \<in> set (matches_for_command_with_options ?h ?p c None resolving)"
          by (metis list.set_sel(1))
        then have "m \<in> set (matches_for_command_with_options ?h ?p c (Some ?f) resolving)"
          by (simp add: matches_with_fallback [OF some])
        then have "m \<in> set (matched_rules ev)"
          unfolding check_multiple_matched [OF assms(2)] using c by blast
        then show False
          using none rules_are_policy_matches [OF m] by (auto simp: list_ex_iff)
      qed
      then have new: "matches_for_command_with_options ?h p' c None resolving = []"
        using new_rule_matches_old [OF add assms(7) _ a, of c] assms(5,6) by auto
      have "check_with_options ?h (mgr_policy mgr') c ?f resolving = check_with_options ?h p' c ?f resolving"
        using True mgr' by (simp add: check_with_options_def matches_fallback_only [OF old]
            matches_fallback_only [OF new])
      then show "map_option eval_decision (check_with_options ?h (mgr_policy mgr') c ?f resolving) = Some Allow"
        using all c by simp
    qed
  qed
  moreover obtain cmds' complex ev' where
    "commands_for_exec_policy (env_parser env) (req_command req) = (cmds', complex)"
    and "check_multiple_with_options ?h (mgr_policy mgr') cmds'
      (request_fallback (env_parser env) req complex) resolving = Some ev'"
    and "create_exec_approval_requirement_for_command env (mgr_policy mgr') req =
      Some (requirement_for_evaluation env (mgr_policy mgr') req cmds' complex ev')"
    using requirement_cases [where env = env and p = "mgr_policy mgr'" and req = req, OF refl] by metis
  ultimately show ?thesis
    using assms(1) check_multiple_Allow_iff requirement_Skip_iff by fastforce
qed

section \<open>Sharing the policy with a child\<close>

lemma layer_policy_paths_folders:
  assumes "\<not> cs_ignore_user_and_project_rules stack" and "\<not> cs_ignore_user_and_project_rules stack'"
    and "filter_map ly_config_folder ls = filter_map ly_config_folder ls'"
  shows "layer_policy_paths env stack ls = layer_policy_paths env stack' ls'"
proof -
  have folders: "layer_policy_paths env st ls =
      foldr (\<lambda>folder acc. res_bind (collect_policy_files env (abs_join (le_host env) folder rules_dir_name))
          (\<lambda>paths. res_bind acc (\<lambda>more. Ok (paths @ more)))) (filter_map ly_config_folder ls) (Ok [])"
    if "\<not> cs_ignore_user_and_project_rules st" for st ls
    using that by (induction ls) (auto simp: layer_enabled_def split: option.splits)
  show ?thesis
    using assms folders by simp
qed

text \<open>
  A child session that is found to use its parent's policy would load the same one: the two
  configurations then have the same policy on every file system, when user and project rules are
  not ignored.
\<close>

theorem child_policy_is_parent_policy:
  assumes "child_uses_parent_exec_policy parent child"
    and "\<not> cs_ignore_user_and_project_rules parent"
  shows "load_exec_policy_with_warning env child = load_exec_policy_with_warning env parent"
proof -
  have reqs: "cs_requirements_exec_policy child = cs_requirements_exec_policy parent"
    using assms(1) by (simp add: child_uses_parent_exec_policy_def)
  have paths: "layer_policy_paths env child (cs_layers_low_to_high child) =
      layer_policy_paths env parent (cs_layers_low_to_high parent)"
    using assms by (intro layer_policy_paths_folders)
      (simp_all add: child_uses_parent_exec_policy_def exec_policy_config_folders_def)
  show ?thesis
    unfolding load_exec_policy_with_warning_def load_exec_policy_def reqs paths ..
qed

section \<open>Witnesses\<close>

text \<open>A file system with no rule files, and one configuration with managed requirements.\<close>

definition sample_load_env :: load_env where
  "sample_load_env =
     \<lparr>le_host = sample_host, le_read_dir = (\<lambda>_. Err NotFound), le_read_file = (\<lambda>_. Err NotFound),
      le_starlark = sample_starlark, le_shlex_split = (\<lambda>_. None), le_try_join = (\<lambda>_. None)\<rparr>"

definition sample_stack :: config_stack where
  "sample_stack =
     \<lparr>cs_layers_low_to_high = [\<lparr>ly_source = UserLayer, ly_config_folder = Some [RootDir]\<rparr>],
      cs_ignore_user_and_project_rules = False, cs_requirements_exec_policy = Some sample_policy\<rparr>"

lemma sample_load:
  "\<exists>p. load_exec_policy_with_warning sample_load_env sample_stack = Ok (p, None)"
  by (simp add: load_exec_policy_with_warning_def load_exec_policy_def sample_load_env_def sample_stack_def
      layer_enabled_def collect_policy_files_def Let_def)

theorem requirements_always_enforced_witness:
  "\<exists>p ev'. load_exec_policy_with_warning sample_load_env sample_stack = Ok (p, None) \<and>
     check_with_options sample_host p [''git'', ''push''] (\<lambda>_. Allow) default_options = Some ev' \<and>
     Forbidden \<le> eval_decision ev'"
proof -
  obtain p where p: "load_exec_policy_with_warning sample_load_env sample_stack = Ok (p, None)"
    using sample_load by blast
  have req: "cs_requirements_exec_policy sample_stack = Some sample_policy"
    by (simp add: sample_stack_def)
  show ?thesis
    using p requirements_always_enforced [OF p req sample_policy_ok sample_push _ sample_check_push]
    by (simp del: Forbidden_le_iff)
qed

definition sample_manager :: exec_policy_manager where
  "sample_manager = \<lparr>mgr_policy = empty_policy, mgr_file = None\<rparr>"

definition sample_update_env :: update_env where
  "sample_update_env =
     \<lparr>ue_codex_home = ''/h'', ue_semaphore_closed = False, ue_join_error = None, ue_append = fault_free,
      ue_to_json = quote, ue_debug = (\<lambda>_. [])\<rparr>"


theorem child_policy_is_parent_policy_witness:
  "load_exec_policy_with_warning sample_load_env
     (sample_stack\<lparr>cs_layers_low_to_high := [\<lparr>ly_source = OtherLayer, ly_config_folder = Some [RootDir]\<rparr>]\<rparr>) =
   load_exec_policy_with_warning sample_load_env sample_stack"
  by (rule child_policy_is_parent_policy)
    (simp_all add: child_uses_parent_exec_policy_def exec_policy_config_folders_def sample_stack_def)

lemma sample_requested:
  "derive_requested_execpolicy_amendment_from_prefix_rule (env_host sample_env) (req_prefix_rule sample_request)
     [HeuristicsRuleMatch [''make'', ''all''] Prompt] empty_policy [[''make'', ''all'']]
     (request_fallback (env_parser sample_env) sample_request False) resolving = Some [''make'']"
proof -
  have "prefix_rule_would_approve_all_commands (env_host sample_env) empty_policy [''make'']
      [[''make'', ''all'']] (request_fallback (env_parser sample_env) sample_request False) resolving"
    by (simp add: prefix_rule_would_approve_all_commands_def policy_defs Let_def)
  then show ?thesis
    by (simp add: derive_requested_execpolicy_amendment_from_prefix_rule_def sample_request_def
        banned_prefix_suggestions_def)
qed

lemma sample_append:
  "\<exists>mgr'. append_amendment_and_update (env_host sample_env) sample_update_env sample_manager [''make''] =
     Some (mgr', Ok ())"
proof -
  have tokens: "map_res quote [''make''] = Ok [''\"make\"'']"
    by (simp add: quote_def)
  obtain c where "blocking_append_allow_prefix_rule fault_free quote (default_policy_path ''/h'') None [''make''] =
      (Some c, Ok ())"
    by (simp add: blocking_append_allow_prefix_rule_def tokens append_rule_line_def has_parent_def
        append_locked_line_def fault_free_def write_all_def str_lines_def components_def is_absolute_def
        seg_components_def default_policy_path_def path_join_def rules_dir_name_def default_policy_file_def
        del: map_res.simps)
  then show ?thesis
    by (simp add: append_amendment_and_update_def sample_update_env_def sample_manager_def Let_def
        check_multiple_with_options_def matches_fallback_only [OF empty_policy_no_matches]
        from_matches_def already_allowed_def add_prefix_rule_def)
qed

theorem requested_amendment_settles_prompt_witness:
  "\<exists>mgr' b am. append_amendment_and_update (env_host sample_env) sample_update_env sample_manager [''make''] =
      Some (mgr', Ok ()) \<and>
    create_exec_approval_requirement_for_command sample_env (mgr_policy mgr') sample_request = Some (Skip b am)"
proof -
  obtain mgr' where run: "append_amendment_and_update (env_host sample_env) sample_update_env sample_manager
      [''make''] = Some (mgr', Ok ())"
    using sample_append by blast
  let ?ev = "\<lparr>eval_decision = Prompt, matched_rules = [HeuristicsRuleMatch [''make'', ''all''] Prompt]\<rparr>"
  have ev: "check_multiple_with_options (env_host sample_env) (mgr_policy sample_manager) [[''make'', ''all'']]
      (request_fallback (env_parser sample_env) sample_request False) resolving = Some ?ev"
    by (simp add: check_multiple_with_options_def sample_manager_def sample_make_unmatched
        matches_fallback_only [OF empty_policy_no_matches] from_matches_def)
  have requested: "derive_requested_execpolicy_amendment_from_prefix_rule (env_host sample_env)
      (req_prefix_rule sample_request) (matched_rules ?ev) (mgr_policy sample_manager) [[''make'', ''all'']]
      (request_fallback (env_parser sample_env) sample_request False) resolving = Some [''make'']"
    using sample_requested by (simp add: sample_manager_def)
  have "\<exists>b am. create_exec_approval_requirement_for_command sample_env (mgr_policy mgr') sample_request =
      Some (Skip b am)"
    by (rule requested_amendment_settles_prompt [OF sample_commands ev requested run, of "''/w''"])
      (simp_all add: sample_env_def sample_host_def is_absolute_def)
  then show ?thesis using run by blast
qed

end
