(* ===== verification/Patch_Seek.thy ===== *)
theory Patch_Seek
  imports Prelude
begin

text \<open>
  The search for the lines of a patch in a file (\<^verbatim>\<open>apply-patch/src/seek_sequence.rs\<close>): four passes
  over the candidate positions, each more lenient than the one before it.
\<close>

section \<open>Definitions\<close>

text \<open>
  The typographic characters, as their UTF-8 encodings, and the ASCII characters they are compared
  as. No encoding starts inside another one, so the bytes can be scanned from the left.
\<close>

definition punctuation :: "(string \<times> char) list" where
  "punctuation =
     map (\<lambda>c. ([CHR 0xE2, CHR 0x80, c], CHR ''-''))
       [CHR 0x90, CHR 0x91, CHR 0x92, CHR 0x93, CHR 0x94, CHR 0x95] @
     [([CHR 0xE2, CHR 0x88, CHR 0x92], CHR ''-'')] @
     map (\<lambda>c. ([CHR 0xE2, CHR 0x80, c], CHR 0x27))
       [CHR 0x98, CHR 0x99, CHR 0x9A, CHR 0x9B] @
     map (\<lambda>c. ([CHR 0xE2, CHR 0x80, c], CHR 0x22))
       [CHR 0x9C, CHR 0x9D, CHR 0x9E, CHR 0x9F] @
     [([CHR 0xC2, CHR 0xA0], CHR '' '')] @
     map (\<lambda>c. ([CHR 0xE2, CHR 0x80, c], CHR '' ''))
       [CHR 0x82, CHR 0x83, CHR 0x84, CHR 0x85, CHR 0x86, CHR 0x87, CHR 0x88, CHR 0x89, CHR 0x8A, CHR 0xAF] @
     [([CHR 0xE2, CHR 0x81, CHR 0x9F], CHR '' ''), ([CHR 0xE3, CHR 0x80, CHR 0x80], CHR '' '')]"

fun normalise_chars :: "string \<Rightarrow> string" where
  "normalise_chars [] = []"
| "normalise_chars (c # s) =
     (case find (\<lambda>(e, r). prefix e (c # s)) punctuation of
        Some (e, r) \<Rightarrow> r # normalise_chars (drop (length e - 1) s)
      | None \<Rightarrow> c # normalise_chars s)"

definition normalise :: "string \<Rightarrow> string" where
  "normalise s = normalise_chars (trim s)"

text \<open>Whether the lines from position \<^term>\<open>i\<close> on agree with the pattern, compared by \<^term>\<open>key\<close>.\<close>

definition matches_at :: "(string \<Rightarrow> string) \<Rightarrow> string list \<Rightarrow> string list \<Rightarrow> nat \<Rightarrow> bool" where
  "matches_at key lines pattern i =
     (map key (take (length pattern) (drop i lines)) = map key pattern)"

definition seek_pass ::
  "string list \<Rightarrow> string list \<Rightarrow> nat \<Rightarrow> (string \<Rightarrow> string) \<Rightarrow> nat option" where
  "seek_pass lines pattern search_start key =
     find (matches_at key lines pattern) [search_start..<Suc (length lines - length pattern)]"

definition passes :: "(string \<Rightarrow> string) list" where
  "passes = [\<lambda>s. s, trim_end, trim, normalise]"

definition seek_sequence :: "string list \<Rightarrow> string list \<Rightarrow> nat \<Rightarrow> bool \<Rightarrow> nat option" where
  "seek_sequence lines pattern start eof =
     (if pattern = [] then Some start
      else if length lines < length pattern then None
      else
        let search_start = if eof \<and> length pattern \<le> length lines
              then length lines - length pattern else start
        in find_map (seek_pass lines pattern search_start) passes)"

section \<open>Each pass accepts what the one before it accepts\<close>

lemma find_unique:
  assumes "x \<in> set xs" "P x" "\<And>y. y \<in> set xs \<Longrightarrow> P y \<Longrightarrow> y = x"
  shows "find P xs = Some x"
proof (cases "find P xs")
  case None
  then show ?thesis
    using assms(1,2) by (simp add: find_None_iff)
next
  case (Some y)
  then have "y \<in> set xs" "P y"
    by (auto simp: find_Some_iff)
  then show ?thesis
    using Some assms(3) by simp
qed

lemma white_space_table:
  "list_all (\<lambda>a. list_all (\<lambda>b. (prefix a b \<or> prefix (rev a) (rev b) \<longrightarrow> a = b) \<and> hd a \<notin> set (tl b))
     white_space) white_space"
  by code_simp

lemma white_space_prefix_free:
  assumes "a \<in> set white_space" "b \<in> set white_space"
  shows "prefix a b \<Longrightarrow> a = b" "prefix (rev a) (rev b) \<Longrightarrow> a = b" "hd a \<notin> set (tl b)"
  using white_space_table assms by (auto simp: list_all_iff)

lemma white_space_no_overlap:
  assumes "w \<in> set white_space" "e \<in> set white_space" "u \<noteq> []" "prefix e (u @ w)"
  shows "prefix e u"
proof (rule ccontr)
  assume "\<not> prefix e u"
  with assms(4) obtain v where e: "e = u @ v" "v \<noteq> []" "prefix v w"
    by (auto simp: prefix_append)
  obtain a u' where u: "u = a # u'"
    using assms(3) by (cases u) auto
  obtain b v' where v: "v = b # v'"
    using e(2) by (cases v) auto
  have "b \<in> set (tl e)"
    by (simp add: e u v)
  moreover have "b = hd w"
    using e(3) v by (auto simp: prefix_def)
  ultimately show False
    using white_space_prefix_free(3) [OF assms(1,2)] by simp
qed

lemma starts_ws_append:
  assumes "w \<in> set white_space" "u \<noteq> []" "\<not> starts_ws white_space u"
  shows "\<not> starts_ws white_space (u @ w)"
  using assms white_space_no_overlap [OF assms(1) _ assms(2)] by (auto simp: starts_ws_def)

lemma trim_start_append_ws:
  assumes w: "w \<in> set white_space"
  shows "trim_start (s @ w) = (if trim_start s = [] then [] else trim_start s @ w)"
  unfolding trim_start_def
proof (induction "length s" arbitrary: s rule: less_induct)
  case less
  consider (nil) "s = []" | (stop) "s \<noteq> []" "\<not> starts_ws white_space s" | (go) "starts_ws white_space s"
    by blast
  then show ?case
  proof cases
    case nil
    have "find (\<lambda>x. x \<noteq> [] \<and> prefix x w) white_space = Some w"
      using w ws_nonempty white_space_prefix_free(1) by (intro find_unique) auto
    with nil show ?thesis
      by (simp add: strip_all.simps [of _ w])
  next
    case stop
    then show ?thesis
      using starts_ws_append [OF w] by (simp add: strip_all_id)
  next
    case go
    obtain e where e: "find (\<lambda>x. x \<noteq> [] \<and> prefix x s) white_space = Some e"
      using go find_ws_None by (metis not_None_eq)
    then have e': "e \<noteq> []" "prefix e s" "e \<in> set white_space"
      by (auto simp: find_Some_iff)
    have s: "s \<noteq> []"
      using e' by auto
    have "x \<in> set white_space \<Longrightarrow> prefix x (s @ w) \<longleftrightarrow> prefix x s" for x
      using white_space_no_overlap [OF w _ s] by (auto simp: prefix_append)
    then have "find (\<lambda>x. x \<noteq> [] \<and> prefix x (s @ w)) white_space = Some e"
      using e by (subst find_cong [OF refl, where Q = "\<lambda>x. x \<noteq> [] \<and> prefix x s"]) auto
    then have "strip_all white_space (s @ w) = strip_all white_space (drop (length e) s @ w)"
      using e' by (simp add: strip_all.simps [of _ "s @ w"] prefix_length_le)
    moreover have "strip_all white_space s = strip_all white_space (drop (length e) s)"
      using e by (simp add: strip_all.simps [of _ s])
    moreover have "length (drop (length e) s) < length s"
      using e' s by simp
    ultimately show ?thesis
      using less.hyps by metis
  qed
qed

lemma trim_end_append_ws:
  assumes w: "w \<in> set white_space"
  shows "trim_end (s @ w) = trim_end s"
proof -
  have "find (\<lambda>x. x \<noteq> [] \<and> prefix x (rev w @ rev s)) (map rev white_space) = Some (rev w)"
  proof (rule find_unique)
    fix x
    assume "x \<in> set (map rev white_space)" and "x \<noteq> [] \<and> prefix x (rev w @ rev s)"
    then obtain e where e: "e \<in> set white_space" "x = rev e" "prefix (rev e) (rev w @ rev s)"
      by auto
    then have "prefix (rev e) (rev w) \<or> prefix (rev w) (rev e)"
      by (auto simp: prefix_append)
    then show "x = rev w"
      using white_space_prefix_free(2) [OF e(1) w] white_space_prefix_free(2) [OF w e(1)] e(2) by auto
  qed (use w ws_nonempty in auto)
  then show ?thesis
    by (simp add: trim_end_def strip_all.simps [of _ "rev w @ rev s"])
qed

lemma trim_append_ws: "w \<in> set white_space \<Longrightarrow> trim (s @ w) = trim s"
  by (simp add: trim_def trim_start_append_ws trim_end_append_ws)

lemma trim_trim_end: "trim (trim_end s) = trim s"
proof (induction "length s" arbitrary: s rule: less_induct)
  case less
  show ?case
  proof (cases "starts_ws (map rev white_space) (rev s)")
    case False
    then show ?thesis
      by (simp add: trim_end_def strip_all_id)
  next
    case True
    then obtain w where w: "w \<in> set white_space" "prefix (rev w) (rev s)"
      by (auto simp: starts_ws_def)
    then obtain t where s: "s = t @ w"
      by (auto simp: suffix_to_prefix [symmetric] suffix_def)
    have "length t < length s"
      using w(1) s ws_nonempty by simp
    then show ?thesis
      using less.hyps [of t] w(1) by (simp add: s trim_end_append_ws trim_append_ws)
  qed
qed

lemma pass_monotone:
  assumes "key \<in> set passes" "key a = key b"
  shows "normalise a = normalise b"
proof -
  have "trim_end a = trim_end b \<Longrightarrow> trim a = trim b"
    by (metis trim_trim_end)
  then show ?thesis
    using assms by (auto simp: passes_def normalise_def)
qed

lemma map_eq_map_list_all2: "map f xs = map f ys \<longleftrightarrow> list_all2 (\<lambda>a b. f a = f b) xs ys"
  by (simp add: list.rel_eq [symmetric] list_all2_map1 list_all2_map2)

lemma matches_at_normalise:
  assumes "key \<in> set passes" "matches_at key lines pattern i"
  shows "matches_at normalise lines pattern i"
proof -
  have "list_all2 (\<lambda>a b. key a = key b) (take (length pattern) (drop i lines)) pattern"
    using assms(2) by (simp add: matches_at_def map_eq_map_list_all2)
  then have "list_all2 (\<lambda>a b. normalise a = normalise b) (take (length pattern) (drop i lines)) pattern"
    by (rule list_all2_mono) (rule pass_monotone [OF assms(1)])
  then show ?thesis
    by (simp add: matches_at_def map_eq_map_list_all2)
qed

section \<open>The search\<close>

lemma find_upt_Some_iff:
  "find P [a..<b] = Some i \<longleftrightarrow> a \<le> i \<and> i < b \<and> P i \<and> (\<forall>j. a \<le> j \<and> j < i \<longrightarrow> \<not> P j)"
proof
  assume "find P [a..<b] = Some i"
  then obtain k where k: "k < b - a" "P ([a..<b] ! k)" "i = [a..<b] ! k" "\<forall>j < k. \<not> P ([a..<b] ! j)"
    by (auto simp: find_Some_iff)
  then have "\<not> P j" if "a \<le> j" "j < i" for j
    using spec [OF k(4), of "j - a"] that by simp
  with k show "a \<le> i \<and> i < b \<and> P i \<and> (\<forall>j. a \<le> j \<and> j < i \<longrightarrow> \<not> P j)"
    by simp
next
  assume "a \<le> i \<and> i < b \<and> P i \<and> (\<forall>j. a \<le> j \<and> j < i \<longrightarrow> \<not> P j)"
  then show "find P [a..<b] = Some i"
    unfolding find_Some_iff by (intro exI [of _ "i - a"]) auto
qed

lemma seek_pass_Some_iff:
  "seek_pass lines pattern a key = Some i \<longleftrightarrow>
   a \<le> i \<and> i \<le> length lines - length pattern \<and> matches_at key lines pattern i \<and>
   (\<forall>j. a \<le> j \<and> j < i \<longrightarrow> \<not> matches_at key lines pattern j)"
  unfolding seek_pass_def find_upt_Some_iff by (simp only: less_Suc_eq_le)

lemma seek_pass_None_iff:
  "seek_pass lines pattern a key = None \<longleftrightarrow>
   (\<forall>i. a \<le> i \<and> i \<le> length lines - length pattern \<longrightarrow> \<not> matches_at key lines pattern i)"
  by (auto simp: seek_pass_def find_None_iff)

lemma find_map_pass_Some_iff:
  "find_map f xs = Some i \<longleftrightarrow> (\<exists>k < length xs. f (xs ! k) = Some i \<and> (\<forall>k' < k. f (xs ! k') = None))"
proof (induction xs)
  case Nil
  then show ?case by simp
next
  case (Cons x xs)
  show ?case
    unfolding length_Cons Ex_less_Suc2 using Cons.IH
    by (cases "f x") (simp_all add: All_less_Suc2)
qed

definition first_position :: "string list \<Rightarrow> string list \<Rightarrow> nat \<Rightarrow> bool \<Rightarrow> nat" where
  "first_position lines pattern start eof =
     (if eof then length lines - length pattern else start)"

lemma seek_sequence_eq:
  "pattern \<noteq> [] \<Longrightarrow> length pattern \<le> length lines \<Longrightarrow>
   seek_sequence lines pattern start eof =
     find_map (seek_pass lines pattern (first_position lines pattern start eof)) passes"
  by (simp add: seek_sequence_def first_position_def Let_def)

lemma seek_sequence_Some:
  assumes "seek_sequence lines pattern start eof = Some i" "pattern \<noteq> []"
  shows "first_position lines pattern start eof \<le> i" "i + length pattern \<le> length lines"
    "matches_at normalise lines pattern i"
proof -
  have le: "length pattern \<le> length lines"
    using assms by (auto simp: seek_sequence_def split: if_splits)
  then obtain k where k: "k < length passes"
    "seek_pass lines pattern (first_position lines pattern start eof) (passes ! k) = Some i"
    using assms by (auto simp: seek_sequence_eq find_map_pass_Some_iff)
  then show "first_position lines pattern start eof \<le> i" "i + length pattern \<le> length lines"
    using le by (auto simp: seek_pass_Some_iff)
  show "matches_at normalise lines pattern i"
    using k by (intro matches_at_normalise [of "passes ! k"]) (auto simp: seek_pass_Some_iff)
qed

text \<open>
  The search for the lines of a patch is exactly this: among the positions from the start on
  (with the end-of-file flag, only the last one) a position is found at the strictest of the four
  comparisons that succeeds anywhere, and there it is the first one; nothing is found exactly when
  no position matches even under the most lenient comparison.
\<close>

theorem seek_sequence_strictest_first:
  assumes "pattern \<noteq> []" and "length pattern \<le> length lines"
  shows "(seek_sequence lines pattern start eof = Some i \<longleftrightarrow>
      (\<exists>k < length passes.
         (first_position lines pattern start eof \<le> i \<and> i \<le> length lines - length pattern \<and>
          matches_at (passes ! k) lines pattern i) \<and>
         (\<forall>j. first_position lines pattern start eof \<le> j \<and> j < i \<longrightarrow>
            \<not> matches_at (passes ! k) lines pattern j) \<and>
         (\<forall>k' < k. \<forall>j. first_position lines pattern start eof \<le> j \<and> j \<le> length lines - length pattern \<longrightarrow>
            \<not> matches_at (passes ! k') lines pattern j))) \<and>
    (seek_sequence lines pattern start eof = None \<longleftrightarrow>
      (\<forall>j. first_position lines pattern start eof \<le> j \<and> j \<le> length lines - length pattern \<longrightarrow>
         \<not> matches_at normalise lines pattern j))"
proof
  let ?a = "first_position lines pattern start eof"
  note eq = seek_sequence_eq [OF assms, of start eof]
  show "seek_sequence lines pattern start eof = Some i \<longleftrightarrow>
      (\<exists>k < length passes.
         (?a \<le> i \<and> i \<le> length lines - length pattern \<and> matches_at (passes ! k) lines pattern i) \<and>
         (\<forall>j. ?a \<le> j \<and> j < i \<longrightarrow> \<not> matches_at (passes ! k) lines pattern j) \<and>
         (\<forall>k' < k. \<forall>j. ?a \<le> j \<and> j \<le> length lines - length pattern \<longrightarrow>
            \<not> matches_at (passes ! k') lines pattern j))"
    unfolding eq find_map_pass_Some_iff seek_pass_Some_iff seek_pass_None_iff by blast
  have last: "normalise \<in> set passes"
    by (simp add: passes_def)
  show "seek_sequence lines pattern start eof = None \<longleftrightarrow>
      (\<forall>j. ?a \<le> j \<and> j \<le> length lines - length pattern \<longrightarrow> \<not> matches_at normalise lines pattern j)"
    unfolding eq find_map_None_iff seek_pass_None_iff
    using last matches_at_normalise by blast
qed

theorem seek_sequence_strictest_first_witness:
  "seek_sequence [''a '', ''a''] [''a''] 0 False = Some 1"
proof -
  have eq: "[0..<Suc 1] = [0, Suc 0]"
    by (simp add: upt_rec)
  have "seek_sequence [''a '', ''a''] [''a''] 0 False = Some 1"
    using seek_sequence_strictest_first [of "[''a'']" "[''a '', ''a'']" 0 False 1]
    by (auto simp: first_position_def matches_at_def passes_def less_Suc_eq intro!: exI [of _ 0])
  then show ?thesis .
qed

text \<open>
  With the end-of-file flag there is no fall-back to the start: only the last position is
  tried, whatever the start, so a pattern that occurs earlier in the file is not found, and a
  position before the start can be returned.
\<close>

theorem seek_eof_only_last_position:
  assumes "seek_sequence lines pattern start True = Some i" and "pattern \<noteq> []"
  shows "i = length lines - length pattern \<and>
    seek_sequence [''a'', ''b''] [''a''] 0 True = None \<and>
    seek_sequence [''a'', ''b''] [''b''] 2 True = Some 1"
proof (intro conjI)
  show "i = length lines - length pattern"
    using seek_sequence_Some [OF assms] by (simp add: first_position_def)
  show "seek_sequence [''a'', ''b''] [''a''] 0 True = None"
    by code_simp
  show "seek_sequence [''a'', ''b''] [''b''] 2 True = Some 1"
    by code_simp
qed

theorem seek_eof_only_last_position_witness:
  "seek_sequence [''a''] [''a''] 0 True = Some 0"
proof -
  have found: "seek_sequence [''a''] [''a''] 0 True = Some 0"
    by code_simp
  show ?thesis
    using found seek_eof_only_last_position [OF found] by simp
qed

end
