(* ===== verification/Patch_Parser.thy ===== *)
theory Patch_Parser
  imports Patch_Seek
begin

text \<open>
  The patch format (\<^verbatim>\<open>apply-patch/src/parser.rs\<close>) and its incremental parser
  (\<^verbatim>\<open>apply-patch/src/streaming_parser.rs\<close>). Paths are kept as the text of the patch.
\<close>

section \<open>Definitions\<close>

subsection \<open>Patches\<close>

definition BEGIN_PATCH_MARKER :: string where "BEGIN_PATCH_MARKER = ''*** Begin Patch''"

definition END_PATCH_MARKER :: string where "END_PATCH_MARKER = ''*** End Patch''"

definition ADD_FILE_MARKER :: string where "ADD_FILE_MARKER = ''*** Add File: ''"

definition DELETE_FILE_MARKER :: string where "DELETE_FILE_MARKER = ''*** Delete File: ''"

definition UPDATE_FILE_MARKER :: string where "UPDATE_FILE_MARKER = ''*** Update File: ''"

definition MOVE_TO_MARKER :: string where "MOVE_TO_MARKER = ''*** Move to: ''"

definition EOF_MARKER :: string where "EOF_MARKER = ''*** End of File''"

definition CHANGE_CONTEXT_MARKER :: string where "CHANGE_CONTEXT_MARKER = ''@@ ''"

definition EMPTY_CHANGE_CONTEXT_MARKER :: string where "EMPTY_CHANGE_CONTEXT_MARKER = ''@@''"

definition ENVIRONMENT_ID_MARKER :: string where "ENVIRONMENT_ID_MARKER = ''*** Environment ID:''"

lemmas marker_defs = BEGIN_PATCH_MARKER_def END_PATCH_MARKER_def ADD_FILE_MARKER_def
  DELETE_FILE_MARKER_def UPDATE_FILE_MARKER_def MOVE_TO_MARKER_def EOF_MARKER_def
  CHANGE_CONTEXT_MARKER_def EMPTY_CHANGE_CONTEXT_MARKER_def ENVIRONMENT_ID_MARKER_def

datatype parse_error = InvalidPatchError string | InvalidHunkError string nat

record update_file_chunk =
  change_context :: "string option"
  old_lines :: "string list"
  new_lines :: "string list"
  is_end_of_file :: bool

datatype hunk =
    AddFile string string
  | DeleteFile string
  | UpdateFile string "string option" "update_file_chunk list"

fun hunk_path :: "hunk \<Rightarrow> string" where
  "hunk_path (AddFile path contents) = path"
| "hunk_path (DeleteFile path) = path"
| "hunk_path (UpdateFile path move_path chunks) = (case move_path of Some p \<Rightarrow> p | None \<Rightarrow> path)"

record apply_patch_args =
  args_patch :: string
  args_hunks :: "hunk list"
  args_workdir :: "string option"
  args_environment_id :: "string option"

subsection \<open>The streaming parser\<close>

datatype parser_mode =
  NotStarted | StartedPatch | InAddFile | InDeleteFile | InUpdateFile nat | EndedPatch

record patch_parser =
  line_buffer :: string
  parser_mode :: parser_mode
  parser_hunks :: "hunk list"
  environment_id :: "string option"
  line_number :: nat

definition new_parser :: patch_parser where
  "new_parser = \<lparr>line_buffer = [], parser_mode = NotStarted, parser_hunks = [],
     environment_id = None, line_number = 0\<rparr>"

definition squote :: "string \<Rightarrow> string" where
  "squote s = CHR 0x27 # s @ [CHR 0x27]"

definition first_line_error :: parse_error where
  "first_line_error = InvalidPatchError (''The first line of the patch must be '' @ squote BEGIN_PATCH_MARKER)"

definition last_line_error :: parse_error where
  "last_line_error = InvalidPatchError (''The last line of the patch must be '' @ squote END_PATCH_MARKER)"

definition unexpected_line :: "string \<Rightarrow> nat \<Rightarrow> parse_error" where
  "unexpected_line line n = InvalidHunkError
     (''Unexpected line found in update hunk: '' @ squote line @ ''. Every line should start with '' @
      squote '' '' @ '' (context line), '' @ squote ''+'' @ '' (added line), or '' @ squote ''-'' @
      '' (removed line)'') n"

definition expected_context :: "string \<Rightarrow> nat \<Rightarrow> parse_error" where
  "expected_context line n = InvalidHunkError
     (''Expected update hunk to start with a @@ context marker, got: '' @ squote line) n"

definition invalid_header :: "string \<Rightarrow> nat \<Rightarrow> parse_error" where
  "invalid_header trimmed n = InvalidHunkError
     (squote trimmed @ '' is not a valid hunk header. Valid hunk headers: '' @
      squote ''*** Add File: {path}'' @ '', '' @ squote ''*** Delete File: {path}'' @ '', '' @
      squote ''*** Update File: {path}'') n"

definition no_lines_error :: "nat \<Rightarrow> parse_error" where
  "no_lines_error n = InvalidHunkError ''Update hunk does not contain any lines'' n"

definition chunk_empty :: "update_file_chunk \<Rightarrow> bool" where
  "chunk_empty c = (old_lines c = [] \<and> new_lines c = [])"

definition last_chunk_empty :: "update_file_chunk list \<Rightarrow> bool" where
  "last_chunk_empty chunks = (chunks \<noteq> [] \<and> chunk_empty (last chunks))"

fun last_hunk :: "hunk list \<Rightarrow> hunk option" where
  "last_hunk [] = None"
| "last_hunk (h # hs) = Some (last (h # hs))"

definition ensure_update_hunk_is_not_empty ::
  "patch_parser \<Rightarrow> string \<Rightarrow> (parse_error, unit) result" where
  "ensure_update_hunk_is_not_empty p line =
     (case last_hunk (parser_hunks p) of
        Some (UpdateFile path move_path chunks) \<Rightarrow>
          (case (chunks, parser_mode p) of
             ([], InUpdateFile hunk_line_number) \<Rightarrow>
               Err (InvalidHunkError (''Update file hunk for path '' @ squote path @ '' is empty'') hunk_line_number)
           | _ \<Rightarrow>
               if last_chunk_empty chunks then
                 Err (if line = END_PATCH_MARKER then no_lines_error (line_number p)
                      else unexpected_line line (line_number p))
               else Ok ())
      | _ \<Rightarrow> Ok ())"

text \<open>\<^term>\<open>Ok None\<close> when the line is no header, so that the caller has to handle it.\<close>

definition push_hunk :: "patch_parser \<Rightarrow> string \<Rightarrow> hunk \<Rightarrow> parser_mode \<Rightarrow> (parse_error, patch_parser option) result" where
  "push_hunk p trimmed h m =
     res_bind (ensure_update_hunk_is_not_empty p trimmed)
       (\<lambda>_. Ok (Some (p\<lparr>parser_hunks := parser_hunks p @ [h], parser_mode := m\<rparr>)))"

definition handle_environment_id :: "patch_parser \<Rightarrow> string \<Rightarrow> (parse_error, patch_parser option) result" where
  "handle_environment_id p eid =
     (if environment_id p \<noteq> None then
        Err (InvalidPatchError ''apply_patch environment_id cannot be specified more than once'')
      else if trim eid = [] then
        Err (InvalidPatchError ''apply_patch environment_id cannot be empty'')
      else Ok (Some (p\<lparr>environment_id := Some (trim eid)\<rparr>)))"

definition handle_hunk_header :: "patch_parser \<Rightarrow> string \<Rightarrow> (parse_error, patch_parser option) result" where
  "handle_hunk_header p trimmed =
     (if trimmed = END_PATCH_MARKER then
        res_bind (ensure_update_hunk_is_not_empty p trimmed)
          (\<lambda>_. Ok (Some (p\<lparr>parser_mode := EndedPatch\<rparr>)))
      else case strip_prefix ADD_FILE_MARKER trimmed of
        Some path \<Rightarrow> push_hunk p trimmed (AddFile path []) InAddFile
      | None \<Rightarrow>
      case strip_prefix DELETE_FILE_MARKER trimmed of
        Some path \<Rightarrow> push_hunk p trimmed (DeleteFile path) InDeleteFile
      | None \<Rightarrow>
      case strip_prefix UPDATE_FILE_MARKER trimmed of
        Some path \<Rightarrow> push_hunk p trimmed (UpdateFile path None []) (InUpdateFile (line_number p))
      | None \<Rightarrow> Ok None)"

definition handle_hunk_headers_and_end_patch ::
  "patch_parser \<Rightarrow> string \<Rightarrow> (parse_error, patch_parser option) result" where
  "handle_hunk_headers_and_end_patch p trimmed =
     (case (parser_mode p, strip_prefix ENVIRONMENT_ID_MARKER trimmed) of
        (StartedPatch, Some eid) \<Rightarrow> handle_environment_id p eid
      | _ \<Rightarrow> handle_hunk_header p trimmed)"

definition empty_chunk :: "string option \<Rightarrow> update_file_chunk" where
  "empty_chunk ctx = \<lparr>change_context = ctx, old_lines = [], new_lines = [], is_end_of_file = False\<rparr>"

text \<open>Change the last chunk, after adding a first one without context if there is none.\<close>

definition on_last_chunk ::
  "(update_file_chunk \<Rightarrow> update_file_chunk) \<Rightarrow> update_file_chunk list \<Rightarrow> update_file_chunk list" where
  "on_last_chunk f chunks =
     (let cs = (if chunks = [] then [empty_chunk None] else chunks) in butlast cs @ [f (last cs)])"

definition is_context_marker :: "string \<Rightarrow> bool" where
  "is_context_marker update_line \<longleftrightarrow>
     update_line = EMPTY_CHANGE_CONTEXT_MARKER \<or> prefix CHANGE_CONTEXT_MARKER update_line"

text \<open>One line of an update hunk: the new destination and chunks, or the error.\<close>

definition update_body_line ::
  "nat \<Rightarrow> string \<Rightarrow> update_file_chunk list \<Rightarrow> (parse_error, update_file_chunk list) result" where
  "update_body_line n line chunks =
     (if line = [] then
        Ok (on_last_chunk (\<lambda>c. c\<lparr>old_lines := old_lines c @ [[]], new_lines := new_lines c @ [[]]\<rparr>) chunks)
      else case strip_prefix '' '' line of
        Some l \<Rightarrow> Ok (on_last_chunk (\<lambda>c. c\<lparr>old_lines := old_lines c @ [l], new_lines := new_lines c @ [l]\<rparr>) chunks)
      | None \<Rightarrow>
      case strip_prefix ''+'' line of
        Some l \<Rightarrow> Ok (on_last_chunk (\<lambda>c. c\<lparr>new_lines := new_lines c @ [l]\<rparr>) chunks)
      | None \<Rightarrow>
      case strip_prefix ''-'' line of
        Some l \<Rightarrow> Ok (on_last_chunk (\<lambda>c. c\<lparr>old_lines := old_lines c @ [l]\<rparr>) chunks)
      | None \<Rightarrow>
          if chunks \<noteq> [] \<and> \<not> chunk_empty (last chunks) then Err (expected_context line n)
          else Err (unexpected_line line n))"

definition mark_end_of_file :: "update_file_chunk list \<Rightarrow> update_file_chunk list" where
  "mark_end_of_file chunks =
     (if chunks = [] then [] else butlast chunks @ [(last chunks)\<lparr>is_end_of_file := True\<rparr>])"

definition update_line_step ::
  "nat \<Rightarrow> string \<Rightarrow> string option \<Rightarrow> update_file_chunk list \<Rightarrow>
   (parse_error, string option \<times> update_file_chunk list) result" where
  "update_line_step n line move_path chunks =
     (let update_line = trim_end line;
          after_eof = (chunks \<noteq> [] \<and> is_end_of_file (last chunks));
          move_to = (if chunks = [] \<and> move_path = None then strip_prefix MOVE_TO_MARKER update_line else None)
      in if after_eof \<and> update_line = [] then Ok (move_path, chunks)
         else if after_eof \<and> \<not> is_context_marker update_line then Err (expected_context line n)
         else case move_to of Some dest \<Rightarrow> Ok (Some dest, chunks) | None \<Rightarrow>
         if is_context_marker update_line \<and> last_chunk_empty chunks then Err (unexpected_line line n)
         else if update_line = EMPTY_CHANGE_CONTEXT_MARKER then Ok (move_path, chunks @ [empty_chunk None])
         else case strip_prefix CHANGE_CONTEXT_MARKER update_line of
             Some ctx \<Rightarrow> Ok (move_path, chunks @ [empty_chunk (Some ctx)])
           | None \<Rightarrow>
         if update_line = EOF_MARKER then
           (if last_chunk_empty chunks then Err (no_lines_error n)
            else Ok (move_path, mark_end_of_file chunks))
         else res_bind (update_body_line n line chunks) (\<lambda>cs. Ok (move_path, cs)))"

definition process_update_line :: "patch_parser \<Rightarrow> string \<Rightarrow> (parse_error, patch_parser) result" where
  "process_update_line p line =
     (case last_hunk (parser_hunks p) of
        Some (UpdateFile path move_path chunks) \<Rightarrow>
          res_bind (update_line_step (line_number p) line move_path chunks)
            (\<lambda>(mv, cs). Ok (p\<lparr>parser_hunks := butlast (parser_hunks p) @ [UpdateFile path mv cs]\<rparr>))
      | _ \<Rightarrow> Err (unexpected_line line (line_number p)))"

definition or_else_line ::
  "(parse_error, patch_parser option) result \<Rightarrow> (parse_error, patch_parser) result \<Rightarrow> (parse_error, patch_parser) result" where
  "or_else_line headers other =
     res_bind headers (\<lambda>r. case r of Some p \<Rightarrow> Ok p | None \<Rightarrow> other)"

definition process_add_line :: "patch_parser \<Rightarrow> string \<Rightarrow> (parse_error, patch_parser) result" where
  "process_add_line p line =
     (case (strip_prefix ''+'' line, last_hunk (parser_hunks p)) of
        (Some line_to_add, Some (AddFile path contents)) \<Rightarrow>
          Ok (p\<lparr>parser_hunks := butlast (parser_hunks p) @ [AddFile path (contents @ line_to_add @ [NL])]\<rparr>)
      | _ \<Rightarrow> Err (invalid_header (trim line) (line_number p)))"

definition process_line :: "patch_parser \<Rightarrow> string \<Rightarrow> (parse_error, patch_parser) result" where
  "process_line p line =
     (case parser_mode p of
        NotStarted \<Rightarrow>
          if trim line = BEGIN_PATCH_MARKER then Ok (p\<lparr>parser_mode := StartedPatch\<rparr>)
          else Err first_line_error
      | StartedPatch \<Rightarrow>
          or_else_line (handle_hunk_headers_and_end_patch p (trim line))
            (Err (invalid_header (trim line) (line_number p)))
      | InAddFile \<Rightarrow>
          or_else_line (handle_hunk_headers_and_end_patch p (trim line)) (process_add_line p line)
      | InDeleteFile \<Rightarrow>
          or_else_line (handle_hunk_headers_and_end_patch p (trim line))
            (Err (invalid_header (trim line) (line_number p)))
      | InUpdateFile hunk_line_number \<Rightarrow>
          or_else_line (handle_hunk_headers_and_end_patch p (trim_end line)) (process_update_line p line)
      | EndedPatch \<Rightarrow> if trim line = [] then Ok p else Err last_line_error)"

text \<open>
  A delta in pieces. An error leaves the parser as it is after the line that raised it was taken
  from the buffer, and drops the rest of the delta.
\<close>

definition strip_cr :: "string \<Rightarrow> string" where
  "strip_cr line = (case strip_suffix [CR] line of Some l \<Rightarrow> l | None \<Rightarrow> line)"

fun push_chars :: "patch_parser \<Rightarrow> string \<Rightarrow> (parse_error, unit) result \<times> patch_parser" where
  "push_chars p [] = (Ok (), p)"
| "push_chars p (c # cs) =
     (if c = NL then
        (let taken = p\<lparr>line_buffer := [], line_number := line_number p + 1\<rparr>
         in case process_line taken (strip_cr (line_buffer p)) of
              Inl e \<Rightarrow> (Err e, taken)
            | Inr p' \<Rightarrow> push_chars p' cs)
      else push_chars (p\<lparr>line_buffer := line_buffer p @ [c]\<rparr>) cs)"

definition push_delta :: "patch_parser \<Rightarrow> string \<Rightarrow> (parse_error, hunk list) result \<times> patch_parser" where
  "push_delta p delta =
     (case push_chars p delta of
        (Inl e, p') \<Rightarrow> (Err e, p')
      | (Inr _, p') \<Rightarrow> (Ok (parser_hunks p'), p'))"

definition finish_line :: "patch_parser \<Rightarrow> (parse_error, patch_parser) result" where
  "finish_line p =
     (if line_buffer p = [] then Ok p
      else
        let line = line_buffer p;
            taken = p\<lparr>line_buffer := [], line_number := line_number p + 1\<rparr>
        in if trim line = END_PATCH_MARKER
           then res_bind (ensure_update_hunk_is_not_empty taken (trim line))
                  (\<lambda>_. Ok (taken\<lparr>parser_mode := EndedPatch\<rparr>))
           else process_line taken line)"

definition finish :: "patch_parser \<Rightarrow> (parse_error, patch_parser) result" where
  "finish p =
     res_bind (finish_line p)
       (\<lambda>p'. if parser_mode p' = EndedPatch then Ok p' else Err last_line_error)"

subsection \<open>Whole patches\<close>

datatype parse_mode = Strict | Lenient

fun first_and_last :: "string list \<Rightarrow> string option \<times> string option" where
  "first_and_last [] = (None, None)"
| "first_and_last (l # ls) = (Some l, Some (last (l # ls)))"

definition check_start_and_end_lines_strict ::
  "string option \<Rightarrow> string option \<Rightarrow> (parse_error, unit) result" where
  "check_start_and_end_lines_strict first_line last_line =
     (case (map_option trim first_line, map_option trim last_line) of
        (Some f, l) \<Rightarrow>
          if f = BEGIN_PATCH_MARKER \<and> l = Some END_PATCH_MARKER then Ok ()
          else if f \<noteq> BEGIN_PATCH_MARKER then Err first_line_error
          else Err last_line_error
      | _ \<Rightarrow> Err last_line_error)"

definition check_patch_boundaries_strict :: "string list \<Rightarrow> (parse_error, string list) result" where
  "check_patch_boundaries_strict lines =
     (case first_and_last lines of
        (f, l) \<Rightarrow> res_bind (check_start_and_end_lines_strict f l) (\<lambda>_. Ok lines))"

definition is_heredoc_start :: "string \<Rightarrow> bool" where
  "is_heredoc_start first \<longleftrightarrow>
     first = ''<<EOF'' \<or> first = ''<<'' @ squote ''EOF'' \<or> first = ''<<'' @ [CHR 0x22] @ ''EOF'' @ [CHR 0x22]"

definition check_patch_boundaries_lenient :: "string list \<Rightarrow> (parse_error, string list) result" where
  "check_patch_boundaries_lenient original_lines =
     (case check_patch_boundaries_strict original_lines of
        Inr lines \<Rightarrow> Ok lines
      | Inl original_parse_error \<Rightarrow>
          if 2 \<le> length original_lines \<and> is_heredoc_start (hd original_lines) \<and>
             ends_with (last original_lines) ''EOF'' \<and> 4 \<le> length original_lines
          then check_patch_boundaries_strict (butlast (tl original_lines))
          else Err original_parse_error)"

definition parse_patch_text :: "string \<Rightarrow> parse_mode \<Rightarrow> (parse_error, apply_patch_args) result" where
  "parse_patch_text patch mode =
     (let lines = str_lines (trim patch)
      in res_bind (case mode of Strict \<Rightarrow> check_patch_boundaries_strict lines
                              | Lenient \<Rightarrow> check_patch_boundaries_lenient lines)
           (\<lambda>patch_lines. let text = join [NL] patch_lines in
              case push_delta new_parser text of
                (Inl e, _) \<Rightarrow> Err e
              | (Inr _, parser) \<Rightarrow>
                  res_bind (finish parser)
                    (\<lambda>done. Ok \<lparr>args_patch = text, args_hunks = parser_hunks done, args_workdir = None,
                       args_environment_id = environment_id done\<rparr>)))"

definition PARSE_IN_STRICT_MODE :: bool where "PARSE_IN_STRICT_MODE = False"

definition parse_patch :: "string \<Rightarrow> (parse_error, apply_patch_args) result" where
  "parse_patch patch = parse_patch_text patch (if PARSE_IN_STRICT_MODE then Strict else Lenient)"

section \<open>Deltas\<close>

lemma last_hunk_snoc [simp]: "last_hunk (hs @ [h]) = Some h"
  by (cases hs) auto

lemma push_chars_append:
  "push_chars p (a @ b) =
     (case push_chars p a of (Inl e, p') \<Rightarrow> (Err e, p') | (Inr _, p') \<Rightarrow> push_chars p' b)"
  by (induction p a rule: push_chars.induct) (auto simp: Let_def split: sum.splits)

fun push_deltas :: "patch_parser \<Rightarrow> string list \<Rightarrow> (parse_error, hunk list) result \<times> patch_parser" where
  "push_deltas p [] = (Ok (parser_hunks p), p)"
| "push_deltas p (d # ds) =
     (case push_delta p d of (Inl e, p') \<Rightarrow> (Err e, p') | (Inr _, p') \<Rightarrow> push_deltas p' ds)"

text \<open>
  C34: The parser is insensitive to how its input is cut into deltas: pushing the pieces of a patch
  one after the other, stopping at the first error, gives the same answer and the same parser as
  pushing the whole text at once.
\<close>

theorem deltas_are_associative: "push_deltas p ds = push_delta p (concat ds)"
proof (induction ds arbitrary: p)
  case Nil
  then show ?case by (simp add: push_delta_def)
next
  case (Cons d ds)
  then show ?case
    by (auto simp: push_delta_def push_chars_append split: sum.splits prod.splits)
qed

section \<open>Lines\<close>

text \<open>The parser seen line by line, the way the round trip below feeds it.\<close>

definition take_line :: "patch_parser \<Rightarrow> patch_parser" where
  "take_line p = p\<lparr>line_buffer := [], line_number := line_number p + 1\<rparr>"

fun process_lines :: "patch_parser \<Rightarrow> string list \<Rightarrow> (parse_error, patch_parser) result" where
  "process_lines p [] = Ok p"
| "process_lines p (l # ls) = res_bind (process_line (take_line p) l) (\<lambda>p'. process_lines p' ls)"

lemma process_lines_append:
  "process_lines p (a @ b) = res_bind (process_lines p a) (\<lambda>p'. process_lines p' b)"
  by (induction a arbitrary: p) (auto simp: res_bind_def split: sum.splits)

definition line_ok :: "string \<Rightarrow> bool" where
  "line_ok l \<longleftrightarrow> NL \<notin> set l \<and> \<not> suffix [CR] l"

lemma strip_cr_id: "\<not> suffix [CR] l \<Longrightarrow> strip_cr l = l"
  by (simp add: strip_cr_def strip_suffix_None_iff [THEN iffD2])

lemma push_chars_buffer:
  "NL \<notin> set l \<Longrightarrow> push_chars p l = (Ok (), p\<lparr>line_buffer := line_buffer p @ l\<rparr>)"
  by (induction l arbitrary: p) auto

lemma parser_line_buffer_id: "line_buffer p = b \<Longrightarrow> p\<lparr>line_buffer := b\<rparr> = p"
  by (cases p) simp

lemma process_line_buffer:
  assumes "process_line p l = Ok p'"
  shows "line_buffer p' = line_buffer p" and "line_number p' = line_number p"
  using assms
  by (auto simp: process_line_def or_else_line_def handle_hunk_headers_and_end_patch_def
      handle_environment_id_def handle_hunk_header_def push_hunk_def process_add_line_def
      process_update_line_def res_bind_def
      split: parser_mode.splits if_splits sum.splits option.splits hunk.splits prod.splits)

lemma process_lines_buffer:
  "process_lines p ls = Ok p' \<Longrightarrow> line_buffer p = [] \<Longrightarrow> line_buffer p' = []"
  by (induction ls arbitrary: p)
    (auto simp: res_bind_def take_line_def split: sum.splits dest: process_line_buffer(1))

lemma push_chars_line:
  assumes "line_ok l" "line_buffer p = []"
  shows "push_chars p (l @ NL # rest) =
     (case process_line (take_line p) l of Inl e \<Rightarrow> (Err e, take_line p) | Inr p' \<Rightarrow> push_chars p' rest)"
  using assms
  by (simp add: push_chars_append push_chars_buffer line_ok_def strip_cr_id Let_def take_line_def split: sum.split)

lemma push_chars_lines:
  assumes "\<forall>l \<in> set ls. line_ok l" "line_buffer p = []" "process_lines p ls = Ok p'"
  shows "push_chars p (concat (map (\<lambda>l. l @ [NL]) ls) @ rest) = push_chars p' rest"
  using assms
proof (induction ls arbitrary: p)
  case Nil
  then show ?case by simp
next
  case (Cons l ls)
  then obtain q where q: "process_line (take_line p) l = Ok q" "process_lines q ls = Ok p'"
    by (auto simp: res_bind_def split: sum.splits)
  then have "line_buffer q = []"
    using process_line_buffer(1) [OF q(1)] by (simp add: take_line_def)
  with Cons q show ?case
    using push_chars_line [of l p "concat (map (\<lambda>l. l @ [NL]) ls) @ rest"] by simp
qed

section \<open>Accepted patches are well formed\<close>

fun hunk_complete :: "hunk \<Rightarrow> bool" where
  "hunk_complete (AddFile path contents) \<longleftrightarrow> contents = [] \<or> last contents = NL"
| "hunk_complete (DeleteFile path) \<longleftrightarrow> True"
| "hunk_complete (UpdateFile path mv chunks) \<longleftrightarrow> chunks \<noteq> [] \<and> (\<forall>c \<in> set chunks. \<not> chunk_empty c)"

definition update_open :: "hunk list \<Rightarrow> bool" where
  "update_open hs \<longleftrightarrow>
     (\<exists>hs' path mv cs. hs = hs' @ [UpdateFile path mv cs] \<and> (\<forall>h \<in> set hs'. hunk_complete h) \<and>
        (\<forall>c \<in> set (butlast cs). \<not> chunk_empty c))"

definition eid_wf :: "string option \<Rightarrow> bool" where
  "eid_wf e \<longleftrightarrow> (\<forall>x. e = Some x \<longrightarrow> x \<noteq> [] \<and> trim x = x)"

definition parser_ok :: "patch_parser \<Rightarrow> bool" where
  "parser_ok p \<longleftrightarrow>
     eid_wf (environment_id p) \<and>
     (case parser_mode p of
        InUpdateFile n \<Rightarrow> update_open (parser_hunks p)
      | _ \<Rightarrow> \<forall>h \<in> set (parser_hunks p). hunk_complete h)"

lemma parser_okI:
  "eid_wf (environment_id p) \<Longrightarrow> \<forall>h \<in> set (parser_hunks p). hunk_complete h \<Longrightarrow>
   \<forall>n. parser_mode p \<noteq> InUpdateFile n \<Longrightarrow> parser_ok p"
  by (auto simp: parser_ok_def split: parser_mode.splits)

lemma butlast_last_nonempty:
  assumes "\<forall>c \<in> set (butlast cs). \<not> chunk_empty c" "\<not> last_chunk_empty cs"
  shows "\<forall>c \<in> set cs. \<not> chunk_empty c"
proof (cases "cs = []")
  case False
  then show ?thesis
    using assms append_butlast_last_id [OF False]
    by (metis UnE last_chunk_empty_def set_ConsD set_append set_empty2 empty_iff list.set(1) set_ConsD)
qed simp

lemma ensure_ok_complete:
  assumes "parser_ok p" "ensure_update_hunk_is_not_empty p l = Ok ()"
  shows "\<forall>h \<in> set (parser_hunks p). hunk_complete h"
proof (cases "parser_mode p")
  case (InUpdateFile n)
  then obtain hs path mv cs where p: "parser_hunks p = hs @ [UpdateFile path mv cs]"
    "\<forall>h \<in> set hs. hunk_complete h" "\<forall>c \<in> set (butlast cs). \<not> chunk_empty c"
    using assms(1) by (auto simp: parser_ok_def update_open_def)
  have "cs \<noteq> [] \<and> \<not> last_chunk_empty cs"
    using assms(2) p(1) InUpdateFile
    by (auto simp: ensure_update_hunk_is_not_empty_def split: list.splits if_splits)
  then show ?thesis
    using p butlast_last_nonempty by auto
qed (use assms(1) in \<open>auto simp: parser_ok_def\<close>)

lemma handle_header_ok:
  assumes "parser_ok p" "handle_hunk_headers_and_end_patch p l = Ok (Some p')"
  shows "parser_ok p'"
proof -
  have e: "eid_wf (environment_id p)"
    using assms(1) by (simp add: parser_ok_def)
  consider (env) eid where "parser_mode p = StartedPatch" "handle_environment_id p eid = Ok (Some p')"
    | (hdr) "handle_hunk_header p l = Ok (Some p')"
    using assms(2) by (auto simp: handle_hunk_headers_and_end_patch_def split: parser_mode.splits option.splits)
  then show ?thesis
  proof cases
    case env
    then show ?thesis
      using assms(1) by (auto simp: handle_environment_id_def parser_ok_def eid_wf_def split: if_splits)
  next
    case hdr
    then have "ensure_update_hunk_is_not_empty p l = Ok ()"
      by (auto simp: handle_hunk_header_def push_hunk_def res_bind_def split: if_splits option.splits sum.splits)
    then have c: "\<forall>h \<in> set (parser_hunks p). hunk_complete h"
      by (rule ensure_ok_complete [OF assms(1)])
    have "update_open (parser_hunks p @ [UpdateFile x None []])" for x
      unfolding update_open_def using c by fastforce
    then show ?thesis
      using hdr c e
      by (auto simp: handle_hunk_header_def push_hunk_def res_bind_def parser_ok_def
          split: if_splits option.splits sum.splits)
  qed
qed

lemma butlast_on_last_chunk [simp]: "butlast (on_last_chunk f cs) = butlast cs"
  by (simp add: on_last_chunk_def Let_def)

lemma butlast_mark_end_of_file [simp]: "butlast (mark_end_of_file cs) = butlast cs"
  by (simp add: mark_end_of_file_def)

lemma update_line_step_ok:
  assumes "update_line_step n l mv cs = Ok (mv', cs')" "\<forall>c \<in> set (butlast cs). \<not> chunk_empty c"
  shows "\<forall>c \<in> set (butlast cs'). \<not> chunk_empty c"
proof -
  consider "butlast cs' = butlast cs" | x where "cs' = cs @ [x]" "\<not> last_chunk_empty cs"
    using assms(1)
    by (auto simp: update_line_step_def Let_def res_bind_def update_body_line_def is_context_marker_def
        strip_prefix_def split: if_splits option.splits sum.splits)
  then show ?thesis
    by cases (use assms(2) butlast_last_nonempty in auto)
qed

lemma process_update_ok:
  assumes "update_open (parser_hunks p)" "process_update_line p l = Ok p'"
  shows "update_open (parser_hunks p') \<and> environment_id p' = environment_id p \<and> parser_mode p' = parser_mode p"
proof -
  obtain hs path mv cs where p: "parser_hunks p = hs @ [UpdateFile path mv cs]"
    "\<forall>h \<in> set hs. hunk_complete h" "\<forall>c \<in> set (butlast cs). \<not> chunk_empty c"
    using assms(1) by (auto simp: update_open_def)
  then obtain mv' cs' where s: "update_line_step (line_number p) l mv cs = Ok (mv', cs')"
    "p' = p\<lparr>parser_hunks := hs @ [UpdateFile path mv' cs']\<rparr>"
    using assms(2) by (auto simp: process_update_line_def res_bind_def split: sum.splits)
  have "update_open (hs @ [UpdateFile path mv' cs'])"
    unfolding update_open_def using p(2) update_line_step_ok [OF s(1) p(3)] by fastforce
  with s(2) show ?thesis
    by simp
qed

lemma process_add_ok:
  assumes "\<forall>h \<in> set (parser_hunks p). hunk_complete h" "process_add_line p l = Ok p'"
  shows "(\<forall>h \<in> set (parser_hunks p'). hunk_complete h) \<and> environment_id p' = environment_id p \<and>
    parser_mode p' = parser_mode p"
proof -
  have "\<forall>h \<in> set (butlast (parser_hunks p)). hunk_complete h"
    using assms(1) by (blast dest: in_set_butlastD)
  then show ?thesis
    using assms(2) by (auto simp: process_add_line_def split: option.splits hunk.splits)
qed

lemma or_else_line_Ok:
  "or_else_line headers other = Ok p' \<longleftrightarrow> headers = Ok (Some p') \<or> (headers = Ok None \<and> other = Ok p')"
  by (auto simp: or_else_line_def res_bind_def split: sum.splits option.splits)

lemma process_line_ok:
  assumes "parser_ok p" "process_line p l = Ok p'"
  shows "parser_ok p'"
proof (cases "parser_mode p")
  case InAddFile
  then have "handle_hunk_headers_and_end_patch p (trim l) = Ok (Some p') \<or> process_add_line p l = Ok p'"
    using assms(2) by (auto simp: process_line_def or_else_line_Ok)
  then show ?thesis
    using handle_header_ok [OF assms(1)] process_add_ok [of p l p'] assms(1) InAddFile
    by (auto simp: parser_ok_def)
next
  case (InUpdateFile n)
  then have "handle_hunk_headers_and_end_patch p (trim_end l) = Ok (Some p') \<or> process_update_line p l = Ok p'"
    using assms(2) by (auto simp: process_line_def or_else_line_Ok)
  then show ?thesis
    using handle_header_ok [OF assms(1)] process_update_ok [of p l p'] assms(1) InUpdateFile
    by (auto simp: parser_ok_def)
qed (use assms handle_header_ok [OF assms(1)] in
    \<open>auto simp: process_line_def or_else_line_Ok parser_ok_def split: if_splits\<close>)

lemma parser_ok_buffer [simp]:
  "parser_ok (p\<lparr>line_buffer := b\<rparr>) = parser_ok p" "parser_ok (p\<lparr>line_buffer := b, line_number := n\<rparr>) = parser_ok p"
  by (simp_all add: parser_ok_def split: parser_mode.split)

lemma push_chars_ok: "parser_ok p \<Longrightarrow> parser_ok (snd (push_chars p cs))"
proof (induction cs arbitrary: p)
  case Nil
  then show ?case by simp
next
  case (Cons c cs)
  let ?taken = "p\<lparr>line_buffer := [], line_number := line_number p + 1\<rparr>"
  have t: "parser_ok ?taken"
    using Cons.prems by simp
  then show ?case
    using Cons process_line_ok [OF t]
    by (cases "process_line ?taken (strip_cr (line_buffer p))") (auto simp: Let_def)
qed

lemma finish_ok:
  assumes "parser_ok p" "finish p = Ok p'"
  shows "(\<forall>h \<in> set (parser_hunks p'). hunk_complete h) \<and> eid_wf (environment_id p')"
proof -
  have f: "finish_line p = Ok p'" "parser_mode p' = EndedPatch"
    using assms(2) by (auto simp: finish_def res_bind_def split: sum.splits if_splits)
  have "parser_ok p'"
  proof (cases "line_buffer p \<noteq> [] \<and> trim (line_buffer p) = END_PATCH_MARKER")
    case True
    let ?t = "p\<lparr>line_buffer := [], line_number := line_number p + 1\<rparr>"
    have "parser_ok ?t"
      using assms(1) by simp
    moreover have "ensure_update_hunk_is_not_empty ?t (trim (line_buffer p)) = Ok ()" "p' = ?t\<lparr>parser_mode := EndedPatch\<rparr>"
      using f True by (auto simp: finish_line_def Let_def res_bind_def split: sum.splits)
    ultimately show ?thesis
      using ensure_ok_complete [of ?t] by (auto simp: parser_ok_def)
  next
    case False
    then show ?thesis
      using f assms(1) process_line_ok [of "p\<lparr>line_buffer := [], line_number := line_number p + 1\<rparr>" "line_buffer p" p']
      by (auto simp: finish_line_def Let_def split: if_splits)
  qed
  then show ?thesis
    using f(2) by (simp add: parser_ok_def)
qed

text \<open>
  C33: An accepted patch has no empty change: every update has chunks, every chunk removes or adds a
  line, every added file is empty or ends with a newline, and an environment id is not blank.
\<close>

theorem accepted_patch_wellformed:
  assumes "parse_patch patch = Ok args"
  shows "(\<forall>h \<in> set (args_hunks args). hunk_complete h) \<and> eid_wf (args_environment_id args)"
proof -
  have new: "parser_ok new_parser"
    by (simp add: parser_ok_def new_parser_def eid_wf_def)
  from assms obtain ls q p' where "push_delta new_parser (join [NL] ls) = (q, p')" "is_ok q"
    and fin: "\<exists>p''. finish p' = Ok p'' \<and> args_hunks args = parser_hunks p'' \<and> args_environment_id args = environment_id p''"
    by (auto simp: parse_patch_def parse_patch_text_def PARSE_IN_STRICT_MODE_def Let_def res_bind_def is_ok_def
        split: sum.splits prod.splits)
  then have "p' = snd (push_chars new_parser (join [NL] ls))"
    by (auto simp: push_delta_def split: prod.splits sum.splits)
  then have "parser_ok p'"
    using push_chars_ok [OF new] by simp
  then show ?thesis
    using fin finish_ok by auto
qed

theorem accepted_patch_wellformed_witness:
  "\<exists>args. parse_patch (''*** Begin Patch'' @ [NL] @ ''*** Add File: a'' @ [NL] @ ''+x'' @ [NL] @ ''*** End Patch'') = Ok args \<and>
     (\<forall>h \<in> set (args_hunks args). hunk_complete h) \<and> eid_wf (args_environment_id args)"
proof -
  have "is_ok (parse_patch (''*** Begin Patch'' @ [NL] @ ''*** Add File: a'' @ [NL] @ ''+x'' @ [NL] @ ''*** End Patch''))"
    by code_simp
  then obtain args where
    "parse_patch (''*** Begin Patch'' @ [NL] @ ''*** Add File: a'' @ [NL] @ ''+x'' @ [NL] @ ''*** End Patch'') = Ok args"
    unfolding is_ok_def by (auto split: sum.splits)
  then show ?thesis
    using accepted_patch_wellformed by blast
qed

end
