(* ===== verification/Path_Uri.thy ===== *)
theory Path_Uri
  imports Unix_Path
begin

text \<open>
  Paths of possibly foreign hosts as \<^verbatim>\<open>file:\<close> URIs (\<^verbatim>\<open>utils/path-uri/src/lib.rs\<close> and
  \<^verbatim>\<open>absolute_path_normalization.rs\<close>). The packages \<^verbatim>\<open>url\<close>, \<^verbatim>\<open>urlencoding\<close> and \<^verbatim>\<open>base64\<close> are the record
  \<^verbatim>\<open>url_lib\<close> of their functions on a type of URLs; \<^verbatim>\<open>url_laws\<close> states what the proofs use of their
  documentation. A \<^verbatim>\<open>PathUri\<close> is the URL it wraps.
\<close>

section \<open>Definitions\<close>

record 'u url_lib =
  url_parse :: "string \<Rightarrow> (string, 'u) result"
  url_from_file_path :: "string \<Rightarrow> 'u option"
  url_to_file_path :: "'u \<Rightarrow> string option"
  url_scheme :: "'u \<Rightarrow> string"
  url_username :: "'u \<Rightarrow> string"
  url_password :: "'u \<Rightarrow> string option"
  url_port :: "'u \<Rightarrow> nat option"
  url_query :: "'u \<Rightarrow> string option"
  url_fragment :: "'u \<Rightarrow> string option"
  url_host :: "'u \<Rightarrow> string option"
  url_str :: "'u \<Rightarrow> string"
  url_path :: "'u \<Rightarrow> string"
  url_segments :: "'u \<Rightarrow> string list"
  url_set_host :: "'u \<Rightarrow> string option \<Rightarrow> 'u option"
  url_set_path :: "'u \<Rightarrow> string \<Rightarrow> 'u"
  seg_clear :: "'u \<Rightarrow> 'u"
  seg_pop_if_empty :: "'u \<Rightarrow> 'u"
  seg_pop :: "'u \<Rightarrow> 'u"
  seg_push :: "'u \<Rightarrow> string \<Rightarrow> 'u"
  percent_decode :: "string \<Rightarrow> string"
  url_decode :: "string \<Rightarrow> string option"
  base64_encode :: "string \<Rightarrow> string"
  base64_decode :: "string \<Rightarrow> string option"

text \<open>
  \<^verbatim>\<open>UriPanic\<close> stands for the \<^verbatim>\<open>unreachable!\<close> panics. The segments of a URL are a list, since a URL with the
  scheme \<^verbatim>\<open>file\<close> always has them; every other scheme is refused first.
\<close>

datatype path_uri_error =
    InvalidUri string
  | UnsupportedScheme string
  | InvalidFileUriPath string
  | CredentialsNotAllowed
  | PortNotAllowed
  | QueryNotAllowed
  | FragmentNotAllowed
  | JoinPathMustBeRelative string
  | UriPanic

datatype path_convention = Posix | Windows

definition native_convention :: path_convention where
  "native_convention = Posix"

abbreviation SLASH :: char where "SLASH \<equiv> CHR ''/''"

abbreviation BSLASH :: char where "BSLASH \<equiv> CHR 0x5C"

abbreviation COLON :: char where "COLON \<equiv> CHR '':''"

definition ascii_uppercase_letters :: string where
  "ascii_uppercase_letters = ''ABCDEFGHIJKLMNOPQRSTUVWXYZ''"

definition is_ascii_uppercase :: "char \<Rightarrow> bool" where
  "is_ascii_uppercase c = (c \<in> set ascii_uppercase_letters)"

definition is_ascii_alphabetic :: "char \<Rightarrow> bool" where
  "is_ascii_alphabetic c = (ascii_lower c \<in> set ''abcdefghijklmnopqrstuvwxyz'')"

definition ascii_upper :: "char \<Rightarrow> char" where
  "ascii_upper c =
     (case map_of (zip ''abcdefghijklmnopqrstuvwxyz'' ascii_uppercase_letters) c of
        Some d \<Rightarrow> d
      | None \<Rightarrow> c)"

definition is_windows_separator :: "char \<Rightarrow> bool" where
  "is_windows_separator c = (c = BSLASH \<or> c = SLASH)"

subsection \<open>Validation of URLs\<close>

definition BAD_PATH_URI_PREFIX :: string where
  "BAD_PATH_URI_PREFIX = ''file:///%00/bad/path/''"

definition decode_bad_path_uri :: "'u url_lib \<Rightarrow> 'u \<Rightarrow> string option" where
  "decode_bad_path_uri L u =
     (case strip_prefix BAD_PATH_URI_PREFIX (url_str L u) of
        None \<Rightarrow> None
      | Some encoded \<Rightarrow>
          if encoded = [] \<or> SLASH \<in> set encoded then None
          else case base64_decode L encoded of
              None \<Rightarrow> None
            | Some bytes \<Rightarrow> if base64_encode L bytes = encoded then Some bytes else None)"

definition validate_common_known_uri :: "'u url_lib \<Rightarrow> 'u \<Rightarrow> (path_uri_error, unit) result" where
  "validate_common_known_uri L u =
     (if url_username L u \<noteq> [] \<or> url_password L u \<noteq> None then Err CredentialsNotAllowed
      else if url_port L u \<noteq> None then Err PortNotAllowed
      else if url_query L u \<noteq> None then Err QueryNotAllowed
      else if url_fragment L u \<noteq> None then Err FragmentNotAllowed
      else Ok ())"

definition validate_file_url :: "'u url_lib \<Rightarrow> 'u \<Rightarrow> (path_uri_error, unit) result" where
  "validate_file_url L u =
     res_bind (validate_common_known_uri L u) (\<lambda>_.
       if CHR 0x00 \<in> set (percent_decode L (url_path L u)) \<and> decode_bad_path_uri L u = None
       then Err (InvalidFileUriPath (url_str L u)) else Ok ())"

definition without_localhost_authority :: "'u url_lib \<Rightarrow> 'u \<Rightarrow> (path_uri_error, 'u) result" where
  "without_localhost_authority L u =
     (if url_host L u = Some ''localhost''
      then (case url_set_host L u None of Some u' \<Rightarrow> Ok u' | None \<Rightarrow> Err UriPanic)
      else Ok u)"

definition is_windows_drive_uri_segment :: "string \<Rightarrow> bool" where
  "is_windows_drive_uri_segment s =
     (case s of [drive, c] \<Rightarrow> c = COLON \<and> is_ascii_alphabetic drive | _ \<Rightarrow> False)"

definition with_normalized_windows_drive_letter :: "'u url_lib \<Rightarrow> 'u \<Rightarrow> 'u" where
  "with_normalized_windows_drive_letter L u =
     (let path = url_path L u;
          slashes = takeWhile (\<lambda>c. c = SLASH) path;
          tail = dropWhile (\<lambda>c. c = SLASH) path;
          drive = takeWhile (\<lambda>c. c \<noteq> SLASH) tail
      in if url_host L u \<noteq> None \<or> tail = [] \<or> \<not> is_windows_drive_uri_segment drive \<or> is_ascii_uppercase (hd drive)
         then u
         else url_set_path L u (slashes @ ascii_upper (hd tail) # tl tail))"

definition path_uri_of_url :: "'u url_lib \<Rightarrow> 'u \<Rightarrow> (path_uri_error, 'u) result" where
  "path_uri_of_url L u =
     (if url_scheme L u \<noteq> ''file'' then Err (UnsupportedScheme (url_scheme L u))
      else res_bind (validate_file_url L u) (\<lambda>_.
        res_bind (without_localhost_authority L u) (\<lambda>v. Ok (with_normalized_windows_drive_letter L v))))"

definition path_uri_parse :: "'u url_lib \<Rightarrow> string \<Rightarrow> (path_uri_error, 'u) result" where
  "path_uri_parse L uri = res_bind (map_err InvalidUri (url_parse L uri)) (path_uri_of_url L)"

subsection \<open>Conventions\<close>

definition infer_opaque_path_convention :: "string \<Rightarrow> path_convention option" where
  "infer_opaque_path_convention bytes =
     (if prefix [SLASH] bytes then Some Posix
      else if odd (length bytes) then None
      else case bytes of
          a0 # a1 # b0 # b1 # rest \<Rightarrow>
            if a1 = CHR 0x00 \<and> b1 = CHR 0x00 \<and>
               (is_ascii_alphabetic a0 \<and> b0 = COLON \<or> a0 = BSLASH \<and> b0 = BSLASH)
            then Some Windows else None
        | _ \<Rightarrow> None)"

definition nonempty_segments :: "'u url_lib \<Rightarrow> 'u \<Rightarrow> string list" where
  "nonempty_segments L u = filter (\<lambda>s. s \<noteq> []) (url_segments L u)"

definition infer_path_convention :: "'u url_lib \<Rightarrow> 'u \<Rightarrow> path_convention option" where
  "infer_path_convention L u =
     (case decode_bad_path_uri L u of
        Some bytes \<Rightarrow> infer_opaque_path_convention bytes
      | None \<Rightarrow>
          if url_host L u \<noteq> None then Some Windows
          else case nonempty_segments L u of
              s # _ \<Rightarrow> if is_windows_drive_uri_segment s then Some Windows else Some Posix
            | [] \<Rightarrow> Some Posix)"

definition anchor_depth :: "path_convention \<Rightarrow> nat" where
  "anchor_depth convention = (if convention = Windows then 1 else 0)"

subsection \<open>Native paths\<close>

definition from_opaque_path_bytes :: "'u url_lib \<Rightarrow> string \<Rightarrow> (path_uri_error, 'u) result" where
  "from_opaque_path_bytes L bytes =
     (case path_uri_parse L (BAD_PATH_URI_PREFIX @ base64_encode L bytes) of
        Inr u \<Rightarrow> Ok u
      | Inl _ \<Rightarrow> Err UriPanic)"

text \<open>The components that stay, and whether the path ended with a separator.\<close>

fun normalize_segments :: "nat \<Rightarrow> string list \<Rightarrow> bool \<Rightarrow> string list \<Rightarrow> string list \<times> bool" where
  "normalize_segments anchor acc trailing [] = (acc, trailing)"
| "normalize_segments anchor acc trailing (s # ss) =
     (if s = [] then normalize_segments anchor acc True ss
      else if s = ''.'' then normalize_segments anchor acc False ss
      else if s = ''..'' then
        normalize_segments anchor (if anchor < length acc then butlast acc else acc) False ss
      else normalize_segments anchor (acc @ [s]) False ss)"

definition res_some :: "('e, 'a) result \<Rightarrow> ('e, 'a option) result" where
  "res_some r = res_bind r (\<lambda>a. Ok (Some a))"

definition ok_or_panic :: "(path_uri_error, 'a) result \<Rightarrow> (path_uri_error, 'a option) result" where
  "ok_or_panic r = (case r of Inr a \<Rightarrow> Ok (Some a) | Inl e \<Rightarrow> if e = UriPanic then Err UriPanic else Ok None)"

text \<open>
  The conversions return \<^verbatim>\<open>Ok None\<close> where the source returns \<^verbatim>\<open>None\<close>; their only error is the panic.
\<close>

definition path_uri_from_segments ::
  "'u url_lib \<Rightarrow> path_convention \<Rightarrow> string option \<Rightarrow> string list \<Rightarrow> (path_uri_error, 'u option) result" where
  "path_uri_from_segments L convention host segments =
     (case url_parse L ''file:///'' of
        Inl _ \<Rightarrow> Ok None
      | Inr url0 \<Rightarrow>
          (case (case host of None \<Rightarrow> Some url0 | Some h \<Rightarrow> url_set_host L url0 (Some h)) of
             None \<Rightarrow> Ok None
           | Some url1 \<Rightarrow>
               (let (kept, trailing) = normalize_segments (anchor_depth convention) [] False segments;
                    all = (if trailing \<or> convention = Windows \<and> host = None \<and> length kept = anchor_depth convention
                           then kept @ [[]] else kept)
                in ok_or_panic (path_uri_of_url L (foldl (seg_push L) (seg_clear L url1) all)))))"

definition parse_posix_path :: "'u url_lib \<Rightarrow> string \<Rightarrow> (path_uri_error, 'u option) result" where
  "parse_posix_path L path =
     (case strip_prefix [SLASH] path of
        None \<Rightarrow> Ok None
      | Some rel \<Rightarrow>
          if CHR 0x00 \<in> set rel then res_some (from_opaque_path_bytes L (SLASH # rel))
          else path_uri_from_segments L Posix None (split_on SLASH rel))"

text \<open>UTF-16 of a UTF-8 string, in little-endian bytes.\<close>

definition u16_le :: "nat \<Rightarrow> string" where
  "u16_le n = [char_of (n mod 256), char_of (n div 256)]"

definition utf16_of_code_point :: "nat \<Rightarrow> string" where
  "utf16_of_code_point n =
     (if n < 65536 then u16_le n
      else u16_le (55296 + (n - 65536) div 1024) @ u16_le (56320 + (n - 65536) mod 1024))"

definition byte_of :: "char \<Rightarrow> nat" where
  "byte_of c = of_char c"

fun utf16_le :: "string \<Rightarrow> string" where
  "utf16_le (a # s) =
     (if byte_of a < 128 then utf16_of_code_point (byte_of a) @ utf16_le s
      else case s of
          b # s1 \<Rightarrow>
            if byte_of a < 224 then
              utf16_of_code_point ((byte_of a mod 32) * 64 + byte_of b mod 64) @ utf16_le (drop 1 s)
            else (case s1 of
                c # s2 \<Rightarrow>
                  if byte_of a < 240 then
                    utf16_of_code_point ((byte_of a mod 16) * 4096 + (byte_of b mod 64) * 64 + byte_of c mod 64) @
                    utf16_le (drop 2 s)
                  else (case s2 of
                      d # s3 \<Rightarrow>
                        utf16_of_code_point ((byte_of a mod 8) * 262144 + (byte_of b mod 64) * 4096 +
                          (byte_of c mod 64) * 64 + byte_of d mod 64) @ utf16_le (drop 3 s)
                    | [] \<Rightarrow> [])
              | [] \<Rightarrow> [])
        | [] \<Rightarrow> [])"
| "utf16_le [] = []"

definition windows_opaque_path_uri :: "'u url_lib \<Rightarrow> string \<Rightarrow> (path_uri_error, 'u) result" where
  "windows_opaque_path_uri L path = from_opaque_path_bytes L (utf16_le path)"

fun split_windows :: "string \<Rightarrow> string list" where
  "split_windows [] = [[]]"
| "split_windows (c # cs) =
     (if is_windows_separator c then [] # split_windows cs
      else (case split_windows cs of [] \<Rightarrow> [[c]] | w # ws \<Rightarrow> (c # w) # ws))"

definition is_windows_drive_absolute_path :: "string \<Rightarrow> bool" where
  "is_windows_drive_absolute_path path =
     (case path of
        drive # c # sep # rest \<Rightarrow> is_ascii_alphabetic drive \<and> c = COLON \<and> is_windows_separator sep
      | _ \<Rightarrow> False)"

definition namespace_prefix :: "char \<Rightarrow> string" where
  "namespace_prefix c = [BSLASH, BSLASH, c, BSLASH]"

definition normalize_windows_device_path :: "string \<Rightarrow> string option" where
  "normalize_windows_device_path path =
     (let unc = (\<lambda>c. strip_prefix (namespace_prefix c @ ''UNC'' @ [BSLASH]) path);
          drive = (\<lambda>c. case strip_prefix (namespace_prefix c) path of
             Some p \<Rightarrow> if is_windows_drive_absolute_path p then Some p else None
           | None \<Rightarrow> None)
      in case unc CHR ''?'' of Some p \<Rightarrow> Some ([BSLASH, BSLASH] @ p) | None \<Rightarrow>
         case unc CHR ''.'' of Some p \<Rightarrow> Some ([BSLASH, BSLASH] @ p) | None \<Rightarrow>
         case drive CHR ''?'' of Some p \<Rightarrow> Some p | None \<Rightarrow> drive CHR ''.'')"

definition uses_windows_namespace :: "string \<Rightarrow> bool" where
  "uses_windows_namespace path =
     (case path of
        a # b # n # sep # rest \<Rightarrow>
          is_windows_separator a \<and> is_windows_separator b \<and> is_windows_separator sep \<and>
          (n = CHR ''.'' \<or> n = CHR ''?'')
      | _ \<Rightarrow> False)"

definition parse_unnormalized_windows_path ::
  "'u url_lib \<Rightarrow> string \<Rightarrow> (path_uri_error, 'u option) result" where
  "parse_unnormalized_windows_path L path =
     (if uses_windows_namespace path \<or> CHR 0x00 \<in> set path
      then res_some (windows_opaque_path_uri L path)
      else if is_windows_drive_absolute_path path
      then path_uri_from_segments L Windows None (take 2 path # split_windows (drop 3 path))
      else case path of
          a # b # rest \<Rightarrow>
            if is_windows_separator a \<and> is_windows_separator b then
              (case split_windows rest of
                 h # share # comps \<Rightarrow>
                   if h = [] \<or> share = [] then Ok None
                   else res_bind (path_uri_from_segments L Windows (Some h) (share # comps)) (\<lambda>r. case r of
                       Some u \<Rightarrow> Ok (Some u)
                     | None \<Rightarrow> res_some (windows_opaque_path_uri L path))
               | _ \<Rightarrow> Ok None)
            else Ok None
        | _ \<Rightarrow> Ok None)"

definition dubious_component :: "string list \<Rightarrow> nat \<Rightarrow> bool" where
  "dubious_component comps i = (length comps \<le> i \<or> comps ! i \<in> {[], ''.'', ''..''})"

definition parse_windows_path :: "'u url_lib \<Rightarrow> string \<Rightarrow> (path_uri_error, 'u option) result" where
  "parse_windows_path L path =
     (case normalize_windows_device_path path of
        None \<Rightarrow> parse_unnormalized_windows_path L path
      | Some normalized \<Rightarrow>
          (let unc = strip_prefix [BSLASH, BSLASH] normalized;
               opaque = res_some (windows_opaque_path_uri L path)
           in if (case unc of
                    Some u \<Rightarrow> dubious_component (split_windows u) 0 \<or> dubious_component (split_windows u) 1
                  | None \<Rightarrow> False)
              then opaque
              else res_bind (parse_unnormalized_windows_path L normalized) (\<lambda>r. case r of
                  Some u \<Rightarrow>
                    if infer_path_convention L u = Some Windows \<and> decode_bad_path_uri L u = None \<and>
                       (unc = None \<or> (case url_host L u of Some h \<Rightarrow> h \<noteq> [] | None \<Rightarrow> False))
                    then Ok (Some u) else opaque
                | None \<Rightarrow> opaque)))"

definition from_absolute_native_path ::
  "'u url_lib \<Rightarrow> string \<Rightarrow> path_convention \<Rightarrow> (path_uri_error, 'u option) result" where
  "from_absolute_native_path L path convention =
     (case convention of Posix \<Rightarrow> parse_posix_path L path | Windows \<Rightarrow> parse_windows_path L path)"

subsection \<open>Lexical operations\<close>

definition path_uri_parent :: "'u url_lib \<Rightarrow> 'u \<Rightarrow> 'u option" where
  "path_uri_parent L u =
     (if decode_bad_path_uri L u \<noteq> None then None
      else case infer_path_convention L u of
          None \<Rightarrow> None
        | Some convention \<Rightarrow>
            if length (nonempty_segments L u) \<le> anchor_depth convention then None
            else Some (seg_pop L (seg_pop_if_empty L u)))"

partial_function (option) path_uri_ancestors :: "'u url_lib \<Rightarrow> 'u \<Rightarrow> 'u list option" where
  "path_uri_ancestors L u =
     (case path_uri_parent L u of
        None \<Rightarrow> Some [u]
      | Some p \<Rightarrow> Option.bind (path_uri_ancestors L p) (\<lambda>ps. Some (u # ps)))"

definition containment_path_segments :: "'u url_lib \<Rightarrow> 'u \<Rightarrow> path_convention \<Rightarrow> string list option" where
  "containment_path_segments L u convention =
     (let segments = nonempty_segments L u
      in if \<exists>s \<in> set segments. \<exists>b \<in> set (percent_decode L s). b = SLASH \<or> convention = Windows \<and> b = BSLASH
         then None else Some segments)"

definition convention_or_posix :: "'u url_lib \<Rightarrow> 'u \<Rightarrow> path_convention" where
  "convention_or_posix L u = (case infer_path_convention L u of Some c \<Rightarrow> c | None \<Rightarrow> Posix)"

definition path_uri_starts_with :: "'u url_lib \<Rightarrow> 'u \<Rightarrow> 'u \<Rightarrow> bool" where
  "path_uri_starts_with L u base =
     (if u = base then True
      else if decode_bad_path_uri L u \<noteq> None \<or> decode_bad_path_uri L base \<noteq> None then False
      else if url_host L u \<noteq> url_host L base then False
      else case containment_path_segments L u (convention_or_posix L u) of
          None \<Rightarrow> False
        | Some segments \<Rightarrow>
            (case containment_path_segments L base (convention_or_posix L base) of
               None \<Rightarrow> False
             | Some base_segments \<Rightarrow> prefix base_segments segments))"

definition decode_uri_path :: "'u url_lib \<Rightarrow> string \<Rightarrow> string" where
  "decode_uri_path L path = (case url_decode L path of Some s \<Rightarrow> s | None \<Rightarrow> path)"

definition path_uri_basename :: "'u url_lib \<Rightarrow> 'u \<Rightarrow> string option" where
  "path_uri_basename L u =
     (if decode_bad_path_uri L u \<noteq> None then None
      else case nonempty_segments L u of
          [] \<Rightarrow> None
        | s # ss \<Rightarrow> Some (decode_uri_path L (last (s # ss))))"

definition relative_path_from :: "'u url_lib \<Rightarrow> 'u \<Rightarrow> 'u \<Rightarrow> string option" where
  "relative_path_from L u base =
     (if u = base then Some []
      else if decode_bad_path_uri L u \<noteq> None \<or> decode_bad_path_uri L base \<noteq> None \<or>
        url_host L u \<noteq> url_host L base \<or> infer_path_convention L u \<noteq> infer_path_convention L base
      then None
      else case infer_path_convention L u of
          None \<Rightarrow> None
        | Some convention \<Rightarrow>
            (case (containment_path_segments L u convention, containment_path_segments L base convention) of
               (Some segments, Some base_segments) \<Rightarrow>
                 if prefix base_segments segments
                 then Some (join (if convention = Posix then [SLASH] else [BSLASH])
                        (map (decode_uri_path L) (drop (length base_segments) segments)))
                 else None
             | _ \<Rightarrow> None))"

definition strip_same_drive ::
  "'u url_lib \<Rightarrow> 'u \<Rightarrow> path_convention \<Rightarrow> string \<Rightarrow> (path_uri_error, string) result" where
  "strip_same_drive L u convention path =
     (case path of
        drive # c # rest \<Rightarrow>
          if convention = Windows \<and> c = COLON \<and> is_ascii_alphabetic drive then
            (case nonempty_segments L u of
               [d, c'] # _ \<Rightarrow>
                 if c' = COLON \<and> ascii_lower d = ascii_lower drive then Ok rest
                 else Err (InvalidFileUriPath path)
             | _ \<Rightarrow> Err (InvalidFileUriPath path))
          else Ok path
      | _ \<Rightarrow> Ok path)"

fun join_components :: "'u url_lib \<Rightarrow> nat \<Rightarrow> 'u \<Rightarrow> nat \<Rightarrow> string list \<Rightarrow> 'u" where
  "join_components L anchor u depth [] = u"
| "join_components L anchor u depth (c # cs) =
     (if c = [] \<or> c = ''.'' then join_components L anchor u depth cs
      else if c = ''..'' then
        (if anchor < depth then join_components L anchor (seg_pop L u) (depth - 1) cs
         else join_components L anchor u depth cs)
      else join_components L anchor (seg_push L u c) (depth + 1) cs)"

definition windows_root_relative :: "path_convention \<Rightarrow> string \<Rightarrow> bool" where
  "windows_root_relative convention path \<longleftrightarrow>
     convention = Windows \<and>
     (case path of
        c # rest \<Rightarrow>
          is_windows_separator c \<and> (case rest of d # _ \<Rightarrow> \<not> is_windows_separator d | [] \<Rightarrow> True)
      | [] \<Rightarrow> False)"

definition join_relative :: "'u url_lib \<Rightarrow> 'u \<Rightarrow> path_convention \<Rightarrow> string \<Rightarrow> 'u" where
  "join_relative L u convention path =
     (let anchor = anchor_depth convention;
          depth = length (nonempty_segments L u);
          u0 = seg_pop_if_empty L u;
          (u1, depth1) =
            (if windows_root_relative convention path
             then ((seg_pop L ^^ (depth - anchor)) u0, min depth anchor) else (u0, depth));
          text = (if convention = Windows then map (\<lambda>c. if c = BSLASH then SLASH else c) path else path)
      in join_components L anchor u1 depth1 (split_on SLASH text))"

definition path_uri_join :: "'u url_lib \<Rightarrow> 'u \<Rightarrow> string \<Rightarrow> (path_uri_error, 'u) result" where
  "path_uri_join L u path =
     (if CHR 0x00 \<in> set path then Err (InvalidFileUriPath path)
      else if path = [] then Ok u
      else case infer_path_convention L u of
          None \<Rightarrow> Err (InvalidFileUriPath (url_str L u))
        | Some convention \<Rightarrow>
            res_bind (from_absolute_native_path L path convention) (\<lambda>absolute.
              case absolute of
                Some a \<Rightarrow> Ok a
              | None \<Rightarrow>
                  res_bind (strip_same_drive L u convention path) (\<lambda>rel.
                    if decode_bad_path_uri L u \<noteq> None then Err (InvalidFileUriPath (url_str L u))
                    else path_uri_of_url L (join_relative L u convention rel))))"

subsection \<open>Host paths\<close>

definition path_uri_from_abs_path :: "'u url_lib \<Rightarrow> string \<Rightarrow> (path_uri_error, 'u) result" where
  "path_uri_from_abs_path L path =
     res_bind (case url_from_file_path L path of Some u \<Rightarrow> ok_or_panic (path_uri_of_url L u) | None \<Rightarrow> Ok None)
       (\<lambda>r. case r of Some u \<Rightarrow> Ok u | None \<Rightarrow> from_opaque_path_bytes L path)"

definition from_host_native_path ::
  "'u url_lib \<Rightarrow> host \<Rightarrow> string \<Rightarrow> (path_uri_error, 'u option) result" where
  "from_host_native_path L h path =
     (case from_absolute_path_checked h path of
        Inl _ \<Rightarrow> Ok None
      | Inr p \<Rightarrow> res_some (path_uri_from_abs_path L (path_string p)))"

definition path_uri_to_abs_path :: "'u url_lib \<Rightarrow> host \<Rightarrow> 'u \<Rightarrow> (path_uri_error, abs_path) result" where
  "path_uri_to_abs_path L h u =
     (let invalid = Err (InvalidFileUriPath (url_str L u))
      in if infer_path_convention L u \<noteq> Some native_convention then invalid
         else case decode_bad_path_uri L u of
             Some bytes \<Rightarrow>
               (case from_absolute_path_checked h bytes of
                  Inr path \<Rightarrow>
                    res_bind (path_uri_from_abs_path L (path_string path)) (\<lambda>v. if v = u then Ok path else invalid)
                | Inl _ \<Rightarrow> invalid)
           | None \<Rightarrow>
               (case url_to_file_path L u of
                  None \<Rightarrow> invalid
                | Some p \<Rightarrow>
                    (case from_absolute_path_checked h p of Inr path \<Rightarrow> Ok path | Inl _ \<Rightarrow> invalid)))"

end
