(* ===== verification/Patch_Apply.thy ===== *)
theory Patch_Apply
  imports Patch_Parser Path_Uri
begin

text \<open>
  The application of the chunks of an update to the lines of a file
  (\<^verbatim>\<open>compute_replacements\<close>, \<^verbatim>\<open>apply_replacements\<close> and \<^verbatim>\<open>derive_new_contents_from_chunks\<close> of
  \<^verbatim>\<open>apply-patch/src/lib.rs\<close>).
\<close>

section \<open>Definitions\<close>

type_synonym replacement = "nat \<times> nat \<times> string list"

datatype apply_patch_error =
    PatchParseError parse_error
  | PatchIoError string io_error
  | ComputeReplacements string
  | PathUriError path_uri_error
  | ImplicitInvocation

definition last_is_empty :: "string list \<Rightarrow> bool" where
  "last_is_empty ls = (ls \<noteq> [] \<and> last ls = [])"

definition failed_context :: "string \<Rightarrow> string \<Rightarrow> apply_patch_error" where
  "failed_context ctx_line path =
     ComputeReplacements (''Failed to find context '' @ squote ctx_line @ '' in '' @ path)"

definition failed_lines :: "string \<Rightarrow> string list \<Rightarrow> apply_patch_error" where
  "failed_lines path ls =
     ComputeReplacements (''Failed to find expected lines in '' @ path @ '':'' @ [NL] @ join [NL] ls)"

text \<open>Where the search for a chunk starts: after its context line, if it has one.\<close>

definition seek_context :: "string list \<Rightarrow> string \<Rightarrow> nat \<Rightarrow> string option \<Rightarrow> (apply_patch_error, nat) result" where
  "seek_context original_lines path line_index ctx =
     (case ctx of
        None \<Rightarrow> Ok line_index
      | Some ctx_line \<Rightarrow>
          (case seek_sequence original_lines [ctx_line] line_index False of
             Some idx \<Rightarrow> Ok (idx + 1)
           | None \<Rightarrow> Err (failed_context ctx_line path)))"

definition insertion_index :: "string list \<Rightarrow> nat" where
  "insertion_index original_lines =
     (if last_is_empty original_lines then length original_lines - 1 else length original_lines)"

text \<open>
  The region of the old lines of a chunk and the lines that replace it: when they are not found and
  end with an empty line, they are looked for once more without it.
\<close>

definition locate_chunk :: "string list \<Rightarrow> nat \<Rightarrow> update_file_chunk \<Rightarrow> replacement option" where
  "locate_chunk original_lines line_index chunk =
     (let pattern = old_lines chunk; new_slice = new_lines chunk
      in case seek_sequence original_lines pattern line_index (is_end_of_file chunk) of
           Some start_idx \<Rightarrow> Some (start_idx, length pattern, new_slice)
         | None \<Rightarrow>
             if last_is_empty pattern then
               (let pattern' = butlast pattern;
                    new_slice' = (if last_is_empty new_slice then butlast new_slice else new_slice)
                in map_option (\<lambda>start_idx. (start_idx, length pattern', new_slice'))
                     (seek_sequence original_lines pattern' line_index (is_end_of_file chunk)))
             else None)"

fun chunk_replacements ::
  "string list \<Rightarrow> string \<Rightarrow> nat \<Rightarrow> update_file_chunk list \<Rightarrow> (apply_patch_error, replacement list) result" where
  "chunk_replacements original_lines path line_index [] = Ok []"
| "chunk_replacements original_lines path line_index (chunk # chunks) =
     res_bind (seek_context original_lines path line_index (change_context chunk)) (\<lambda>index.
       if old_lines chunk = [] then
         res_bind (chunk_replacements original_lines path index chunks)
           (\<lambda>rs. Ok ((insertion_index original_lines, 0, new_lines chunk) # rs))
       else case locate_chunk original_lines index chunk of
           None \<Rightarrow> Err (failed_lines path (old_lines chunk))
         | Some (start_idx, old_len, new_slice) \<Rightarrow>
             res_bind (chunk_replacements original_lines path (start_idx + old_len) chunks)
               (\<lambda>rs. Ok ((start_idx, old_len, new_slice) # rs)))"

definition compute_replacements ::
  "string list \<Rightarrow> string \<Rightarrow> update_file_chunk list \<Rightarrow> (apply_patch_error, replacement list) result" where
  "compute_replacements original_lines path chunks =
     res_bind (chunk_replacements original_lines path 0 chunks) (\<lambda>rs. Ok (sort_key fst rs))"

text \<open>\<^verbatim>\<open>Vec::remove\<close> guarded by the length, and \<^verbatim>\<open>Vec::insert\<close>, which panics past the end.\<close>

definition remove_line :: "nat \<Rightarrow> string list \<Rightarrow> string list" where
  "remove_line i ls = (if i < length ls then take i ls @ drop (Suc i) ls else ls)"

definition insert_line :: "nat \<Rightarrow> string \<Rightarrow> string list \<Rightarrow> string list option" where
  "insert_line i l ls = (if i \<le> length ls then Some (take i ls @ l # drop i ls) else None)"

fun insert_lines :: "nat \<Rightarrow> string list \<Rightarrow> string list \<Rightarrow> string list option" where
  "insert_lines i [] ls = Some ls"
| "insert_lines i (n # ns) ls = Option.bind (insert_line i n ls) (insert_lines (i + 1) ns)"

definition apply_replacement :: "replacement \<Rightarrow> string list \<Rightarrow> string list option" where
  "apply_replacement r ls =
     (case r of (start_idx, old_len, new_segment) \<Rightarrow>
        insert_lines start_idx new_segment ((remove_line start_idx ^^ old_len) ls))"

fun apply_reversed :: "replacement list \<Rightarrow> string list \<Rightarrow> string list option" where
  "apply_reversed [] ls = Some ls"
| "apply_reversed (r # rs) ls = Option.bind (apply_replacement r ls) (apply_reversed rs)"

definition apply_replacements :: "string list \<Rightarrow> replacement list \<Rightarrow> string list option" where
  "apply_replacements ls replacements = apply_reversed (rev replacements) ls"

definition split_contents :: "string \<Rightarrow> string list" where
  "split_contents contents =
     (let ls = split_on NL contents in if last_is_empty ls then butlast ls else ls)"

definition join_contents :: "string list \<Rightarrow> string" where
  "join_contents ls = join [NL] (if last_is_empty ls then ls else ls @ [[]])"

text \<open>\<^term>\<open>None\<close> is a panic; \<^verbatim>\<open>path_text\<close> is the path as the messages show it.\<close>

definition derive_new_contents ::
  "string \<Rightarrow> string \<Rightarrow> update_file_chunk list \<Rightarrow> (apply_patch_error, string) result option" where
  "derive_new_contents original_contents path_text chunks =
     (let original_lines = split_contents original_contents
      in case compute_replacements original_lines path_text chunks of
           Inl e \<Rightarrow> Some (Err e)
         | Inr replacements \<Rightarrow>
             map_option (\<lambda>ls. Ok (join_contents ls)) (apply_replacements original_lines replacements))"

section \<open>Replacements\<close>

lemma remove_lines:
  "(remove_line i ^^ n) ls = take i ls @ drop (i + n) ls" if "i \<le> length ls"
  using that
proof (induction n)
  case (Suc n)
  then show ?case
    by (cases "i + n < length ls") (auto simp: remove_line_def min_def)
qed simp

lemma insert_lines_eq:
  "i \<le> length ls \<Longrightarrow> insert_lines i ns ls = Some (take i ls @ ns @ drop i ls)"
proof (induction ns arbitrary: i ls)
  case (Cons n ns)
  then show ?case
    by (simp add: insert_line_def min_def)
qed simp

lemma apply_replacement_eq:
  assumes "s \<le> length ls"
  shows "apply_replacement (s, n, new) ls = Some (take s ls @ new @ drop (s + n) ls)"
  using assms by (simp add: apply_replacement_def remove_lines insert_lines_eq min_def)

text \<open>The starts are in the file and do not decrease, as \<^verbatim>\<open>sort_by_key\<close> leaves them.\<close>

definition starts_sorted :: "string list \<Rightarrow> replacement list \<Rightarrow> bool" where
  "starts_sorted ls rs \<longleftrightarrow> sorted (map fst rs) \<and> (\<forall>r \<in> set rs. fst r \<le> length ls)"

lemma apply_reversed_append:
  "apply_reversed (a @ b) ls = Option.bind (apply_reversed a ls) (apply_reversed b)"
  by (induction a arbitrary: ls) (auto split: Option.bind_split)

lemma apply_replacements_Cons:
  "apply_replacements ls (r # rs) = Option.bind (apply_replacements ls rs) (apply_replacement r)"
proof -
  have nil: "apply_reversed [] = Some"
    by (rule ext) simp
  have "apply_reversed [r] = apply_replacement r"
    by (rule ext) (simp add: nil)
  then show ?thesis
    by (simp add: apply_replacements_def apply_reversed_append)
qed

lemma apply_replacements_total:
  "starts_sorted ls rs \<Longrightarrow>
   \<exists>ls'. apply_replacements ls rs = Some ls' \<and> (\<forall>i. (\<forall>r \<in> set rs. i \<le> fst r) \<and> i \<le> length ls \<longrightarrow> take i ls' = take i ls \<and> i \<le> length ls')"
proof (induction rs)
  case Nil
  then show ?case
    by (simp add: apply_replacements_def)
next
  case (Cons r rs)
  obtain s n new where r: "r = (s, n, new)"
    by (cases r)
  have sorted: "starts_sorted ls rs" "s \<le> length ls" "\<forall>x \<in> set rs. s \<le> fst x"
    using Cons.prems by (auto simp: starts_sorted_def r)
  with Cons.IH obtain ls' where ls': "apply_replacements ls rs = Some ls'"
    and keep: "\<forall>i. (\<forall>r \<in> set rs. i \<le> fst r) \<and> i \<le> length ls \<longrightarrow> take i ls' = take i ls \<and> i \<le> length ls'"
    by blast
  have s: "take s ls' = take s ls" "s \<le> length ls'"
    using keep sorted by blast+
  have "take i (take s ls' @ new @ drop (s + n) ls') = take i ls \<and> i \<le> length (take s ls' @ new @ drop (s + n) ls')"
    if "i \<le> s" for i
  proof -
    have "take i ls' = take i ls"
      using arg_cong [OF s(1), of "take i"] that by (simp add: min_def)
    then show ?thesis
      using that s(2) by (simp add: min_def)
  qed
  then show ?case
    using ls' s(2) by (auto simp: apply_replacements_Cons r apply_replacement_eq)
qed

text \<open>
  The reference: the lines outside the replaced regions are kept, the regions are exchanged for
  their new lines. It is meaningful for regions that follow each other.
\<close>

fun splice_lines :: "nat \<Rightarrow> string list \<Rightarrow> replacement list \<Rightarrow> string list" where
  "splice_lines pos ls [] = drop pos ls"
| "splice_lines pos ls ((s, n, new) # rs) = take (s - pos) (drop pos ls) @ new @ splice_lines (s + n) ls rs"

fun disjoint :: "nat \<Rightarrow> nat \<Rightarrow> replacement list \<Rightarrow> bool" where
  "disjoint pos len [] \<longleftrightarrow> pos \<le> len"
| "disjoint pos len ((s, n, new) # rs) \<longleftrightarrow> pos \<le> s \<and> s + n \<le> len \<and> disjoint (s + n) len rs"

lemma apply_disjoint:
  "disjoint pos (length ls) rs \<Longrightarrow> apply_replacements ls rs = Some (take pos ls @ splice_lines pos ls rs)"
proof (induction rs arbitrary: pos)
  case Nil
  then show ?case by (simp add: apply_replacements_def)
next
  case (Cons r rs)
  obtain s n new where r: "r = (s, n, new)"
    by (cases r)
  have d: "pos \<le> s" "s + n \<le> length ls" "disjoint (s + n) (length ls) rs"
    using Cons.prems r by auto
  have "take s ls = take pos ls @ take (s - pos) (drop pos ls)"
    using d(1) by (metis le_add_diff_inverse take_add)
  then show ?case
    using Cons.IH [OF d(3)] d
    by (simp add: apply_replacements_Cons r apply_replacement_eq min_def)
qed

section \<open>Where the chunks go\<close>

definition chunk_at :: "string list \<Rightarrow> update_file_chunk \<Rightarrow> replacement \<Rightarrow> bool" where
  "chunk_at ls c r \<longleftrightarrow>
     (case r of (s, n, new) \<Rightarrow>
        if old_lines c = [] then s = insertion_index ls \<and> n = 0 \<and> new = new_lines c
        else (n = length (old_lines c) \<and> new = new_lines c \<and> matches_at normalise ls (old_lines c) s) \<or>
             (last_is_empty (old_lines c) \<and> n = length (old_lines c) - 1 \<and>
              (new = new_lines c \<or> new @ [[]] = new_lines c) \<and>
              (n \<noteq> 0 \<longrightarrow> matches_at normalise ls (butlast (old_lines c)) s)))"

lemma insertion_index_le: "insertion_index ls \<le> length ls"
  by (simp add: insertion_index_def)

lemma last_is_empty_butlast: "last_is_empty ns \<Longrightarrow> butlast ns @ [[]] = ns"
  by (metis append_butlast_last_id last_is_empty_def)

lemma seek_bounds:
  assumes "seek_sequence ls pat i eof = Some s" "i \<le> length ls"
  shows "s + length pat \<le> length ls" "\<not> eof \<Longrightarrow> i \<le> s" "pat \<noteq> [] \<Longrightarrow> matches_at normalise ls pat s"
proof (atomize (full), cases "pat = []")
  case True
  then show "s + length pat \<le> length ls \<and> (\<not> eof \<longrightarrow> i \<le> s) \<and> (pat \<noteq> [] \<longrightarrow> matches_at normalise ls pat s)"
    using assms by (simp add: seek_sequence_def)
next
  case False
  then show "s + length pat \<le> length ls \<and> (\<not> eof \<longrightarrow> i \<le> s) \<and> (pat \<noteq> [] \<longrightarrow> matches_at normalise ls pat s)"
    using seek_sequence_Some [OF assms(1)] by (simp add: first_position_def split: if_splits)
qed

lemma locate_chunk_Some:
  assumes "locate_chunk ls i c = Some (s, n, new)" "i \<le> length ls" "old_lines c \<noteq> []"
  shows "s + n \<le> length ls" "\<not> is_end_of_file c \<Longrightarrow> i \<le> s" "chunk_at ls c (s, n, new)"
proof (atomize (full), cases "seek_sequence ls (old_lines c) i (is_end_of_file c)")
  case (Some t)
  then have "s = t" "n = length (old_lines c)" "new = new_lines c"
    using assms(1) by (auto simp: locate_chunk_def)
  then show "s + n \<le> length ls \<and> (\<not> is_end_of_file c \<longrightarrow> i \<le> s) \<and> chunk_at ls c (s, n, new)"
    using seek_bounds [OF Some assms(2)] assms(3) by (simp add: chunk_at_def)
next
  case None
  let ?pat = "butlast (old_lines c)"
  obtain t where t: "seek_sequence ls ?pat i (is_end_of_file c) = Some t" "last_is_empty (old_lines c)"
    "s = t" "n = length ?pat" "new = (if last_is_empty (new_lines c) then butlast (new_lines c) else new_lines c)"
    using assms(1) None by (auto simp: locate_chunk_def Let_def split: if_splits)
  have "n \<noteq> 0 \<longrightarrow> ?pat \<noteq> []"
    unfolding t(4) by (metis length_0_conv)
  then show "s + n \<le> length ls \<and> (\<not> is_end_of_file c \<longrightarrow> i \<le> s) \<and> chunk_at ls c (s, n, new)"
    using seek_bounds [OF t(1) assms(2)] assms(3) t last_is_empty_butlast [of "new_lines c"]
    by (auto simp: chunk_at_def)
qed

lemma seek_context_bounds:
  assumes "seek_context ls path i ctx = Ok j" "i \<le> length ls"
  shows "i \<le> j \<and> j \<le> length ls"
proof (cases ctx)
  case (Some x)
  then obtain k where "seek_sequence ls [x] i False = Some k" "j = k + 1"
    using assms(1) by (auto simp: seek_context_def split: option.splits)
  then show ?thesis
    using seek_bounds [of ls "[x]" i False k] assms(2) by simp
qed (use assms in \<open>simp add: seek_context_def\<close>)

lemma chunk_replacements_Cons:
  assumes "chunk_replacements ls path i (c # cs) = Ok rs"
  obtains j r rs' where "seek_context ls path i (change_context c) = Ok j" "rs = r # rs'"
    "if old_lines c = [] then r = (insertion_index ls, 0, new_lines c) \<and> chunk_replacements ls path j cs = Ok rs'
     else locate_chunk ls j c = Some r \<and> chunk_replacements ls path (fst r + fst (snd r)) cs = Ok rs'"
  using assms by (auto simp: res_bind_def split: sum.splits if_splits option.splits)

text \<open>In every accepted patch the regions are inside the file and belong to the chunks.\<close>

lemma chunk_replacements_located:
  "chunk_replacements ls path i cs = Ok rs \<Longrightarrow> i \<le> length ls \<Longrightarrow>
   list_all2 (chunk_at ls) cs rs \<and> (\<forall>(s, n, new) \<in> set rs. s + n \<le> length ls)"
proof (induction cs arbitrary: i rs)
  case (Cons c cs)
  from Cons.prems(1) obtain j r rs' where r: "seek_context ls path i (change_context c) = Ok j" "rs = r # rs'"
    "if old_lines c = [] then r = (insertion_index ls, 0, new_lines c) \<and> chunk_replacements ls path j cs = Ok rs'
     else locate_chunk ls j c = Some r \<and> chunk_replacements ls path (fst r + fst (snd r)) cs = Ok rs'"
    by (rule chunk_replacements_Cons)
  have j: "j \<le> length ls"
    using seek_context_bounds [OF r(1) Cons.prems(2)] by simp
  obtain s n new where rr: "r = (s, n, new)"
    by (cases r)
  show ?case
  proof (cases "old_lines c = []")
    case True
    then show ?thesis
      using Cons.IH [of j rs'] r j insertion_index_le [of ls] by (auto simp: chunk_at_def)
  next
    case False
    then show ?thesis
      using Cons.IH [of "s + n" rs'] r j locate_chunk_Some [of ls j c s n new] by (auto simp: rr)
  qed
qed simp

text \<open>Without end-of-file chunks the regions follow each other; additions go to the end.\<close>

fun ordered :: "nat \<Rightarrow> nat \<Rightarrow> replacement list \<Rightarrow> bool" where
  "ordered pos len [] \<longleftrightarrow> pos \<le> len"
| "ordered pos len ((s, n, new) # rs) \<longleftrightarrow>
     (s = len \<and> n = 0 \<and> ordered pos len rs) \<or> (pos \<le> s \<and> s + n \<le> len \<and> ordered (s + n) len rs)"

lemma disjoint_mono: "disjoint a len rs \<Longrightarrow> b \<le> a \<Longrightarrow> disjoint b len rs"
  by (cases rs) auto

lemma disjoint_le: "disjoint a len rs \<Longrightarrow> a \<le> len"
  by (induction a len rs rule: disjoint.induct) auto

lemma disjoint_starts: "disjoint a len rs \<Longrightarrow> r \<in> set rs \<Longrightarrow> a \<le> fst r"
  by (induction a len rs rule: disjoint.induct) fastforce+

lemma insort_region:
  assumes "disjoint (s + n) len rs" "a \<le> s" "s + n \<le> len"
  shows "disjoint a len (insort_key fst (s, n, new) rs)"
proof -
  have "insort_key fst (s, n, new) rs = (s, n, new) # rs"
    using assms(1) by (cases rs) auto
  then show ?thesis
    using assms by simp
qed

lemma insort_addition:
  "disjoint a len rs \<Longrightarrow> disjoint a len (insort_key fst (len, 0, new) rs)"
  by (induction a len rs rule: disjoint.induct) auto

lemma ordered_sorted: "ordered a len rs \<Longrightarrow> disjoint a len (sort_key fst rs)"
proof (induction a len rs rule: ordered.induct)
  case (2 a len s n new rs)
  then show ?case
    by (auto intro: insort_region insort_addition)
qed simp

lemma ordered_mono: "ordered a len rs \<Longrightarrow> b \<le> a \<Longrightarrow> ordered b len rs"
proof (induction rs arbitrary: a)
  case (Cons r rs)
  obtain s n new where r: "r = (s, n, new)"
    by (cases r)
  show ?case
    using Cons.prems Cons.IH [of a] unfolding r ordered.simps by (meson order_trans)
qed simp

lemma chunk_replacements_ordered:
  assumes "\<forall>c \<in> set cs. \<not> is_end_of_file c"
    and "(\<forall>c \<in> set cs. old_lines c \<noteq> []) \<or> \<not> last_is_empty ls"
  shows "chunk_replacements ls path i cs = Ok rs \<Longrightarrow> i \<le> length ls \<Longrightarrow> ordered i (length ls) rs"
  using assms
proof (induction cs arbitrary: i rs)
  case (Cons c cs)
  from Cons.prems(1) obtain j r rs' where r: "seek_context ls path i (change_context c) = Ok j" "rs = r # rs'"
    "if old_lines c = [] then r = (insertion_index ls, 0, new_lines c) \<and> chunk_replacements ls path j cs = Ok rs'
     else locate_chunk ls j c = Some r \<and> chunk_replacements ls path (fst r + fst (snd r)) cs = Ok rs'"
    by (rule chunk_replacements_Cons)
  have j: "i \<le> j" "j \<le> length ls"
    using seek_context_bounds [OF r(1) Cons.prems(2)] by simp_all
  obtain s n new where rr: "r = (s, n, new)"
    by (cases r)
  have IH: "chunk_replacements ls path k cs = Ok rs' \<Longrightarrow> k \<le> length ls \<Longrightarrow> ordered k (length ls) rs'" for k
    using Cons.IH Cons.prems(3,4) by auto
  show ?case
  proof (cases "old_lines c = []")
    case True
    then have "insertion_index ls = length ls"
      using Cons.prems(4) by (auto simp: insertion_index_def)
    then show ?thesis
      using True r IH [of j] j ordered_mono [of j "length ls" rs' i] by auto
  next
    case False
    then show ?thesis
      using r j IH [of "s + n"] locate_chunk_Some [of ls j c s n new] Cons.prems(3) by (auto simp: rr)
  qed
qed simp

section \<open>The new contents\<close>

lemma compute_replacements_Ok:
  "compute_replacements ls path cs = Ok rs \<longleftrightarrow>
   (\<exists>rs'. chunk_replacements ls path 0 cs = Ok rs' \<and> rs = sort_key fst rs')"
  by (auto simp: compute_replacements_def res_bind_def split: sum.splits)

lemma compute_replacements_sorted:
  assumes "compute_replacements ls path cs = Ok rs"
  shows "starts_sorted ls rs"
proof -
  obtain rs' where rs: "chunk_replacements ls path 0 cs = Ok rs'" "rs = sort_key fst rs'"
    using assms by (auto simp: compute_replacements_Ok)
  then have "\<forall>(s, n, new) \<in> set rs'. s + n \<le> length ls"
    using chunk_replacements_located [OF rs(1)] by simp
  then show ?thesis
    by (auto simp: starts_sorted_def rs(2))
qed

text \<open>
  C35: Deriving the new contents of a file always ends with new contents or with an error, for every
  file and all chunks: no insertion is ever past the end of the lines, so nothing panics.
\<close>

theorem derive_new_contents_total:
  "\<exists>r. derive_new_contents contents path chunks = Some r"
proof (cases "compute_replacements (split_contents contents) path chunks")
  case (Inl e)
  then show ?thesis
    by (simp add: derive_new_contents_def Let_def)
next
  case (Inr rs)
  then show ?thesis
    using apply_replacements_total [OF compute_replacements_sorted [OF Inr]]
    by (auto simp: derive_new_contents_def Let_def)
qed

text \<open>
  C16: When no chunk is marked as the end of the file, and lines are added without context only to
  files that do not end with an empty line, an update is exactly a splice: there is one region for
  every chunk, which reads like the old lines of the chunk up to the leniency of the search, the
  regions do not overlap, and the new contents are the old ones with every region exchanged for
  the new lines of its chunk.
\<close>

theorem update_is_splice:
  assumes "derive_new_contents contents path chunks = Some (Ok new)"
    and "\<forall>c \<in> set chunks. \<not> is_end_of_file c"
    and "(\<forall>c \<in> set chunks. old_lines c \<noteq> []) \<or> \<not> last_is_empty (split_contents contents)"
  shows "\<exists>rs. list_all2 (chunk_at (split_contents contents)) chunks rs \<and>
    disjoint 0 (length (split_contents contents)) (sort_key fst rs) \<and>
    new = join_contents (splice_lines 0 (split_contents contents) (sort_key fst rs))"
proof -
  let ?ls = "split_contents contents"
  obtain rs ls' where rs: "chunk_replacements ?ls path 0 chunks = Ok rs"
    "apply_replacements ?ls (sort_key fst rs) = Some ls'" "new = join_contents ls'"
    using assms(1)
    by (auto simp: derive_new_contents_def Let_def compute_replacements_def res_bind_def split: sum.splits)
  have d: "disjoint 0 (length ?ls) (sort_key fst rs)"
    by (rule ordered_sorted [OF chunk_replacements_ordered [OF assms(2,3) rs(1)]]) simp
  have "list_all2 (chunk_at ?ls) chunks rs"
    using chunk_replacements_located [OF rs(1)] by simp
  moreover have "ls' = splice_lines 0 ?ls (sort_key fst rs)"
    using apply_disjoint [OF d] rs(2) by simp
  ultimately show ?thesis
    using d rs(3) by auto
qed

definition edit :: "string list \<Rightarrow> string list \<Rightarrow> bool \<Rightarrow> update_file_chunk" where
  "edit old new eof = \<lparr>change_context = None, old_lines = old, new_lines = new, is_end_of_file = eof\<rparr>"

theorem update_is_splice_witness:
  "\<exists>rs. list_all2 (chunk_at (split_contents (''a'' @ [NL] @ ''b'' @ [NL]))) [edit [''b''] [''c''] False] rs \<and>
    disjoint 0 (length (split_contents (''a'' @ [NL] @ ''b'' @ [NL]))) (sort_key fst rs) \<and>
    ''a'' @ [NL] @ ''c'' @ [NL] =
      join_contents (splice_lines 0 (split_contents (''a'' @ [NL] @ ''b'' @ [NL])) (sort_key fst rs))"
proof (rule update_is_splice [where path = "''f''"])
  show "derive_new_contents (''a'' @ [NL] @ ''b'' @ [NL]) ''f'' [edit [''b''] [''c''] False] =
      Some (Ok (''a'' @ [NL] @ ''c'' @ [NL]))"
    by code_simp
qed (simp_all add: edit_def)

text \<open>
  The condition on end-of-file chunks is needed. Such a chunk is looked for at the end of the
  file whatever the chunks before it have consumed, so it can overlap one of them; the edits are
  then applied on top of each other and the lines that the end-of-file chunk adds are lost, without
  an error.
\<close>

theorem eof_chunk_overlap_loses_lines:
  "derive_new_contents (''a'' @ [NL] @ ''b'' @ [NL]) path [edit [''a'', ''b''] [''x''] False, edit [''b''] [''y''] True] =
     Some (Ok (''x'' @ [NL]))"
proof -
  have "seek_sequence [''a'', ''b''] [''a'', ''b''] 0 False = Some 0"
    "seek_sequence [''a'', ''b''] [''b''] 2 True = Some 1"
    by code_simp+
  moreover have "split_contents (''a'' @ [NL] @ ''b'' @ [NL]) = [''a'', ''b'']"
    by code_simp
  moreover have "apply_replacements [''a'', ''b''] [(0, 2, [''x'']), (1, 1, [''y''])] = Some [''x'']"
    by code_simp
  ultimately show ?thesis
    by (simp add: derive_new_contents_def edit_def compute_replacements_def seek_context_def
        locate_chunk_def res_bind_def Let_def join_contents_def last_is_empty_def numeral_2_eq_2)
qed

end
