(* ===== verification/Path_Join.thy ===== *)
theory Path_Join
  imports Path_Uri
begin

text \<open>
  Lexical operations on path URIs stay where they should: joins without \<^verbatim>\<open>..\<close> stay below the base, joins
  with it stay on the drive or share of the base, and the ancestors of a path end. The documented
  behaviour of the packages \<^verbatim>\<open>url\<close> and \<^verbatim>\<open>urlencoding\<close> that this rests on is the predicate \<^verbatim>\<open>url_laws\<close>.
\<close>

section \<open>Documented behaviour of the URL packages\<close>

definition hex_value :: "char \<Rightarrow> nat option" where
  "hex_value c = map_of (zip ''0123456789abcdefABCDEF'' ([0..<16] @ [10..<16])) c"

fun pct_decode :: "string \<Rightarrow> string" where
  "pct_decode (c # a # b # s) =
     (if c = CHR ''%'' then
        (case (hex_value a, hex_value b) of
           (Some x, Some y) \<Rightarrow> char_of (16 * x + y) # pct_decode s
         | _ \<Rightarrow> c # pct_decode (a # b # s))
      else c # pct_decode (a # b # s))"
| "pct_decode s = s"

definition continuation :: "char \<Rightarrow> bool" where
  "continuation c \<longleftrightarrow> 128 \<le> byte_of c \<and> byte_of c < 192"

fun valid_utf8 :: "string \<Rightarrow> bool" where
  "valid_utf8 [] = True"
| "valid_utf8 [a] \<longleftrightarrow> byte_of a < 128"
| "valid_utf8 (a # b # s) \<longleftrightarrow>
     (if byte_of a < 128 then valid_utf8 (b # s)
      else if byte_of a < 224 then 194 \<le> byte_of a \<and> continuation b \<and> valid_utf8 s
      else case s of
          c # s' \<Rightarrow>
            if byte_of a < 240 then
              continuation b \<and> continuation c \<and> (byte_of a = 224 \<longrightarrow> 160 \<le> byte_of b) \<and>
              (byte_of a = 237 \<longrightarrow> byte_of b < 160) \<and> valid_utf8 (drop 1 s)
            else (case s' of
                d # s'' \<Rightarrow>
                  byte_of a \<le> 244 \<and> continuation b \<and> continuation c \<and> continuation d \<and>
                  (byte_of a = 240 \<longrightarrow> 144 \<le> byte_of b) \<and> (byte_of a = 244 \<longrightarrow> byte_of b < 144) \<and>
                  valid_utf8 (drop 2 s)
              | [] \<Rightarrow> False)
        | [] \<Rightarrow> False)"

text \<open>
  Segments that the segment editor of \<^verbatim>\<open>url\<close> stores as they are, percent-encoded: it ignores \<^verbatim>\<open>.\<close> and \<^verbatim>\<open>..\<close>,
  drops tabs and line ends, and rewrites the bar of a drive letter.
\<close>

definition plain_segment :: "string \<Rightarrow> bool" where
  "plain_segment s \<longleftrightarrow>
     s \<notin> {[], ''.'', ''..''} \<and> set s \<inter> {CHR 0x09, NL, CR, CHR ''|''} = {}"

definition keeps_origin :: "'u url_lib \<Rightarrow> 'u \<Rightarrow> 'u \<Rightarrow> bool" where
  "keeps_origin L u v \<longleftrightarrow>
     url_scheme L v = url_scheme L u \<and> url_username L v = url_username L u \<and>
     url_password L v = url_password L u \<and> url_port L v = url_port L u \<and>
     url_query L v = url_query L u \<and> url_fragment L v = url_fragment L u \<and>
     url_host L v = url_host L u"

definition segment_laws :: "'u url_lib \<Rightarrow> (string \<Rightarrow> string) \<Rightarrow> 'u \<Rightarrow> bool" where
  "segment_laws L enc u \<longleftrightarrow>
     (let segs = url_segments L u in
      segs \<noteq> [] \<and> (\<forall>s \<in> set segs. SLASH \<notin> set s) \<and> url_path L u = SLASH # join [SLASH] segs \<and>
      keeps_origin L u (seg_pop_if_empty L u) \<and>
      url_segments L (seg_pop_if_empty L u) = (if 1 < length segs \<and> last segs = [] then butlast segs else segs) \<and>
      keeps_origin L u (seg_pop L u) \<and>
      url_segments L (seg_pop L u) = (if 1 < length segs then butlast segs else [[]]) \<and>
      (\<forall>s. plain_segment s \<longrightarrow> keeps_origin L u (seg_push L u s) \<and>
         url_segments L (seg_push L u s) = (if segs = [[]] then [enc s] else segs @ [enc s])))"

definition text_laws :: "'u url_lib \<Rightarrow> 'u \<Rightarrow> bool" where
  "text_laws L u \<longleftrightarrow>
     (\<forall>h. url_host L u = Some h \<longrightarrow> h \<noteq> [] \<and> SLASH \<notin> set h) \<and>
     (validate_common_known_uri L u = Ok () \<longrightarrow>
        url_str L u = ''file://'' @ (case url_host L u of Some h \<Rightarrow> h | None \<Rightarrow> []) @ url_path L u)"

definition encoding_laws :: "'u url_lib \<Rightarrow> (string \<Rightarrow> string) \<Rightarrow> bool" where
  "encoding_laws L enc \<longleftrightarrow>
     percent_decode L = pct_decode \<and>
     (\<forall>s. url_decode L s = (if valid_utf8 (pct_decode s) then Some (pct_decode s) else None)) \<and>
     (\<forall>s. plain_segment s \<longrightarrow> enc s \<noteq> [] \<and> SLASH \<notin> set (enc s) \<and> pct_decode (enc s) = s)"

text \<open>
  The two rewritings of \<^const>\<open>path_uri_of_url\<close>: removing a host, and changing the case of one letter of
  a path.
\<close>

definition rewrite_laws :: "'u url_lib \<Rightarrow> 'u \<Rightarrow> bool" where
  "rewrite_laws L u \<longleftrightarrow>
     (\<forall>h. url_host L u = Some h \<longrightarrow>
        (\<exists>v. url_set_host L u None = Some v \<and> url_host L v = None \<and> url_segments L v = url_segments L u \<and>
           url_scheme L v = url_scheme L u \<and>
           validate_common_known_uri L v = validate_common_known_uri L u)) \<and>
     (\<forall>a c b. url_path L u = a @ c # b \<and> is_ascii_alphabetic c \<longrightarrow>
        (let v = url_set_path L u (a @ ascii_upper c # b)
         in url_path L v = a @ ascii_upper c # b \<and> keeps_origin L u v))"

definition url_laws :: "'u url_lib \<Rightarrow> (string \<Rightarrow> string) \<Rightarrow> bool" where
  "url_laws L enc \<longleftrightarrow>
     encoding_laws L enc \<and>
     (\<forall>u. url_scheme L u = ''file'' \<longrightarrow> segment_laws L enc u \<and> text_laws L u \<and> rewrite_laws L u)"

text \<open>What \<^const>\<open>path_uri_of_url\<close> returns, and leaves as it is.\<close>

definition drive_normalized :: "'u url_lib \<Rightarrow> 'u \<Rightarrow> bool" where
  "drive_normalized L u \<longleftrightarrow>
     (case (url_host L u, nonempty_segments L u) of
        (None, s # _) \<Rightarrow> is_windows_drive_uri_segment s \<longrightarrow> is_ascii_uppercase (hd s)
      | _ \<Rightarrow> True)"

definition canonical :: "'u url_lib \<Rightarrow> 'u \<Rightarrow> bool" where
  "canonical L u \<longleftrightarrow>
     url_scheme L u = ''file'' \<and> validate_file_url L u = Ok () \<and> url_host L u \<noteq> Some ''localhost'' \<and>
     drive_normalized L u"

section \<open>Percent decoding\<close>

lemma hex_value_slash [simp]: "hex_value SLASH = None"
  by code_simp

lemma hex_value_pct [simp]: "hex_value CHR ''%'' = None"
  by code_simp

lemma pct_decode_null: "pct_decode (''%00'' @ s) = CHR 0x00 # pct_decode s"
proof -
  have "hex_value CHR ''0'' = Some 0"
    by code_simp
  moreover have "char_of (0 :: nat) = CHR 0x00"
    by code_simp
  ultimately show ?thesis by simp
qed

lemma pct_decode_Cons: "c \<noteq> CHR ''%'' \<Longrightarrow> pct_decode (c # s) = c # pct_decode s"
  by (cases s; cases "tl s") auto

lemma pct_decode_slash: "pct_decode (a @ SLASH # b) = pct_decode a @ SLASH # pct_decode b"
proof (induction a rule: pct_decode.induct)
  case (1 c x y s)
  then show ?case
    by (auto split: option.splits)
next
  case "2_1"
  then show ?case by (simp add: pct_decode_Cons)
next
  case "2_2"
  then show ?case by (cases b) (auto simp: pct_decode_Cons split: option.splits)
next
  case "2_3"
  then show ?case
    by (cases b) (auto simp: pct_decode_Cons split: option.splits)
qed

lemma set_pct_decode_join:
  "x \<noteq> SLASH \<Longrightarrow> x \<in> set (pct_decode (join [SLASH] segs)) \<longleftrightarrow> (\<exists>s \<in> set segs. x \<in> set (pct_decode s))"
proof (induction segs)
  case (Cons s segs)
  then show ?case
    by (cases segs) (auto simp: pct_decode_slash)
qed simp

section \<open>Paths and segments\<close>

lemma first_segment:
  assumes "\<forall>s \<in> set segs. SLASH \<notin> set s"
  shows "takeWhile (\<lambda>c. c \<noteq> SLASH) (dropWhile (\<lambda>c. c = SLASH) (join [SLASH] segs)) =
    (case filter (\<lambda>s. s \<noteq> []) segs of [] \<Rightarrow> [] | s # _ \<Rightarrow> s)"
  using assms
proof (induction segs)
  case (Cons s segs)
  show ?case
  proof (cases s)
    case Nil
    then show ?thesis
      using Cons by (cases segs) auto
  next
    case c: (Cons c cs)
    then have "c \<noteq> SLASH" and "takeWhile (\<lambda>c. c \<noteq> SLASH) (s @ SLASH # r) = s"
      and "takeWhile (\<lambda>c. c \<noteq> SLASH) s = s" for r
      using Cons.prems by (auto simp: takeWhile_append takeWhile_eq_all_conv)
    then show ?thesis
      using c by (cases segs) auto
  qed
qed simp

lemma url_lawsD:
  assumes "url_laws L enc" and "url_scheme L u = ''file''"
  shows "segment_laws L enc u" "text_laws L u" "rewrite_laws L u" "encoding_laws L enc"
  using assms by (auto simp: url_laws_def)

lemma null_in_path_iff:
  assumes "url_laws L enc" and "url_scheme L u = ''file''"
  shows "CHR 0x00 \<in> set (percent_decode L (url_path L u)) \<longleftrightarrow>
    (\<exists>s \<in> set (nonempty_segments L u). CHR 0x00 \<in> set (pct_decode s))"
proof -
  have "url_path L u = SLASH # join [SLASH] (url_segments L u)" and "percent_decode L = pct_decode"
    using url_lawsD [OF assms] by (simp_all add: segment_laws_def encoding_laws_def Let_def)
  then show ?thesis
    by (auto simp: pct_decode_Cons set_pct_decode_join nonempty_segments_def)
qed

lemma first_path_segment:
  assumes "url_laws L enc" and "url_scheme L u = ''file''"
  shows "takeWhile (\<lambda>c. c \<noteq> SLASH) (dropWhile (\<lambda>c. c = SLASH) (url_path L u)) =
    (case nonempty_segments L u of [] \<Rightarrow> [] | s # _ \<Rightarrow> s)"
  using url_lawsD(1) [OF assms] first_segment [of "url_segments L u"]
  by (simp add: segment_laws_def nonempty_segments_def Let_def)

lemma drive_segment_nonempty: "is_windows_drive_uri_segment s \<Longrightarrow> s \<noteq> []"
  by (auto simp: is_windows_drive_uri_segment_def)

lemma normalized_drive_id:
  assumes "url_laws L enc" and "url_scheme L u = ''file''" and "drive_normalized L u"
  shows "with_normalized_windows_drive_letter L u = u"
  using assms(3) first_path_segment [OF assms(1,2)]
  by (auto simp: with_normalized_windows_drive_letter_def drive_normalized_def Let_def
      is_windows_drive_uri_segment_def split: option.splits list.splits)

lemma opaque_first_segment:
  assumes laws: "url_laws L enc" and scheme: "url_scheme L u = ''file''"
    and common: "validate_common_known_uri L u = Ok ()" and opaque: "decode_bad_path_uri L u \<noteq> None"
  shows "url_host L u = None" and "\<exists>ss. nonempty_segments L u = ''%00'' # ss"
proof -
  obtain e where e: "url_str L u = BAD_PATH_URI_PREFIX @ e"
    using opaque by (auto simp: decode_bad_path_uri_def strip_prefix_Some_iff split: option.splits)
  have str: "url_str L u = ''file://'' @ (case url_host L u of Some h \<Rightarrow> h | None \<Rightarrow> []) @ url_path L u"
    and host: "\<forall>h. url_host L u = Some h \<longrightarrow> h \<noteq> [] \<and> SLASH \<notin> set h"
    using url_lawsD(2) [OF laws scheme] common by (simp_all add: text_laws_def)
  show no_host: "url_host L u = None"
    using e str host by (cases "url_host L u"; cases "the (url_host L u)") (auto simp: BAD_PATH_URI_PREFIX_def)
  then have "url_path L u = SLASH # ''%00'' @ SLASH # ''bad/path/'' @ e"
    using e str by (simp add: BAD_PATH_URI_PREFIX_def)
  then show "\<exists>ss. nonempty_segments L u = ''%00'' # ss"
    using first_path_segment [OF laws scheme] by (auto split: list.splits)
qed

lemma not_opaque:
  assumes "url_laws L enc" and "url_scheme L u = ''file''" and "validate_common_known_uri L u = Ok ()"
    and "\<forall>s \<in> set (nonempty_segments L u). CHR 0x00 \<notin> set (pct_decode s)"
  shows "decode_bad_path_uri L u = None"
  using opaque_first_segment(2) [OF assms(1-3)] assms(4) pct_decode_null [of "[]"] by fastforce

lemma canonicalI:
  assumes "url_laws L enc" and "url_scheme L u = ''file''" and "validate_common_known_uri L u = Ok ()"
    and "\<forall>s \<in> set (nonempty_segments L u). CHR 0x00 \<notin> set (pct_decode s)"
    and "url_host L u \<noteq> Some ''localhost''" and "drive_normalized L u"
  shows "canonical L u \<and> path_uri_of_url L u = Ok u \<and> decode_bad_path_uri L u = None"
  using assms null_in_path_iff [OF assms(1,2)] not_opaque [OF assms(1-4)]
  by (simp add: canonical_def validate_file_url_def path_uri_of_url_def without_localhost_authority_def
      normalized_drive_id)

lemma canonical_no_null:
  assumes "url_laws L enc" and "canonical L u" and "decode_bad_path_uri L u = None"
  shows "\<forall>s \<in> set (nonempty_segments L u). CHR 0x00 \<notin> set (pct_decode s)"
    and "validate_common_known_uri L u = Ok ()"
  using assms null_in_path_iff [OF assms(1), of u]
  by (auto simp: canonical_def validate_file_url_def res_bind_Inr_iff split: if_splits)

section \<open>Editing segments\<close>

lemma keeps_origin_trans: "keeps_origin L u v \<Longrightarrow> keeps_origin L v w \<Longrightarrow> keeps_origin L u w"
  by (simp add: keeps_origin_def)

lemma keeps_origin_scheme: "keeps_origin L u v \<Longrightarrow> url_scheme L u = ''file'' \<Longrightarrow> url_scheme L v = ''file''"
  by (simp add: keeps_origin_def)

lemma keeps_origin_common:
  "keeps_origin L u v \<Longrightarrow> validate_common_known_uri L v = validate_common_known_uri L u"
  by (simp add: keeps_origin_def validate_common_known_uri_def)

lemma edit_pop_if_empty:
  assumes "url_laws L enc" and "url_scheme L u = ''file''"
  shows "keeps_origin L u (seg_pop_if_empty L u)"
    and "nonempty_segments L (seg_pop_if_empty L u) = nonempty_segments L u"
proof -
  note seg = url_lawsD(1) [OF assms, unfolded segment_laws_def Let_def]
  show "keeps_origin L u (seg_pop_if_empty L u)"
    using seg by simp
  show "nonempty_segments L (seg_pop_if_empty L u) = nonempty_segments L u"
  proof (cases "1 < length (url_segments L u) \<and> last (url_segments L u) = []")
    case True
    then have "url_segments L u = butlast (url_segments L u) @ [[]]"
      using seg by (metis append_butlast_last_id)
    then have "filter (\<lambda>s. s \<noteq> []) (url_segments L u) = filter (\<lambda>s. s \<noteq> []) (butlast (url_segments L u))"
      by (metis (mono_tags, lifting) append_Nil2 filter.simps filter_append)
    with True show ?thesis
      using seg by (simp add: nonempty_segments_def)
  next
    case False
    then show ?thesis
      using seg by (auto simp: nonempty_segments_def)
  qed
qed

lemma edit_pop:
  assumes "url_laws L enc" and "url_scheme L u = ''file''"
  shows "keeps_origin L u (seg_pop L u)"
    and "length (url_segments L (seg_pop L u)) + length (nonempty_segments L (seg_pop L u))
      \<le> length (url_segments L u) + length (nonempty_segments L u)"
    and "nonempty_segments L u \<noteq> [] \<Longrightarrow>
      length (url_segments L (seg_pop L u)) + length (nonempty_segments L (seg_pop L u))
      < length (url_segments L u) + length (nonempty_segments L u)"
    and "nonempty_segments L (seg_pop L u) \<in> {nonempty_segments L u, butlast (nonempty_segments L u)}"
proof -
  note seg = url_lawsD(1) [OF assms, unfolded segment_laws_def Let_def]
  show "keeps_origin L u (seg_pop L u)"
    using seg by simp
  obtain xs x where u: "url_segments L u = xs @ [x]"
    using seg by (metis append_butlast_last_id)
  have pop: "url_segments L (seg_pop L u) = (if xs = [] then [[]] else xs)"
    using seg by (auto simp: u)
  show "nonempty_segments L (seg_pop L u) \<in> {nonempty_segments L u, butlast (nonempty_segments L u)}"
    by (auto simp: nonempty_segments_def u pop butlast_append)
  show "length (url_segments L (seg_pop L u)) + length (nonempty_segments L (seg_pop L u))
      \<le> length (url_segments L u) + length (nonempty_segments L u)"
    by (auto simp: nonempty_segments_def u pop)
  show "length (url_segments L (seg_pop L u)) + length (nonempty_segments L (seg_pop L u))
      < length (url_segments L u) + length (nonempty_segments L u)" if "nonempty_segments L u \<noteq> []"
    using that by (auto simp: nonempty_segments_def u pop split: if_splits)
qed

lemma edit_push:
  assumes "url_laws L enc" and "url_scheme L u = ''file''" and "plain_segment s"
  shows "keeps_origin L u (seg_push L u s)"
    and "nonempty_segments L (seg_push L u s) = nonempty_segments L u @ [enc s]"
proof -
  note seg = url_lawsD(1) [OF assms(1,2), unfolded segment_laws_def Let_def]
  show "keeps_origin L u (seg_push L u s)"
    using seg assms(3) by simp
  have "enc s \<noteq> []"
    using url_lawsD(4) [OF assms(1,2)] assms(3) by (simp add: encoding_laws_def)
  then show "nonempty_segments L (seg_push L u s) = nonempty_segments L u @ [enc s]"
    using seg assms(3) by (auto simp: nonempty_segments_def)
qed

section \<open>Ancestors\<close>

lemma parent_Some:
  assumes "url_laws L enc" and "url_scheme L u = ''file''" and "path_uri_parent L u = Some p"
  shows "keeps_origin L u p"
    and "length (url_segments L p) + length (nonempty_segments L p)
      < length (url_segments L u) + length (nonempty_segments L u)"
    and "prefix (nonempty_segments L p) (nonempty_segments L u)"
proof -
  let ?v = "seg_pop_if_empty L u"
  have p: "p = seg_pop L ?v" and ne: "nonempty_segments L u \<noteq> []"
    using assms(3) by (auto simp: path_uri_parent_def split: if_splits option.splits)
  have v: "keeps_origin L u ?v" "nonempty_segments L ?v = nonempty_segments L u"
    using edit_pop_if_empty [OF assms(1,2)] by auto
  then have scheme: "url_scheme L ?v = ''file''"
    using assms(2) by (simp add: keeps_origin_scheme)
  show "keeps_origin L u p"
    using v(1) edit_pop(1) [OF assms(1) scheme] unfolding p by (rule keeps_origin_trans)
  have "length (url_segments L ?v) \<le> length (url_segments L u)"
    using url_lawsD(1) [OF assms(1,2), unfolded segment_laws_def Let_def] by auto
  then show "length (url_segments L p) + length (nonempty_segments L p)
      < length (url_segments L u) + length (nonempty_segments L u)"
    using edit_pop(3) [OF assms(1) scheme] ne by (simp add: p v)
  show "prefix (nonempty_segments L p) (nonempty_segments L u)"
    using edit_pop(4) [OF assms(1) scheme] by (auto simp: p v prefixeq_butlast)
qed

text \<open>
  Walking up from a path ends: the ancestors of a \<^verbatim>\<open>file:\<close> URI are a finite list that starts with the
  URI and follows the parents up to a URI that has none, all on the same host.
\<close>

theorem ancestors_terminate:
  assumes "url_laws L enc" and "url_scheme L u = ''file''"
  shows "\<exists>us. path_uri_ancestors L u = Some us \<and> us \<noteq> [] \<and> hd us = u \<and> path_uri_parent L (last us) = None \<and>
    (\<forall>i. Suc i < length us \<longrightarrow> path_uri_parent L (us ! i) = Some (us ! Suc i)) \<and>
    (\<forall>v \<in> set us. url_host L v = url_host L u \<and> prefix (nonempty_segments L v) (nonempty_segments L u))"
  using assms(2)
proof (induction "length (url_segments L u) + length (nonempty_segments L u)" arbitrary: u rule: less_induct)
  case less
  show ?case
  proof (cases "path_uri_parent L u")
    case None
    then show ?thesis
      by (simp add: path_uri_ancestors.simps)
  next
    case (Some p)
    note p = parent_Some [OF assms(1) less.prems Some]
    have "url_scheme L p = ''file''"
      using p(1) less.prems by (rule keeps_origin_scheme)
    from less.hyps [OF p(2) this] obtain ps where ps: "path_uri_ancestors L p = Some ps" "ps \<noteq> []" "hd ps = p"
      "path_uri_parent L (last ps) = None"
      "\<forall>i. Suc i < length ps \<longrightarrow> path_uri_parent L (ps ! i) = Some (ps ! Suc i)"
      "\<forall>v \<in> set ps. url_host L v = url_host L p \<and> prefix (nonempty_segments L v) (nonempty_segments L p)"
      by blast
    have "path_uri_parent L ((u # ps) ! i) = Some ((u # ps) ! Suc i)" if "Suc i < length (u # ps)" for i
      using that ps(2,3,5) Some by (cases i) (auto simp: hd_conv_nth)
    then show ?thesis
      using ps p Some by (auto simp: path_uri_ancestors.simps [of L u] keeps_origin_def)
  qed
qed

section \<open>Joins\<close>

text \<open>The components of a path text, with the separators of a convention.\<close>

definition path_components :: "path_convention \<Rightarrow> string \<Rightarrow> string list" where
  "path_components convention path =
     split_on SLASH (if convention = Windows then map (\<lambda>c. if c = BSLASH then SLASH else c) path else path)"

text \<open>Text whose components the segment editor stores as they are.\<close>

definition editable :: "string \<Rightarrow> bool" where
  "editable path \<longleftrightarrow> set path \<inter> {CHR 0x00, CHR 0x09, NL, CR, CHR ''|''} = {}"

lemma set_split_on_piece: "w \<in> set (split_on d s) \<Longrightarrow> set w \<subseteq> set s"
proof (induction s arbitrary: w)
  case step: (Cons a s)
  show ?case
  proof (cases "split_on d s")
    case Nil
    then show ?thesis
      using step.prems by (auto split: if_splits)
  next
    case (Cons v vs)
    then have "set v \<subseteq> set s" "\<And>w. w \<in> set vs \<Longrightarrow> set w \<subseteq> set s"
      using step.IH by auto
    then show ?thesis
      using step.prems Cons by (fastforce split: if_splits)
  qed
qed simp

lemma set_path_component:
  assumes "c \<in> set (path_components convention path)"
  shows "set c \<subseteq> set path \<union> {SLASH}" and "SLASH \<notin> set c" and "convention = Windows \<Longrightarrow> BSLASH \<notin> set c"
proof -
  let ?text = "if convention = Windows then map (\<lambda>c. if c = BSLASH then SLASH else c) path else path"
  have c: "set c \<subseteq> set ?text" "SLASH \<notin> set c"
    using assms split_on_pieces set_split_on_piece unfolding path_components_def by blast+
  then show "set c \<subseteq> set path \<union> {SLASH}" and "SLASH \<notin> set c"
    by (auto split: if_splits)
  show "BSLASH \<notin> set c" if "convention = Windows"
    using c(1) that by auto
qed

definition real_component :: "string \<Rightarrow> bool" where
  "real_component c \<longleftrightarrow> c \<notin> {[], ''.'', ''..''}"

lemma editable_components:
  assumes "editable path" and "c \<in> set (path_components convention path)" and "real_component c"
  shows "plain_segment c" and "CHR 0x00 \<notin> set c"
  using assms set_path_component(1) [OF assms(2)]
  by (auto simp: editable_def plain_segment_def real_component_def)

lemma join_components_append:
  assumes "url_laws L enc" and "url_scheme L u = ''file''"
    and "\<forall>c \<in> set cs. real_component c \<longrightarrow> plain_segment c" and "''..'' \<notin> set cs"
  shows "keeps_origin L u (join_components L anchor u depth cs) \<and>
    nonempty_segments L (join_components L anchor u depth cs) =
      nonempty_segments L u @ map enc (filter real_component cs)"
  using assms(2-)
proof (induction cs arbitrary: u depth)
  case Nil
  then show ?case by (simp add: keeps_origin_def)
next
  case (Cons c cs)
  show ?case
  proof (cases "real_component c")
    case True
    then have c: "plain_segment c" "c \<noteq> []" "c \<noteq> ''.''" "c \<noteq> ''..''"
      using Cons.prems by (auto simp: real_component_def)
    note push = edit_push [OF assms(1) Cons.prems(1) c(1)]
    have "url_scheme L (seg_push L u c) = ''file''"
      using push(1) Cons.prems(1) by (rule keeps_origin_scheme)
    from Cons.IH [OF this] Cons.prems show ?thesis
      using c push True by (auto intro: keeps_origin_trans)
  next
    case False
    then show ?thesis
      using Cons by (auto simp: real_component_def)
  qed
qed

lemma join_components_anchored:
  assumes "url_laws L enc" and "url_scheme L u = ''file''"
    and "\<forall>c \<in> set cs. real_component c \<longrightarrow> plain_segment c"
    and "anchor \<le> depth" and "depth \<le> length (nonempty_segments L u)"
  defines "v \<equiv> join_components L anchor u depth cs"
  shows "keeps_origin L u v \<and> anchor \<le> length (nonempty_segments L v) \<and>
    take anchor (nonempty_segments L v) = take anchor (nonempty_segments L u) \<and>
    set (nonempty_segments L v) \<subseteq> set (nonempty_segments L u) \<union> enc ` {c \<in> set cs. real_component c}"
  using assms(2-5) unfolding v_def
proof (induction cs arbitrary: u depth)
  case Nil
  then show ?case by (simp add: keeps_origin_def)
next
  case (Cons c cs)
  show ?case
  proof (cases "real_component c")
    case True
    then have c: "plain_segment c" "c \<noteq> []" "c \<noteq> ''.''" "c \<noteq> ''..''"
      using Cons.prems by (auto simp: real_component_def)
    note push = edit_push [OF assms(1) Cons.prems(1) c(1)]
    have "url_scheme L (seg_push L u c) = ''file''"
      using push(1) Cons.prems(1) by (rule keeps_origin_scheme)
    from Cons.IH [OF this, of "depth + 1"] Cons.prems show ?thesis
      using c push True by (auto intro: keeps_origin_trans)
  next
    case not_real: False
    show ?thesis
    proof (cases "c = ''..'' \<and> anchor < depth")
      case True
      note pop = edit_pop [OF assms(1) Cons.prems(1)]
      have len: "depth - 1 \<le> length (nonempty_segments L (seg_pop L u))"
        and tk: "take anchor (nonempty_segments L (seg_pop L u)) = take anchor (nonempty_segments L u)"
        and sub: "set (nonempty_segments L (seg_pop L u)) \<subseteq> set (nonempty_segments L u)"
        using pop(4) True Cons.prems(4) by (auto simp: take_butlast dest: in_set_butlastD)
      have "url_scheme L (seg_pop L u) = ''file''"
        using pop(1) Cons.prems(1) by (rule keeps_origin_scheme)
      moreover have "\<forall>c \<in> set cs. real_component c \<longrightarrow> plain_segment c" "anchor \<le> depth - 1"
        using Cons.prems True by auto
      ultimately have "keeps_origin L (seg_pop L u) (join_components L anchor (seg_pop L u) (depth - 1) cs) \<and>
        anchor \<le> length (nonempty_segments L (join_components L anchor (seg_pop L u) (depth - 1) cs)) \<and>
        take anchor (nonempty_segments L (join_components L anchor (seg_pop L u) (depth - 1) cs)) =
          take anchor (nonempty_segments L (seg_pop L u)) \<and>
        set (nonempty_segments L (join_components L anchor (seg_pop L u) (depth - 1) cs)) \<subseteq>
          set (nonempty_segments L (seg_pop L u)) \<union> enc ` {c \<in> set cs. real_component c}"
        using len by (rule Cons.IH)
      then show ?thesis
        using pop(1) tk sub True by (auto intro: keeps_origin_trans)
    next
      case False
      then show ?thesis
        using Cons not_real by (auto simp: real_component_def)
    qed
  qed
qed

text \<open>Text that is no absolute path of its convention.\<close>

definition rooted :: "path_convention \<Rightarrow> string \<Rightarrow> bool" where
  "rooted convention path =
     (case convention of
        Posix \<Rightarrow> prefix [SLASH] path
      | Windows \<Rightarrow>
          is_windows_drive_absolute_path path \<or>
          (case path of a # b # _ \<Rightarrow> is_windows_separator a \<and> is_windows_separator b | _ \<Rightarrow> False))"

lemma not_rooted_not_absolute:
  assumes "\<not> rooted convention path" and "CHR 0x00 \<notin> set path"
  shows "from_absolute_native_path L path convention = Ok None"
proof (cases convention)
  case Posix
  then have "strip_prefix [SLASH] path = None"
    using assms(1) by (simp add: rooted_def strip_prefix_None_iff)
  then show ?thesis
    by (simp add: from_absolute_native_path_def parse_posix_path_def Posix)
next
  case Windows
  then have *: "\<not> is_windows_drive_absolute_path path"
    "\<not> (case path of a # b # _ \<Rightarrow> is_windows_separator a \<and> is_windows_separator b | _ \<Rightarrow> False)"
    using assms(1) by (simp_all add: rooted_def)
  have "strip_prefix (BSLASH # BSLASH # p) path = None" for p
    using *(2) by (auto simp: strip_prefix_None_iff is_windows_separator_def prefix_def)
  then have "normalize_windows_device_path path = None"
    by (simp add: normalize_windows_device_path_def namespace_prefix_def Let_def)
  moreover have "\<not> uses_windows_namespace path"
    using *(2) by (auto simp: uses_windows_namespace_def split: list.splits)
  ultimately show ?thesis
    using * assms(2)
    by (auto simp: from_absolute_native_path_def Windows parse_windows_path_def
        parse_unnormalized_windows_path_def split: list.splits)
qed

text \<open>Text that is relative to the base alone: no root and, on Windows, no drive letter.\<close>

definition plainly_relative :: "path_convention \<Rightarrow> string \<Rightarrow> bool" where
  "plainly_relative convention path \<longleftrightarrow>
     path \<noteq> [] \<and> hd path \<noteq> SLASH \<and>
     (convention = Windows \<longrightarrow> hd path \<noteq> BSLASH \<and> \<not> (is_ascii_alphabetic (hd path) \<and> prefix [COLON] (tl path)))"

lemma plainly_relative_facts:
  assumes "plainly_relative convention path"
  shows "\<not> rooted convention path" and "strip_same_drive L u convention path = Ok path"
    and "\<not> windows_root_relative convention path"
  using assms
  by (auto simp: plainly_relative_def rooted_def strip_same_drive_def windows_root_relative_def
      is_windows_drive_absolute_path_def is_windows_separator_def split: list.splits path_convention.splits)

lemma join_plainly_relative:
  assumes "plainly_relative convention path" and "editable path"
    and "infer_path_convention L u = Some convention" and "decode_bad_path_uri L u = None"
  shows "path_uri_join L u path = path_uri_of_url L
    (join_components L (anchor_depth convention) (seg_pop_if_empty L u) (length (nonempty_segments L u))
      (path_components convention path))"
proof -
  have nonull: "CHR 0x00 \<notin> set path"
    using assms(2) by (simp add: editable_def)
  have "from_absolute_native_path L path convention = Ok None"
    using plainly_relative_facts(1) [OF assms(1)] nonull by (rule not_rooted_not_absolute)
  moreover have "path \<noteq> []"
    using assms(1) by (simp add: plainly_relative_def)
  ultimately show ?thesis
    using plainly_relative_facts(3) [OF assms(1)] nonull assms(3,4)
    by (simp add: plainly_relative_facts(2) [OF assms(1)] path_uri_join_def join_relative_def path_components_def Let_def)
qed

lemma drive_segment_decoded:
  assumes "is_windows_drive_uri_segment s"
  shows "pct_decode s = s"
  using assms by (auto simp: is_windows_drive_uri_segment_def split: list.splits)

lemma infer_same_origin:
  assumes "decode_bad_path_uri L u = None" and "decode_bad_path_uri L v = None" and "url_host L v = url_host L u"
    and "nonempty_segments L u \<noteq> [] \<Longrightarrow> nonempty_segments L v \<noteq> [] \<and>
      hd (nonempty_segments L v) = hd (nonempty_segments L u)"
    and "nonempty_segments L u = [] \<Longrightarrow> \<forall>s \<in> set (nonempty_segments L v). \<not> is_windows_drive_uri_segment s"
  shows "infer_path_convention L v = infer_path_convention L u"
    and "drive_normalized L u \<Longrightarrow> drive_normalized L v"
  using assms
  by (auto simp: infer_path_convention_def drive_normalized_def split: option.splits list.splits)

text \<open>Edits of the segments that keep the first one keep a path URI valid.\<close>

lemma edited_canonical:
  assumes laws: "url_laws L enc" and u: "canonical L u" "decode_bad_path_uri L u = None"
    and v: "keeps_origin L u v" "\<forall>s \<in> set (nonempty_segments L v). CHR 0x00 \<notin> set (pct_decode s)"
    and first: "nonempty_segments L u \<noteq> [] \<Longrightarrow> nonempty_segments L v \<noteq> [] \<and>
      hd (nonempty_segments L v) = hd (nonempty_segments L u)"
    and not_drive: "nonempty_segments L u = [] \<Longrightarrow>
      \<forall>s \<in> set (nonempty_segments L v). \<not> is_windows_drive_uri_segment s"
  shows "canonical L v" and "path_uri_of_url L v = Ok v" and "decode_bad_path_uri L v = None"
    and "infer_path_convention L v = infer_path_convention L u" and "url_host L v = url_host L u"
proof -
  have scheme: "url_scheme L v = ''file''"
    using v(1) u(1) by (simp add: keeps_origin_scheme canonical_def)
  show host: "url_host L v = url_host L u"
    using v(1) by (simp add: keeps_origin_def)
  have common: "validate_common_known_uri L v = Ok ()"
    using canonical_no_null(2) [OF laws u] keeps_origin_common [OF v(1)] by simp
  have bad: "decode_bad_path_uri L v = None"
    using laws scheme common v(2) by (rule not_opaque)
  show "infer_path_convention L v = infer_path_convention L u"
    using infer_same_origin(1) [OF u(2) bad host] first not_drive by blast
  have "drive_normalized L v"
    using infer_same_origin(2) [OF u(2) bad host] first not_drive u(1) by (auto simp: canonical_def)
  with laws scheme common v(2) _
  have "canonical L v \<and> path_uri_of_url L v = Ok v \<and> decode_bad_path_uri L v = None"
    by (rule canonicalI) (use host u(1) in \<open>simp add: canonical_def\<close>)
  then show "canonical L v" "path_uri_of_url L v = Ok v" "decode_bad_path_uri L v = None"
    by auto
qed

lemma enc_no_null:
  assumes "url_laws L enc" and "editable path" and "url_scheme L (u :: 'u) = ''file''"
    and "c \<in> set (path_components convention path)" and "real_component c"
  shows "pct_decode (enc c) = c" and "CHR 0x00 \<notin> set (pct_decode (enc c))" and "enc c \<noteq> []"
proof -
  have "encoding_laws L enc"
    using assms(1,3) by (rule url_lawsD(4))
  then show "pct_decode (enc c) = c" "enc c \<noteq> []" "CHR 0x00 \<notin> set (pct_decode (enc c))"
    using editable_components [OF assms(2,4,5)] by (auto simp: encoding_laws_def)
qed

text \<open>A join without \<^verbatim>\<open>..\<close> appends its components to the base.\<close>

lemma join_appends:
  assumes laws: "url_laws L enc" and u: "canonical L u" "decode_bad_path_uri L u = None"
    and conv: "infer_path_convention L u = Some convention"
    and path: "plainly_relative convention path" "editable path" "''..'' \<notin> set (path_components convention path)"
    and drive: "nonempty_segments L u = [] \<Longrightarrow>
      list_all (\<lambda>c. \<not> is_windows_drive_uri_segment c) (path_components convention path)"
  obtains v where "path_uri_join L u path = Ok v" and "canonical L v" and "decode_bad_path_uri L v = None"
    and "keeps_origin L u v" and "infer_path_convention L v = Some convention"
    and "nonempty_segments L v =
      nonempty_segments L u @ map enc (filter real_component (path_components convention path))"
proof -
  let ?cs = "path_components convention path"
  let ?u0 = "seg_pop_if_empty L u"
  define v where "v = join_components L (anchor_depth convention) ?u0 (length (nonempty_segments L u)) ?cs"
  have scheme: "url_scheme L u = ''file''"
    using u(1) by (simp add: canonical_def)
  note u0 = edit_pop_if_empty [OF laws scheme]
  have scheme0: "url_scheme L ?u0 = ''file''"
    using u0(1) scheme by (rule keeps_origin_scheme)
  have plain: "\<forall>c \<in> set ?cs. real_component c \<longrightarrow> plain_segment c"
    using editable_components [OF path(2)] by blast
  have v: "keeps_origin L u v"
    and segs: "nonempty_segments L v = nonempty_segments L u @ map enc (filter real_component ?cs)"
    using join_components_append [OF laws scheme0 plain path(3)] u0
    by (auto simp: v_def intro: keeps_origin_trans)
  have encoded: "pct_decode (enc c) = c" "CHR 0x00 \<notin> set (pct_decode (enc c))"
    if "c \<in> set ?cs" "real_component c" for c
    using enc_no_null [OF laws path(2) scheme that] by auto
  have nonull: "\<forall>s \<in> set (nonempty_segments L v). CHR 0x00 \<notin> set (pct_decode s)"
    using canonical_no_null(1) [OF laws u] encoded by (auto simp: segs)
  have not_drive: "\<forall>s \<in> set (nonempty_segments L v). \<not> is_windows_drive_uri_segment s"
    if "nonempty_segments L u = []"
    using drive [OF that] encoded(1) drive_segment_decoded
    by (auto simp: segs that list_all_iff) metis
  have first: "nonempty_segments L v \<noteq> [] \<and> hd (nonempty_segments L v) = hd (nonempty_segments L u)"
    if "nonempty_segments L u \<noteq> []"
    using that by (simp add: segs)
  note edited = edited_canonical [OF laws u v nonull first not_drive, simplified]
  have "path_uri_join L u path = path_uri_of_url L v"
    unfolding v_def using path(1,2) conv u(2) by (rule join_plainly_relative)
  then show thesis
    using that v segs edited conv by simp
qed

lemma contained_segments:
  assumes "url_laws L enc" and "url_scheme L (u :: 'u) = ''file''" and "editable path"
    and "containment_path_segments L u convention \<noteq> None"
    and "nonempty_segments L v =
      nonempty_segments L u @ map enc (filter real_component (path_components convention path))"
  shows "containment_path_segments L u convention = Some (nonempty_segments L u)"
    and "containment_path_segments L v convention = Some (nonempty_segments L v)"
proof -
  have dec: "percent_decode L = pct_decode"
    using url_lawsD(4) [OF assms(1,2)] by (simp add: encoding_laws_def)
  have base: "\<forall>s \<in> set (nonempty_segments L u). \<forall>b \<in> set (pct_decode s).
      b \<noteq> SLASH \<and> \<not> (convention = Windows \<and> b = BSLASH)"
    using assms(4) by (auto simp: containment_path_segments_def Let_def dec split: if_splits)
  then show "containment_path_segments L u convention = Some (nonempty_segments L u)"
    by (auto simp: containment_path_segments_def Let_def dec)
  have "b \<noteq> SLASH \<and> \<not> (convention = Windows \<and> b = BSLASH)"
    if "c \<in> set (path_components convention path)" "real_component c" "b \<in> set (pct_decode (enc c))" for c b
    using set_path_component(2,3) [OF that(1)] enc_no_null(1) [OF assms(1,3,2) that(1,2)] that(3) by auto
  then have "\<forall>s \<in> set (nonempty_segments L v). \<forall>b \<in> set (pct_decode s).
      b \<noteq> SLASH \<and> \<not> (convention = Windows \<and> b = BSLASH)"
    using base by (auto simp: assms(5))
  then show "containment_path_segments L v convention = Some (nonempty_segments L v)"
    by (auto simp: containment_path_segments_def Let_def dec)
qed


lemma pops_anchored:
  assumes "url_laws L enc" and "url_scheme L u = ''file''"
    and "anchor + n \<le> length (nonempty_segments L u)"
  defines "v \<equiv> (seg_pop L ^^ n) u"
  shows "keeps_origin L u v \<and> anchor \<le> length (nonempty_segments L v) \<and>
    take anchor (nonempty_segments L v) = take anchor (nonempty_segments L u) \<and>
    set (nonempty_segments L v) \<subseteq> set (nonempty_segments L u)"
  using assms(2,3) unfolding v_def
proof (induction n arbitrary: u)
  case 0
  then show ?case by (simp add: keeps_origin_def)
next
  case (Suc n)
  note pop = edit_pop [OF assms(1) Suc.prems(1)]
  have "anchor + n \<le> length (nonempty_segments L (seg_pop L u))"
    and tk: "take anchor (nonempty_segments L (seg_pop L u)) = take anchor (nonempty_segments L u)"
    and sub: "set (nonempty_segments L (seg_pop L u)) \<subseteq> set (nonempty_segments L u)"
    using pop(4) Suc.prems(2) by (auto simp: take_butlast dest: in_set_butlastD)
  from Suc.IH [OF keeps_origin_scheme [OF pop(1) Suc.prems(1)] this(1)] show ?case
    unfolding funpow_Suc_right comp_def
    using pop(1) tk sub by (auto intro: keeps_origin_trans)
qed

lemma join_relative_anchored:
  assumes "url_laws L enc" and "url_scheme L u = ''file''" and "editable path"
    and "anchor_depth convention \<le> length (nonempty_segments L u)"
  defines "v \<equiv> join_relative L u convention path"
  shows "keeps_origin L u v \<and> anchor_depth convention \<le> length (nonempty_segments L v) \<and>
    take (anchor_depth convention) (nonempty_segments L v) = take (anchor_depth convention) (nonempty_segments L u) \<and>
    set (nonempty_segments L v) \<subseteq>
      set (nonempty_segments L u) \<union> enc ` {c \<in> set (path_components convention path). real_component c}"
proof -
  let ?a = "anchor_depth convention"
  let ?u0 = "seg_pop_if_empty L u"
  define n where "n = (if windows_root_relative convention path then length (nonempty_segments L u) - ?a else 0)"
  define u1 where "u1 = (seg_pop L ^^ n) ?u0"
  note u0 = edit_pop_if_empty [OF assms(1,2)]
  have n: "?a + n \<le> length (nonempty_segments L ?u0)"
    using assms(4) by (auto simp: n_def u0)
  note u1 = pops_anchored [OF assms(1) keeps_origin_scheme [OF u0(1) assms(2)] n, folded u1_def]
  have origin1: "keeps_origin L u u1"
    using u0(1) u1 by (blast intro: keeps_origin_trans)
  define depth where "depth = (if windows_root_relative convention path then min (length (nonempty_segments L u)) ?a
    else length (nonempty_segments L u))"
  have v: "v = join_components L ?a u1 depth (path_components convention path)"
    by (simp add: v_def join_relative_def u1_def n_def depth_def path_components_def Let_def)
  have plain: "\<forall>c \<in> set (path_components convention path). real_component c \<longrightarrow> plain_segment c"
    using editable_components [OF assms(3)] by blast
  have depth: "?a \<le> depth" "depth \<le> length (nonempty_segments L u1)"
    using assms(4) u1 by (auto simp: depth_def u1_def n_def u0 min_def)
  note v1 = join_components_anchored [OF assms(1) keeps_origin_scheme [OF origin1 assms(2)] plain depth]
  show ?thesis
    unfolding v using v1 origin1 u1 u0(2) by (auto intro: keeps_origin_trans)
qed

text \<open>
  Joining to a Windows path stays on its drive or share, whatever \<^verbatim>\<open>..\<close> components, leading separator
  or drive letter of its own the relative text has: the result is a valid URI with the host of the base
  and with its first segment, the drive or the share, and it is still a Windows path.
\<close>

theorem join_keeps_drive_or_share:
  assumes "url_laws L enc" and "canonical L u" "decode_bad_path_uri L u = None"
    and "infer_path_convention L u = Some Windows" and "nonempty_segments L u \<noteq> []"
    and "path \<noteq> []" and "editable path" and "\<not> rooted Windows path"
    and "strip_same_drive L u Windows path = Ok rel"
  shows "\<exists>v. path_uri_join L u path = Ok v \<and> canonical L v \<and> url_host L v = url_host L u \<and>
    nonempty_segments L v \<noteq> [] \<and> hd (nonempty_segments L v) = hd (nonempty_segments L u) \<and>
    infer_path_convention L v = Some Windows"
proof -
  have scheme: "url_scheme L u = ''file''"
    using assms(2) by (simp add: canonical_def)
  have nonull: "CHR 0x00 \<notin> set path"
    using assms(7) by (simp add: editable_def)
  have rel: "editable rel"
    using assms(7,9) by (auto simp: strip_same_drive_def editable_def split: list.splits if_splits)
  define v where "v = join_relative L u Windows rel"
  have "anchor_depth Windows \<le> length (nonempty_segments L u)"
    using assms(5) by (cases "nonempty_segments L u") (auto simp: anchor_depth_def)
  from join_relative_anchored [OF assms(1) scheme rel this]
  have v: "keeps_origin L u v" "1 \<le> length (nonempty_segments L v)"
    "take 1 (nonempty_segments L v) = take 1 (nonempty_segments L u)"
    "set (nonempty_segments L v) \<subseteq>
      set (nonempty_segments L u) \<union> enc ` {c \<in> set (path_components Windows rel). real_component c}"
    by (simp_all add: v_def anchor_depth_def)
  have first: "nonempty_segments L v \<noteq> []" "hd (nonempty_segments L v) = hd (nonempty_segments L u)"
    using v(2,3) assms(5) by (cases "nonempty_segments L v"; cases "nonempty_segments L u"; simp)+
  have nonull_v: "\<forall>s \<in> set (nonempty_segments L v). CHR 0x00 \<notin> set (pct_decode s)"
    using canonical_no_null(1) [OF assms(1-3)] enc_no_null(2) [OF assms(1) rel scheme] v(4) by auto
  note edited = edited_canonical [OF assms(1-3) v(1) nonull_v, simplified first assms(5), simplified]
  have "path_uri_join L u path = path_uri_of_url L v"
    using not_rooted_not_absolute [OF assms(8) nonull, of L] assms(3,4,6,9) nonull
    by (simp add: path_uri_join_def v_def)
  then show ?thesis
    using edited first assms(4) by simp
qed

section \<open>Construction\<close>

lemma first_nonempty_split:
  assumes "filter (\<lambda>s. s \<noteq> []) segs = d # ds"
  obtains k rest where "segs = replicate k [] @ d # rest"
proof -
  obtain xs ys where "segs = xs @ d # ys" "\<forall>s \<in> set xs. s = []"
    using assms by (auto simp: filter_eq_Cons_iff)
  moreover from this(2) have "xs = replicate (length xs) []"
    by (auto intro: replicate_length_same [symmetric])
  ultimately show thesis
    using that by metis
qed

lemma join_empties:
  "join [SLASH] (replicate k [] @ d # rest) = replicate k SLASH @ d @ (if rest = [] then [] else SLASH # join [SLASH] rest)"
  by (induction k) (auto simp: join_Cons)

lemma letters_uppercase:
  "list_all (\<lambda>c. is_ascii_alphabetic (ascii_upper c) \<and> is_ascii_uppercase (ascii_upper c) \<and>
     ascii_upper c \<noteq> SLASH \<and> ascii_upper c \<noteq> CHR ''%'')
     (''abcdefghijklmnopqrstuvwxyz'' @ ascii_uppercase_letters)"
  by code_simp

lemma alphabetic_letters:
  assumes "is_ascii_alphabetic c"
  shows "c \<in> set (''abcdefghijklmnopqrstuvwxyz'' @ ascii_uppercase_letters)"
proof (cases "map_of (zip ''ABCDEFGHIJKLMNOPQRSTUVWXYZ'' ''abcdefghijklmnopqrstuvwxyz'') c")
  case None
  then have "ascii_lower c = c"
    unfolding ascii_lower_def by (simp only: option.case)
  then show ?thesis
    using assms unfolding is_ascii_alphabetic_def set_append by (simp only: Un_iff simp_thms)
next
  case (Some d)
  then have "(c, d) \<in> set (zip ascii_uppercase_letters ''abcdefghijklmnopqrstuvwxyz'')"
    unfolding ascii_uppercase_letters_def by (rule map_of_SomeD)
  then show ?thesis
    by (metis UnI2 set_append set_zip_leftD)
qed

lemma drive_uppercase:
  assumes "is_ascii_alphabetic c"
  shows "is_ascii_alphabetic (ascii_upper c)" and "is_ascii_uppercase (ascii_upper c)"
    and "ascii_upper c \<noteq> SLASH" and "ascii_upper c \<noteq> CHR ''%''"
  using letters_uppercase [unfolded list_all_iff, rule_format, OF alphabetic_letters [OF assms]] by simp_all

lemma segments_of_path:
  assumes "url_laws L enc" and "url_scheme L u = ''file''" and "segs \<noteq> []" and "\<forall>s \<in> set segs. SLASH \<notin> set s"
    and "url_path L u = SLASH # join [SLASH] segs"
  shows "url_segments L u = segs"
proof -
  note laws = url_lawsD(1) [OF assms(1,2), unfolded segment_laws_def Let_def]
  have "join [SLASH] (url_segments L u) = join [SLASH] segs"
    using laws assms(5) by simp
  then have "split_on SLASH (join [SLASH] (url_segments L u)) = split_on SLASH (join [SLASH] segs)"
    by simp
  then show ?thesis
    using laws assms(3,4) by (simp add: split_on_join)
qed

text \<open>The drive letter is the only thing that normalisation changes.\<close>

lemma normalized_drive:
  assumes laws: "url_laws L enc" and scheme: "url_scheme L u = ''file''"
    and lower: "\<not> drive_normalized L u"
  defines "v \<equiv> with_normalized_windows_drive_letter L u"
  obtains c ss where "keeps_origin L u v" and "nonempty_segments L u = [c, COLON] # ss"
    and "is_ascii_alphabetic c" and "nonempty_segments L v = [ascii_upper c, COLON] # ss"
proof -
  have host: "url_host L u = None"
    using lower by (auto simp: drive_normalized_def split: option.splits list.splits)
  obtain d ss where d: "nonempty_segments L u = d # ss" "is_windows_drive_uri_segment d"
    "\<not> is_ascii_uppercase (hd d)"
    using lower by (auto simp: drive_normalized_def split: option.splits list.splits)
  then obtain c where c: "d = [c, COLON]" "is_ascii_alphabetic c"
    by (auto simp: is_windows_drive_uri_segment_def split: list.splits)
  obtain k rest where segs: "url_segments L u = replicate k [] @ d # rest"
    using d(1) unfolding nonempty_segments_def by (rule first_nonempty_split)
  let ?tail = "COLON # (if rest = [] then [] else SLASH # join [SLASH] rest)"
  note seg = url_lawsD(1) [OF laws scheme, unfolded segment_laws_def Let_def]
  have noslash: "c \<noteq> SLASH" "\<forall>s \<in> set rest. SLASH \<notin> set s"
    using seg by (auto simp: segs c)
  have path: "url_path L u = replicate (Suc k) SLASH @ c # ?tail"
    using seg join_empties [of k d rest] by (simp add: segs c)
  have drop: "dropWhile (\<lambda>c. c = SLASH) (url_path L u) = c # ?tail"
    "takeWhile (\<lambda>c. c = SLASH) (url_path L u) = replicate (Suc k) SLASH"
    using noslash(1) unfolding path by (simp_all add: dropWhile_append takeWhile_append)
  have first: "takeWhile (\<lambda>c. c \<noteq> SLASH) (c # ?tail) = d"
    using noslash(1) by (simp add: c)
  have v: "v = url_set_path L u (replicate (Suc k) SLASH @ ascii_upper c # ?tail)"
    using host d c first unfolding v_def with_normalized_windows_drive_letter_def Let_def drop by simp
  then have path_v: "url_path L v = replicate (Suc k) SLASH @ ascii_upper c # ?tail" and "keeps_origin L u v"
    using url_lawsD(3) [OF laws scheme] path c(2) unfolding rewrite_laws_def Let_def by blast+
  have scheme_v: "url_scheme L v = ''file''"
    using \<open>keeps_origin L u v\<close> scheme by (rule keeps_origin_scheme)
  have "url_segments L v = replicate k [] @ [ascii_upper c, COLON] # rest"
  proof (rule segments_of_path [OF laws scheme_v])
    show "\<forall>s \<in> set (replicate k [] @ [ascii_upper c, COLON] # rest). SLASH \<notin> set s"
      using noslash(2) drive_uppercase(3) [OF c(2)] by auto
    show "url_path L v = SLASH # join [SLASH] (replicate k [] @ [ascii_upper c, COLON] # rest)"
      using path_v join_empties [of k "[ascii_upper c, COLON]" rest] by simp
  qed simp
  then have "nonempty_segments L v = [ascii_upper c, COLON] # ss"
    using d(1) by (simp add: nonempty_segments_def segs c)
  then show thesis
    using that \<open>keeps_origin L u v\<close> d c by simp
qed

lemma canonical_constructed:
  assumes "url_laws L enc" and "canonical L u"
  shows "path_uri_of_url L u = Ok u"
  using assms by (simp add: canonical_def path_uri_of_url_def without_localhost_authority_def normalized_drive_id)

lemma without_localhost_valid:
  assumes laws: "url_laws L enc" and scheme: "url_scheme L u = ''file''" and valid: "validate_file_url L u = Ok ()"
    and w: "without_localhost_authority L u = Ok w"
  shows "url_scheme L w = ''file''" and "validate_file_url L w = Ok ()" and "url_host L w \<noteq> Some ''localhost''"
proof -
  have "url_scheme L w = ''file'' \<and> validate_file_url L w = Ok () \<and> url_host L w \<noteq> Some ''localhost''"
  proof (cases "url_host L u = Some ''localhost''")
    case True
    have common: "validate_common_known_uri L u = Ok ()"
      using valid by (auto simp: validate_file_url_def res_bind_Inr_iff)
    have "decode_bad_path_uri L u = None"
      using opaque_first_segment(1) [OF laws scheme common] True by (cases "decode_bad_path_uri L u") auto
    then have nonull: "\<forall>s \<in> set (nonempty_segments L u). CHR 0x00 \<notin> set (pct_decode s)"
      using valid null_in_path_iff [OF laws scheme] by (auto simp: validate_file_url_def res_bind_Inr_iff split: if_splits)
    have "url_host L w = None" "url_segments L w = url_segments L u" "url_scheme L w = url_scheme L u"
      "validate_common_known_uri L w = validate_common_known_uri L u"
      using url_lawsD(3) [OF laws scheme] True w
      by (auto simp: rewrite_laws_def without_localhost_authority_def)
    then show ?thesis
      using scheme common nonull null_in_path_iff [OF laws, of w]
      by (simp add: validate_file_url_def nonempty_segments_def)
  next
    case False
    then show ?thesis
      using scheme valid w by (simp add: without_localhost_authority_def)
  qed
  then show "url_scheme L w = ''file''" "validate_file_url L w = Ok ()" "url_host L w \<noteq> Some ''localhost''"
    by auto
qed

text \<open>
  C31: Every path URI that construction from a URL accepts is canonical: it has the scheme \<^verbatim>\<open>file\<close>, no
  credentials, port, query or fragment, no encoded null byte unless it is an opaque fallback, no
  \<^verbatim>\<open>localhost\<close> authority, and an upper-case drive letter if its first segment is a drive. Constructing it
  again from its URL changes nothing.
\<close>

theorem constructed_uri_canonical:
  assumes "url_laws L enc" and "path_uri_of_url L u = Ok v"
  shows "canonical L v \<and> path_uri_of_url L v = Ok v"
proof -
  obtain w where scheme: "url_scheme L u = ''file''" and valid: "validate_file_url L u = Ok ()"
    and w: "without_localhost_authority L u = Ok w" and v: "v = with_normalized_windows_drive_letter L w"
    using assms(2) by (auto simp: path_uri_of_url_def res_bind_Inr_iff split: if_splits)
  note w = without_localhost_valid [OF assms(1) scheme valid w]
  have "canonical L v"
  proof (cases "drive_normalized L w")
    case True
    then show ?thesis
      using w normalized_drive_id [OF assms(1) w(1)] by (simp add: canonical_def v)
  next
    case False
    obtain c ss where kept: "keeps_origin L w v" and segs: "nonempty_segments L w = [c, COLON] # ss"
      and c: "is_ascii_alphabetic c" and segs': "nonempty_segments L v = [ascii_upper c, COLON] # ss"
      using normalized_drive [OF assms(1) w(1) False] unfolding v by blast
    have common: "validate_common_known_uri L w = Ok ()"
      using w(2) by (auto simp: validate_file_url_def res_bind_Inr_iff)
    have "decode_bad_path_uri L w = None"
      using opaque_first_segment(2) [OF assms(1) w(1) common] segs by (cases "decode_bad_path_uri L w") auto
    then have "\<forall>s \<in> set ss. CHR 0x00 \<notin> set (pct_decode s)"
      using w(2) null_in_path_iff [OF assms(1) w(1)] segs
      by (auto simp: validate_file_url_def res_bind_Inr_iff split: if_splits)
    moreover have "CHR 0x00 \<notin> set (pct_decode [ascii_upper c, COLON])"
      using drive_uppercase(2) [OF c] by (auto simp: is_ascii_uppercase_def ascii_uppercase_letters_def)
    ultimately have nonull: "\<forall>s \<in> set (nonempty_segments L v). CHR 0x00 \<notin> set (pct_decode s)"
      by (simp add: segs')
    have "drive_normalized L v"
      using drive_uppercase(2) [OF c] by (simp add: drive_normalized_def segs' split: option.splits)
    then show ?thesis
      using canonicalI [OF assms(1) keeps_origin_scheme [OF kept w(1)] _ nonull] common w(3) kept
        keeps_origin_common [OF kept] by (simp add: keeps_origin_def)
  qed
  then show ?thesis
    using canonical_constructed [OF assms(1)] by blast
qed

text \<open>
  On a POSIX host, an absolute path whose first component looks like a drive letter, such as
  \<^verbatim>\<open>/c:/notes\<close>, becomes a path URI that no longer converts back to a host path: its convention is inferred
  to be Windows. The comment of the conversion says that it should succeed for every URI that was
  created from an absolute path of the host.
\<close>

theorem drive_like_path_not_recovered:
  assumes laws: "url_laws L enc" and u: "url_from_file_path L p = Some u" "url_scheme L u = ''file''"
    "url_host L u = None" "validate_common_known_uri L u = Ok ()"
    and segs: "nonempty_segments L u = [d, COLON] # ss" "is_ascii_alphabetic d"
    "\<forall>s \<in> set ss. CHR 0x00 \<notin> set (pct_decode s)"
  shows "\<exists>v e. path_uri_from_abs_path L p = Ok v \<and> path_uri_to_abs_path L h v = Err e"
proof -
  define v where "v = with_normalized_windows_drive_letter L u"
  have v: "keeps_origin L u v \<and> (\<exists>x. is_ascii_alphabetic x \<and> nonempty_segments L v = [x, COLON] # ss)"
  proof (cases "drive_normalized L u")
    case True
    then show ?thesis
      using normalized_drive_id [OF laws u(2)] segs by (simp add: v_def keeps_origin_def)
  next
    case False
    then show ?thesis
      using normalized_drive [OF laws u(2) False] segs drive_uppercase(1) unfolding v_def by (metis list.inject)
  qed
  then obtain x where x: "keeps_origin L u v" "is_ascii_alphabetic x" "nonempty_segments L v = [x, COLON] # ss"
    by blast
  have "CHR 0x00 \<noteq> d"
    using segs(2) by (auto simp: is_ascii_alphabetic_def ascii_lower_def)
  then have "validate_file_url L u = Ok ()"
    using u(4) null_in_path_iff [OF laws u(2)] segs by (simp add: validate_file_url_def)
  then have from_abs: "path_uri_from_abs_path L p = Ok v"
    using u by (simp add: path_uri_from_abs_path_def ok_or_panic_def path_uri_of_url_def
        without_localhost_authority_def v_def)
  have "decode_bad_path_uri L v = None"
    using opaque_first_segment(2) [OF laws keeps_origin_scheme [OF x(1) u(2)]] u(4)
      keeps_origin_common [OF x(1)] x(3) by (cases "decode_bad_path_uri L v") auto
  then have "infer_path_convention L v = Some Windows"
    using x u(3) by (simp add: infer_path_convention_def keeps_origin_def is_windows_drive_uri_segment_def)
  then have "path_uri_to_abs_path L h v = Err (InvalidFileUriPath (url_str L v))"
    by (simp add: path_uri_to_abs_path_def native_convention_def)
  with from_abs show ?thesis by blast
qed

section \<open>An instance\<close>

text \<open>
  A small URL library that has the documented behaviour: a URL is a host and the text of its path after
  the first slash.
\<close>

type_synonym small_url = "string option \<times> string"

definition hex_digits :: string where
  "hex_digits = ''0123456789ABCDEF''"

definition unreserved :: "char \<Rightarrow> bool" where
  "unreserved c \<longleftrightarrow>
     c \<in> set ''abcdefghijklmnopqrstuvwxyzABCDEFGHIJKLMNOPQRSTUVWXYZ0123456789-_.:''"

definition small_enc :: "string \<Rightarrow> string" where
  "small_enc s = concat (map (\<lambda>c. if unreserved c then [c]
     else [CHR ''%'', hex_digits ! (byte_of c div 16), hex_digits ! (byte_of c mod 16)]) s)"

definition small_host :: "small_url \<Rightarrow> string option" where
  "small_host u = (case fst u of Some h \<Rightarrow> if h = [] \<or> SLASH \<in> set h then None else Some h | None \<Rightarrow> None)"

definition with_segments :: "small_url \<Rightarrow> string list \<Rightarrow> small_url" where
  "with_segments u segs = (fst u, join [SLASH] segs)"

definition small_segments :: "small_url \<Rightarrow> string list" where
  "small_segments u = split_on SLASH (snd u)"

definition small_push :: "small_url \<Rightarrow> string \<Rightarrow> small_url" where
  "small_push u s = with_segments u (if small_segments u = [[]] then [small_enc s] else small_segments u @ [small_enc s])"

definition small_lib :: "small_url url_lib" where
  "small_lib = \<lparr>
     url_parse = (\<lambda>s. case strip_prefix ''file:///'' s of Some p \<Rightarrow> Ok (None, p) | None \<Rightarrow> Err ''relative URL without a base''),
     url_from_file_path = (\<lambda>p. case strip_prefix [SLASH] p of
        Some t \<Rightarrow> Some (None, join [SLASH] (map small_enc (split_on SLASH t))) | None \<Rightarrow> None),
     url_to_file_path = (\<lambda>u. if small_host u = None then Some (SLASH # pct_decode (snd u)) else None),
     url_scheme = (\<lambda>u. ''file''), url_username = (\<lambda>u. []), url_password = (\<lambda>u. None), url_port = (\<lambda>u. None),
     url_query = (\<lambda>u. None), url_fragment = (\<lambda>u. None), url_host = small_host,
     url_str = (\<lambda>u. ''file://'' @ (case small_host u of Some h \<Rightarrow> h | None \<Rightarrow> []) @ SLASH # snd u),
     url_path = (\<lambda>u. SLASH # snd u), url_segments = small_segments,
     url_set_host = (\<lambda>u h. Some (h, snd u)), url_set_path = (\<lambda>u p. (fst u, tl p)),
     seg_clear = (\<lambda>u. (fst u, [])),
     seg_pop_if_empty = (\<lambda>u. with_segments u
        (if 1 < length (small_segments u) \<and> last (small_segments u) = [] then butlast (small_segments u)
         else small_segments u)),
     seg_pop = (\<lambda>u. with_segments u
        (if 1 < length (small_segments u) then butlast (small_segments u) else [[]])),
     seg_push = small_push,
     percent_decode = pct_decode,
     url_decode = (\<lambda>s. if valid_utf8 (pct_decode s) then Some (pct_decode s) else None),
     base64_encode = (\<lambda>s. s), base64_decode = Some\<rparr>"

lemma hex_digits_value: "n < 16 \<Longrightarrow> hex_value (hex_digits ! n) = Some n \<and> hex_digits ! n \<noteq> SLASH"
proof -
  have "list_all (\<lambda>n. hex_value (hex_digits ! n) = Some n \<and> hex_digits ! n \<noteq> SLASH) [0..<16]"
    by code_simp
  then show "n < 16 \<Longrightarrow> hex_value (hex_digits ! n) = Some n \<and> hex_digits ! n \<noteq> SLASH"
    by (simp add: list_all_iff)
qed

lemma small_enc_decode: "pct_decode (small_enc s) = s" "SLASH \<notin> set (small_enc s)"
proof -
  have byte: "byte_of c div 16 < 16" "byte_of c mod 16 < 16" "char_of (byte_of c) = c" for c
    using nat_of_char_less_256 [of c] by (simp_all add: byte_of_def less_mult_imp_div_less)
  have unres: "unreserved c \<Longrightarrow> c \<noteq> CHR ''%'' \<and> c \<noteq> SLASH" for c
    by (auto simp: unreserved_def)
  show "pct_decode (small_enc s) = s"
  proof (induction s)
    case (Cons c s)
    then show ?case
      using hex_digits_value byte [of c] unres [of c]
      by (auto simp: small_enc_def pct_decode_Cons div_mult_mod_eq mult.commute)
  qed (simp add: small_enc_def)
  have "hex_digits ! (byte_of c div 16) \<noteq> SLASH \<and> hex_digits ! (byte_of c mod 16) \<noteq> SLASH" for c
    using hex_digits_value byte [of c] by blast
  then have "SLASH \<notin> set (small_enc [c])" for c
    using unres [of c] by (simp add: small_enc_def) metis
  then show "SLASH \<notin> set (small_enc s)"
    by (induction s) (auto simp: small_enc_def)
qed

lemma small_segments_with:
  assumes "segs \<noteq> []" and "\<forall>s \<in> set segs. SLASH \<notin> set s"
  shows "small_segments (with_segments u segs) = segs"
  using assms by (simp add: small_segments_def with_segments_def split_on_join)

lemma small_segments_facts: "small_segments u \<noteq> []" "\<forall>s \<in> set (small_segments u). SLASH \<notin> set s"
  "snd u = join [SLASH] (small_segments u)"
  using split_on_pieces by (fastforce simp: small_segments_def join_split_on)+

lemma small_lib_sel:
  "url_segments small_lib = small_segments" "url_path small_lib u = SLASH # snd u" "seg_push small_lib = small_push"
  "seg_pop_if_empty small_lib u = with_segments u
     (if 1 < length (small_segments u) \<and> last (small_segments u) = [] then butlast (small_segments u)
      else small_segments u)"
  "seg_pop small_lib u = with_segments u
     (if 1 < length (small_segments u) then butlast (small_segments u) else [[]])"
  by (simp_all add: small_lib_def)

lemma small_keeps_origin: "fst v = fst u \<Longrightarrow> keeps_origin small_lib u v"
  by (simp add: keeps_origin_def small_lib_def small_host_def)

lemma small_laws: "url_laws small_lib small_enc"
proof -
  have "encoding_laws small_lib small_enc"
    using small_enc_decode
    by (auto simp: encoding_laws_def small_lib_def) (metis pct_decode.simps(2) plain_segment_def insertI1)
  moreover have "segment_laws small_lib small_enc u" for u
  proof -
    have edits: "small_segments (with_segments u segs) = segs" "keeps_origin small_lib u (with_segments u segs)"
      if "segs \<noteq> []" "\<forall>s \<in> set segs. SLASH \<notin> set s" for segs
      using small_segments_with [OF that] by (auto simp: with_segments_def intro: small_keeps_origin)
    note facts = small_segments_facts [of u]
    have butl: "\<forall>s \<in> set (butlast (small_segments u)). SLASH \<notin> set s"
      using facts(2) by (auto dest: in_set_butlastD)
    show ?thesis
      using facts butl edits [of "[[]]"] edits [of "small_segments u"] edits [of "butlast (small_segments u)"]
        edits [of "[small_enc s]" for s] edits [of "small_segments u @ [small_enc s]" for s] small_enc_decode(2)
      by (auto simp: segment_laws_def Let_def small_lib_sel small_push_def neq_Nil_conv)
  qed
  moreover have "text_laws small_lib u" for u
    by (auto simp: text_laws_def small_lib_def small_host_def split: option.splits if_splits)
  moreover have "rewrite_laws small_lib u" for u
  proof -
    have slash: "\<not> is_ascii_alphabetic SLASH"
      by code_simp
    have "SLASH # tl (a @ d # b) = a @ d # b" if "SLASH # snd u = a @ c # b" "is_ascii_alphabetic c" for a b c d
      using that slash by (cases a) auto
    then show ?thesis
      by (auto simp: rewrite_laws_def small_lib_def small_host_def small_segments_def Let_def keeps_origin_def
          validate_common_known_uri_def)
  qed
  ultimately show ?thesis
    by (simp add: url_laws_def)
qed

theorem ancestors_terminate_witness:
  "\<exists>us. path_uri_ancestors small_lib (None, ''a//b/'') = Some us \<and> us \<noteq> [] \<and> hd us = (None, ''a//b/'') \<and>
    path_uri_parent small_lib (last us) = None"
  using ancestors_terminate [OF small_laws, of "(None, ''a//b/'')"] by (auto simp: small_lib_def)


theorem join_keeps_drive_or_share_witness:
  "\<exists>v. path_uri_join small_lib (Some ''server'', ''share/dir'') (''../../../x'') = Ok v \<and>
    url_host small_lib v = Some ''server'' \<and> hd (nonempty_segments small_lib v) = ''share''"
proof -
  have "canonical small_lib (Some ''server'', ''share/dir'') \<and>
    decode_bad_path_uri small_lib (Some ''server'', ''share/dir'') = None \<and>
    infer_path_convention small_lib (Some ''server'', ''share/dir'') = Some Windows \<and>
    nonempty_segments small_lib (Some ''server'', ''share/dir'') = [''share'', ''dir''] \<and>
    url_host small_lib (Some ''server'', ''share/dir'') = Some ''server'' \<and>
    editable ''../../../x'' \<and> \<not> rooted Windows ''../../../x'' \<and>
    strip_same_drive small_lib (Some ''server'', ''share/dir'') Windows ''../../../x'' = Ok ''../../../x''"
    by code_simp
  then show ?thesis
    using join_keeps_drive_or_share [OF small_laws, of "(Some ''server'', ''share/dir'')" "''../../../x''"] by auto
qed

theorem constructed_uri_canonical_witness:
  "path_uri_of_url small_lib (Some ''localhost'', ''c:/a'') = Ok (None, ''C:/a'') \<and>
   canonical small_lib (None, ''C:/a'')"
proof -
  have "path_uri_of_url small_lib (Some ''localhost'', ''c:/a'') = Ok (None, ''C:/a'')"
    by code_simp
  then show ?thesis
    using constructed_uri_canonical [OF small_laws] by blast
qed

theorem drive_like_path_not_recovered_witness:
  "\<exists>v e. path_uri_from_abs_path small_lib ''/c:/notes'' = Ok v \<and>
    path_uri_to_abs_path small_lib \<lparr>home_dir = None, current_dir = None, getcwd_error = []\<rparr> v = Err e"
proof -
  have "url_from_file_path small_lib ''/c:/notes'' = Some (None, ''c:/notes'') \<and>
    url_scheme small_lib (None, ''c:/notes'') = ''file'' \<and> url_host small_lib (None, ''c:/notes'') = None \<and>
    validate_common_known_uri small_lib (None, ''c:/notes'') = Ok () \<and>
    nonempty_segments small_lib (None, ''c:/notes'') = [''c:'', ''notes''] \<and>
    is_ascii_alphabetic CHR ''c'' \<and> list_all (\<lambda>s. CHR 0x00 \<notin> set (pct_decode s)) [''notes'']"
    by code_simp
  then show ?thesis
    using drive_like_path_not_recovered [OF small_laws, of "''/c:/notes''" "(None, ''c:/notes'')"] by auto
qed

end
