(* ===== verification/Path_Render.thy ===== *)
theory Path_Render
  imports Path_Join
begin

text \<open>
  Path URIs as native path text, and legacy path strings as path URIs
  (\<^verbatim>\<open>utils/path-uri/src/api_path_string.rs\<close>).
\<close>

section \<open>Definitions\<close>

subsection \<open>Lossy decoding\<close>

text \<open>U+FFFD in UTF-8.\<close>

definition replacement_character :: string where
  "replacement_character = [CHR 0xEF, CHR 0xBF, CHR 0xBD]"

text \<open>Whether \<^term>\<open>b\<close> can follow the lead byte \<^term>\<open>a\<close> of a sequence of three or four bytes.\<close>

definition second_byte_ok :: "char \<Rightarrow> char \<Rightarrow> bool" where
  "second_byte_ok a b \<longleftrightarrow>
     continuation b \<and> (byte_of a = 224 \<longrightarrow> 160 \<le> byte_of b) \<and> (byte_of a = 237 \<longrightarrow> byte_of b < 160) \<and>
     (byte_of a = 240 \<longrightarrow> 144 \<le> byte_of b) \<and> (byte_of a = 244 \<longrightarrow> byte_of b < 144)"

text \<open>
  \<^verbatim>\<open>String::from_utf8_lossy\<close>: a maximal beginning of a sequence that is not completed becomes one
  replacement character.
\<close>

fun from_utf8_lossy :: "string \<Rightarrow> string" where
  "from_utf8_lossy [] = []"
| "from_utf8_lossy (a # s) =
     (if byte_of a < 128 then a # from_utf8_lossy s
      else if byte_of a < 194 \<or> 244 < byte_of a then replacement_character @ from_utf8_lossy s
      else if byte_of a < 224 then
        (case s of
           b # s' \<Rightarrow>
             if continuation b then a # b # from_utf8_lossy (drop 1 s)
             else replacement_character @ from_utf8_lossy s
         | [] \<Rightarrow> replacement_character)
      else case s of
          [] \<Rightarrow> replacement_character
        | b # s1 \<Rightarrow>
            if \<not> second_byte_ok a b then replacement_character @ from_utf8_lossy s
            else (case s1 of
                [] \<Rightarrow> replacement_character
              | c # s2 \<Rightarrow>
                  if \<not> continuation c then replacement_character @ from_utf8_lossy (drop 1 s)
                  else if byte_of a < 240 then a # b # c # from_utf8_lossy (drop 2 s)
                  else (case s2 of
                      [] \<Rightarrow> replacement_character
                    | d # s3 \<Rightarrow>
                        if \<not> continuation d then replacement_character @ from_utf8_lossy (drop 2 s)
                        else a # b # c # d # from_utf8_lossy (drop 3 s))))"

definition utf8_of_code_point :: "nat \<Rightarrow> string" where
  "utf8_of_code_point n =
     (if n < 128 then [char_of n]
      else if n < 2048 then [char_of (192 + n div 64), char_of (128 + n mod 64)]
      else if n < 65536 then
        [char_of (224 + n div 4096), char_of (128 + n div 64 mod 64), char_of (128 + n mod 64)]
      else [char_of (240 + n div 262144), char_of (128 + n div 4096 mod 64), char_of (128 + n div 64 mod 64),
            char_of (128 + n mod 64)])"

fun wide_units :: "string \<Rightarrow> nat list" where
  "wide_units (a # b # s) = (byte_of a + 256 * byte_of b) # wide_units s"
| "wide_units _ = []"

text \<open>\<^verbatim>\<open>String::from_utf16_lossy\<close>: an unpaired surrogate becomes one replacement character.\<close>

fun from_utf16_lossy :: "nat list \<Rightarrow> string" where
  "from_utf16_lossy [] = []"
| "from_utf16_lossy (u # us) =
     (if u < 55296 \<or> 57343 < u then utf8_of_code_point u @ from_utf16_lossy us
      else if 56320 \<le> u then replacement_character @ from_utf16_lossy us
      else case us of
          v # vs \<Rightarrow>
            if 56320 \<le> v \<and> v \<le> 57343
            then utf8_of_code_point (65536 + (u - 55296) * 1024 + (v - 56320)) @ from_utf16_lossy (drop 1 us)
            else replacement_character @ from_utf16_lossy us
        | [] \<Rightarrow> replacement_character)"

subsection \<open>Rendering\<close>

datatype path_string_error =
    OpaqueFallback string
  | IncompatibleConvention string path_convention
  | InvalidNativePath string "path_convention option"

definition wide_separator :: "nat \<Rightarrow> bool" where
  "wide_separator u \<longleftrightarrow> u = byte_of BSLASH \<or> u = byte_of SLASH"

definition wide_drive_root :: "nat list \<Rightarrow> bool" where
  "wide_drive_root us =
     (case us of
        drive # colon # separator # _ \<Rightarrow>
          (65 \<le> drive \<and> drive \<le> 90 \<or> 97 \<le> drive \<and> drive \<le> 122) \<and> colon = byte_of COLON \<and>
          wide_separator separator
      | _ \<Rightarrow> False)"

definition render_windows_opaque_fallback :: "string \<Rightarrow> string option" where
  "render_windows_opaque_fallback path_bytes =
     (if odd (length path_bytes) then None
      else
        let us = wide_units path_bytes;
            unc_root = (case us of a # b # _ \<Rightarrow> wide_separator a \<and> wide_separator b | _ \<Rightarrow> False)
        in if wide_drive_root us \<or> unc_root then Some (from_utf16_lossy us) else None)"

definition render_opaque_fallback ::
  "'u url_lib \<Rightarrow> 'u \<Rightarrow> string \<Rightarrow> path_convention \<Rightarrow> (path_string_error, string) result" where
  "render_opaque_fallback L u path_bytes convention =
     (case (case convention of
              Posix \<Rightarrow> if prefix [SLASH] path_bytes then Some (from_utf8_lossy path_bytes) else None
            | Windows \<Rightarrow> render_windows_opaque_fallback path_bytes) of
        Some text \<Rightarrow> Ok text
      | None \<Rightarrow> Err (OpaqueFallback (url_str L u)))"

definition decode_native_segment :: "'u url_lib \<Rightarrow> string \<Rightarrow> string" where
  "decode_native_segment L segment = from_utf8_lossy (percent_decode L segment)"

definition render_posix_path :: "'u url_lib \<Rightarrow> 'u \<Rightarrow> (path_string_error, string) result" where
  "render_posix_path L u =
     (if url_host L u \<noteq> None then Err (IncompatibleConvention (url_str L u) Posix)
      else Ok (concat (map (\<lambda>s. SLASH # decode_native_segment L s) (url_segments L u))))"

definition render_windows_root :: "'u url_lib \<Rightarrow> 'u \<Rightarrow> string option" where
  "render_windows_root L u =
     (case url_segments L u of
        [] \<Rightarrow> None
      | segment # _ \<Rightarrow>
          (let first = decode_native_segment L segment
           in case url_host L u of
                Some host \<Rightarrow>
                  if first = [] then None else Some ([BSLASH, BSLASH] @ host @ [BSLASH] @ first)
              | None \<Rightarrow> if is_windows_drive_uri_segment first then Some first else None))"

definition render_windows_path :: "'u url_lib \<Rightarrow> 'u \<Rightarrow> (path_string_error, string) result" where
  "render_windows_path L u =
     (case render_windows_root L u of
        None \<Rightarrow> Err (IncompatibleConvention (url_str L u) Windows)
      | Some root \<Rightarrow>
          (let rendered = root @ concat (map (\<lambda>s. BSLASH # decode_native_segment L s) (tl (url_segments L u)))
           in Ok (if length rendered = 2 \<and> rendered ! 1 = COLON then rendered @ [BSLASH] else rendered)))"

definition from_path_uri :: "'u url_lib \<Rightarrow> 'u \<Rightarrow> path_convention \<Rightarrow> (path_string_error, string) result" where
  "from_path_uri L u convention =
     (case decode_bad_path_uri L u of
        Some path_bytes \<Rightarrow> render_opaque_fallback L u path_bytes convention
      | None \<Rightarrow>
          (case convention of Posix \<Rightarrow> render_posix_path L u | Windows \<Rightarrow> render_windows_path L u))"

definition inferred_native_path_string :: "'u url_lib \<Rightarrow> 'u \<Rightarrow> string" where
  "inferred_native_path_string L u =
     (case infer_path_convention L u of
        Some convention \<Rightarrow>
          (case from_path_uri L u convention of Inr text \<Rightarrow> text | Inl _ \<Rightarrow> url_str L u)
      | None \<Rightarrow> url_str L u)"

subsection \<open>Parsing legacy strings\<close>

text \<open>\<^term>\<open>Inl\<close> of the outer result is the panic of the conversions.\<close>

definition to_path_uri ::
  "'u url_lib \<Rightarrow> string \<Rightarrow> path_convention \<Rightarrow> (path_uri_error, (path_string_error, 'u) result) result" where
  "to_path_uri L text convention =
     res_bind (from_absolute_native_path L text convention) (\<lambda>r. Ok (case r of
       Some u \<Rightarrow> Ok u
     | None \<Rightarrow> Err (InvalidNativePath text (Some convention))))"

definition infer_absolute_path_convention :: "string \<Rightarrow> path_convention option" where
  "infer_absolute_path_convention text =
     (if is_windows_drive_absolute_path text \<or> prefix [BSLASH, BSLASH] text then Some Windows
      else if prefix [SLASH] text then Some Posix
      else None)"

definition path_uri_of_legacy ::
  "'u url_lib \<Rightarrow> string \<Rightarrow> (path_uri_error, (path_string_error, 'u) result) result" where
  "path_uri_of_legacy L text =
     (case infer_absolute_path_convention text of
        None \<Rightarrow> Ok (Err (InvalidNativePath text None))
      | Some convention \<Rightarrow> to_path_uri L text convention)"

definition render_for_ui :: "'u url_lib \<Rightarrow> string \<Rightarrow> (path_uri_error, string) result" where
  "render_for_ui L text =
     res_bind (path_uri_of_legacy L text) (\<lambda>r. Ok (case r of
       Inr u \<Rightarrow> inferred_native_path_string L u
     | Inl _ \<Rightarrow> text))"

definition to_inferred_abs_path :: "host \<Rightarrow> string \<Rightarrow> abs_path option" where
  "to_inferred_abs_path h text =
     (case from_absolute_path_checked h text of Inr p \<Rightarrow> Some p | Inl _ \<Rightarrow> None)"

section \<open>Lossy decoding keeps valid text\<close>

lemma from_utf8_lossy_valid: "valid_utf8 s \<Longrightarrow> from_utf8_lossy s = s"
proof (induction s rule: valid_utf8.induct)
  case (3 a b s)
  show ?case
  proof (cases "byte_of a < 128")
    case True
    then show ?thesis
      using 3 by simp
  next
    case not_ascii: False
    show ?thesis
    proof (cases "byte_of a < 224")
      case True
      then show ?thesis
        using 3 not_ascii by simp
    next
      case wide: False
      then obtain c s' where s: "s = c # s'"
        using 3(5) not_ascii by (cases s) auto
      show ?thesis
      proof (cases "byte_of a < 240")
        case True
        have valid: "continuation b" "continuation c" "valid_utf8 s'" "second_byte_ok a b"
          using 3(5) not_ascii wide True by (simp_all add: s second_byte_ok_def)
        then have "from_utf8_lossy s' = s'"
          using 3(3) [OF not_ascii wide s] True by (simp add: s)
        with valid show ?thesis
          using not_ascii wide True by (simp add: s)
      next
        case False
        then obtain d t where t: "s' = d # t"
          using 3(5) not_ascii wide by (cases s') (auto simp: s)
        have valid: "byte_of a \<le> 244" "continuation b" "continuation c" "continuation d" "valid_utf8 t"
          "second_byte_ok a b"
          using 3(5) not_ascii wide False by (simp_all add: s t second_byte_ok_def)
        then have "from_utf8_lossy t = t"
          using 3(4) [OF not_ascii wide s] False t by (simp add: s)
        with valid show ?thesis
          using not_ascii wide False by (simp add: s t)
      qed
    qed
  qed
qed simp_all

section \<open>Native paths round trip\<close>

text \<open>
  What the editor of \<^verbatim>\<open>url\<close> documents for building a path: the root URL parses, clearing leaves the path
  \<^verbatim>\<open>/\<close>, and an empty segment adds a trailing slash.
\<close>

definition building_laws :: "'u url_lib \<Rightarrow> bool" where
  "building_laws L \<longleftrightarrow>
     (\<exists>u0. url_parse L ''file:///'' = Ok u0 \<and> url_scheme L u0 = ''file'' \<and> url_host L u0 = None \<and>
        validate_common_known_uri L u0 = Ok () \<and> keeps_origin L u0 (seg_clear L u0) \<and>
        url_segments L (seg_clear L u0) = [[]]) \<and>
     (\<forall>u. url_scheme L u = ''file'' \<longrightarrow> keeps_origin L u (seg_push L u []) \<and>
        url_segments L (seg_push L u []) = (if url_segments L u = [[]] then [[]] else url_segments L u @ [[]]))"

lemma push_segment:
  assumes "url_laws L enc" and "url_scheme L u = ''file''" and "plain_segment s"
  shows "url_segments L (seg_push L u s) = (if url_segments L u = [[]] then [enc s] else url_segments L u @ [enc s])"
    and "enc s \<noteq> []"
  using url_lawsD(1,4) [OF assms(1,2)] assms(3) by (simp_all add: segment_laws_def encoding_laws_def Let_def)

lemma push_segments:
  assumes "url_laws L enc" and "url_scheme L u = ''file''" and "list_all plain_segment ss" and "ss \<noteq> []"
  shows "keeps_origin L u (foldl (seg_push L) u ss) \<and>
    url_segments L (foldl (seg_push L) u ss) =
      (if url_segments L u = [[]] then map enc ss else url_segments L u @ map enc ss)"
  using assms(2-)
proof (induction ss arbitrary: u)
  case (Cons s ss)
  note push = edit_push(1) [OF assms(1) Cons.prems(1)] push_segment [OF assms(1) Cons.prems(1)]
  have s: "plain_segment s" "list_all plain_segment ss"
    using Cons.prems by auto
  note scheme = keeps_origin_scheme [OF push(1) [OF s(1)] Cons.prems(1)]
  show ?case
  proof (cases "ss = []")
    case True
    then show ?thesis
      using push s by simp
  next
    case False
    have "url_segments L (seg_push L u s) \<noteq> [[]]"
      using push(2,3) [OF s(1)] by (auto simp: append_eq_Cons_conv)
    then show ?thesis
      using Cons.IH [OF scheme s(2) False] push s by (auto intro: keeps_origin_trans)
  qed
qed simp

lemma normalize_segments_kept:
  "normalize_segments anchor acc trailing ss = (kept, tr) \<Longrightarrow>
   set kept \<subseteq> set acc \<union> {s \<in> set ss. real_component s}"
proof (induction ss arbitrary: acc trailing)
  case (Cons s ss)
  then show ?case
    by (fastforce simp: real_component_def split: if_splits dest: in_set_butlastD)
qed simp

text \<open>The segments of a POSIX path after normalisation, with an empty one for a trailing separator.\<close>

definition normal_segments :: "string \<Rightarrow> string list" where
  "normal_segments path =
     (let (kept, trailing) = normalize_segments 0 [] False (split_on SLASH (tl path))
      in if trailing then kept @ [[]] else kept)"

lemma built_segments:
  fixes trailing :: bool
  assumes "url_laws L enc" and "building_laws L" and "url_scheme L u = ''file''" and "url_segments L u = [[]]"
    and "list_all plain_segment kept"
  defines "v \<equiv> foldl (seg_push L) u (if trailing then kept @ [[]] else kept)"
  shows "keeps_origin L u v \<and>
    url_segments L v = (if kept = [] then [[]] else map enc kept @ (if trailing then [[]] else []))"
proof (cases "kept = []")
  case True
  then show ?thesis
    using assms(2-4) by (auto simp: v_def building_laws_def keeps_origin_def)
next
  case False
  let ?w = "foldl (seg_push L) u kept"
  have w: "keeps_origin L u ?w" "url_segments L ?w = map enc kept"
    using push_segments [OF assms(1,3,5) False] assms(4) by auto
  have scheme: "url_scheme L ?w = ''file''"
    using w(1) assms(3) by (rule keeps_origin_scheme)
  have "map enc kept \<noteq> [[]]"
    using push_segment(2) [OF assms(1,3)] assms(5) by (auto simp: list_all_iff map_eq_Cons_conv)
  then show ?thesis
    using assms(2) w scheme False by (auto simp: v_def building_laws_def intro: keeps_origin_trans)
qed

lemma posix_text_uri:
  assumes "url_laws L enc" and "building_laws L" and path: "path = SLASH # rel" "editable rel"
    and ok: "list_all (\<lambda>c. valid_utf8 c \<and> \<not> is_windows_drive_uri_segment c) (path_components Posix rel)"
    and kept: "normalize_segments 0 [] False (split_on SLASH rel) = (kept, trailing)"
  obtains v where "to_path_uri L path Posix = Ok (Ok v)" and "canonical L v" and "decode_bad_path_uri L v = None"
    and "infer_path_convention L v = Some Posix" and "url_host L v = None" and "percent_decode L = pct_decode"
    and "\<And>c. c \<in> set kept \<Longrightarrow> pct_decode (enc c) = c \<and> valid_utf8 c"
    and "url_segments L v = (if kept = [] then [[]] else map enc kept @ (if trailing then [[]] else []))"
proof -
  obtain u0 where u0: "url_parse L ''file:///'' = Ok u0" "url_scheme L u0 = ''file''" "url_host L u0 = None"
    "validate_common_known_uri L u0 = Ok ()" "keeps_origin L u0 (seg_clear L u0)"
    "url_segments L (seg_clear L u0) = [[]]"
    using assms(2) by (auto simp: building_laws_def)
  define v where "v = foldl (seg_push L) (seg_clear L u0) (if trailing then kept @ [[]] else kept)"
  have comps: "c \<in> set (path_components Posix rel)" "real_component c" if "c \<in> set kept" for c
    using normalize_segments_kept [OF kept] that by (auto simp: path_components_def)
  have plain: "list_all plain_segment kept"
    using editable_components(1) [OF path(2)] comps by (auto simp: list_all_iff)
  have v: "keeps_origin L u0 v"
    "url_segments L v = (if kept = [] then [[]] else map enc kept @ (if trailing then [[]] else []))"
    using built_segments [OF assms(1,2) keeps_origin_scheme [OF u0(5,2)] u0(6) plain, of trailing, folded v_def] u0(5)
    by (auto intro: keeps_origin_trans)
  have scheme: "url_scheme L v = ''file''" and host: "url_host L v = None"
    and common: "validate_common_known_uri L v = Ok ()"
    using v(1) u0 keeps_origin_common [OF v(1)] by (auto simp: keeps_origin_def)
  have enc: "pct_decode (enc c) = c" "CHR 0x00 \<notin> set (pct_decode (enc c))" "enc c \<noteq> []"
    if "c \<in> set kept" for c
    using enc_no_null [OF assms(1) path(2) scheme comps [OF that]] by auto
  have segs: "nonempty_segments L v = map enc kept"
    using v(2) enc(3) by (auto simp: nonempty_segments_def intro!: filter_True)
  have not_drive: "\<not> is_windows_drive_uri_segment (enc c)" if "c \<in> set kept" for c
    using enc(1) [OF that] drive_segment_decoded [of "enc c"] comps(1) [OF that] ok by (auto simp: list_all_iff)
  have nonull: "\<forall>s \<in> set (nonempty_segments L v). CHR 0x00 \<notin> set (pct_decode s)"
    using enc(2) by (simp add: segs)
  have "drive_normalized L v"
    using not_drive by (auto simp: drive_normalized_def segs split: option.splits list.splits)
  then have built: "canonical L v" "path_uri_of_url L v = Ok v" "decode_bad_path_uri L v = None"
    using canonicalI [OF assms(1) scheme common nonull] host by auto
  have "infer_path_convention L v = Some Posix"
    using not_drive by (auto simp: infer_path_convention_def built host segs split: list.splits)
  moreover have "to_path_uri L path Posix = Ok (Ok v)"
    using u0(1) built(2) kept path
    by (simp add: to_path_uri_def from_absolute_native_path_def parse_posix_path_def strip_prefix_def
        path_uri_from_segments_def anchor_depth_def v_def ok_or_panic_def editable_def)
  ultimately show thesis
    using that [of v] built host v(2) enc(1) comps ok url_lawsD(4) [OF assms(1) scheme]
    by (auto simp: encoding_laws_def list_all_iff)
qed

lemma concat_separated:
  "xs \<noteq> [] \<Longrightarrow> concat (map (\<lambda>s. SLASH # f s) xs) = SLASH # join [SLASH] (map f xs)"
proof (induction xs)
  case (Cons x xs)
  then show ?case
    by (cases xs) auto
qed simp

text \<open>
  C32: A POSIX path text is normalised but otherwise kept by the conversion to a path URI and back: the
  URI renders as the text without its empty and \<^verbatim>\<open>.\<close> components, with \<^verbatim>\<open>..\<close> resolved at the root, and with
  its trailing separator. The text has no control characters that the URL editor drops and no
  component that looks like a Windows drive.
\<close>

theorem posix_path_text_roundtrip:
  assumes "url_laws L enc" and "building_laws L" and "prefix [SLASH] path" and "editable path"
    and "list_all (\<lambda>c. valid_utf8 c \<and> \<not> is_windows_drive_uri_segment c) (path_components Posix (tl path))"
  shows "\<exists>u. to_path_uri L path Posix = Ok (Ok u) \<and> canonical L u \<and>
    inferred_native_path_string L u = SLASH # join [SLASH] (normal_segments path)"
proof -
  obtain rel where rel: "path = SLASH # rel" "editable rel"
    using assms(3,4) by (auto simp: prefix_def editable_def)
  obtain kept trailing where kept: "normalize_segments 0 [] False (split_on SLASH rel) = (kept, trailing)"
    by (cases "normalize_segments 0 [] False (split_on SLASH rel)")
  obtain v where v: "to_path_uri L path Posix = Ok (Ok v)" "canonical L v" "decode_bad_path_uri L v = None"
    "infer_path_convention L v = Some Posix" "url_host L v = None" "percent_decode L = pct_decode"
    "\<And>c. c \<in> set kept \<Longrightarrow> pct_decode (enc c) = c \<and> valid_utf8 c"
    "url_segments L v = (if kept = [] then [[]] else map enc kept @ (if trailing then [[]] else []))"
    using posix_text_uri [OF assms(1,2) rel _ kept] assms(5) rel by auto
  have "decode_native_segment L (enc c) = c" if "c \<in> set kept" for c
    using v(7) [OF that] by (simp add: decode_native_segment_def v(6) from_utf8_lossy_valid)
  then have "map (decode_native_segment L) (url_segments L v) =
      (if kept = [] then [[]] else kept @ (if trailing then [[]] else []))"
    by (auto simp: v(6,8) decode_native_segment_def intro!: map_idI)
  then have "join [SLASH] (map (decode_native_segment L) (url_segments L v)) = join [SLASH] (normal_segments path)"
    by (auto simp: normal_segments_def rel kept)
  moreover have "url_segments L v \<noteq> []"
    using v(8) by simp
  ultimately have "inferred_native_path_string L v = SLASH # join [SLASH] (normal_segments path)"
    using concat_separated [of "url_segments L v" "decode_native_segment L"]
    by (simp add: inferred_native_path_string_def from_path_uri_def render_posix_path_def v(3-5))
  then show ?thesis
    using v(1,2) by blast
qed

lemma small_building: "building_laws small_lib"
proof -
  have "url_parse small_lib ''file:///'' = Ok (None, []) \<and> url_host small_lib (None, []) = None \<and>
    validate_common_known_uri small_lib (None, []) = Ok () \<and> seg_clear small_lib (None, []) = (None, []) \<and>
    url_segments small_lib (None, []) = [[]]"
    by code_simp
  moreover have "small_segments (small_push u []) = (if small_segments u = [[]] then [[]] else small_segments u @ [[]])"
    for u
  proof -
    have "small_enc [] = []"
      by (simp add: small_enc_def)
    then show ?thesis
      using small_segments_with small_segments_facts [of u] by (simp add: small_push_def)
  qed
  moreover have "keeps_origin small_lib u (small_push u [])" for u
    by (rule small_keeps_origin) (simp add: small_push_def with_segments_def)
  ultimately show ?thesis
    unfolding building_laws_def small_lib_sel
    by (intro conjI exI [of _ "(None, [])"] allI impI) (simp_all add: small_keeps_origin small_lib_sel, simp add: small_lib_def)
qed

theorem posix_path_text_roundtrip_witness:
  "\<exists>u. to_path_uri small_lib ''/a/./b//../c d/'' Posix = Ok (Ok u) \<and> canonical small_lib u \<and>
    inferred_native_path_string small_lib u = ''/a/c d/''"
proof -
  have "prefix [SLASH] ''/a/./b//../c d/'' \<and> editable ''/a/./b//../c d/'' \<and>
    list_all (\<lambda>c. valid_utf8 c \<and> \<not> is_windows_drive_uri_segment c) (path_components Posix (tl ''/a/./b//../c d/'')) \<and>
    SLASH # join [SLASH] (normal_segments ''/a/./b//../c d/'') = ''/a/c d/''"
    by code_simp
  then show ?thesis
    using posix_path_text_roundtrip [OF small_laws small_building, of "''/a/./b//../c d/''"] by auto
qed

end
