(* ===== verification/Patch_Fs.thy ===== *)
theory Patch_Fs
  imports Patch_Apply Path_Render
begin

text \<open>
  Patches on a file system (\<^verbatim>\<open>apply_patch\<close>, \<^verbatim>\<open>apply_hunks\<close> and \<^verbatim>\<open>apply_hunks_to_files\<close> of \<^verbatim>\<open>apply-patch/src/lib.rs\<close>).
  The executor file system is a parameter: a record of its operations on a state. An operation that
  changes files returns its outcome and the state after it, whatever the outcome is.
\<close>

section \<open>Definitions\<close>

subsection \<open>The executor file system\<close>

record file_metadata =
  is_directory :: bool
  is_file :: bool
  is_symlink :: bool
  md_size :: nat
  created_at_ms :: int
  modified_at_ms :: int

record ('u, 's) executor_fs =
  read_file_text :: "'u \<Rightarrow> 's \<Rightarrow> (io_error, string) result"
  get_metadata :: "'u \<Rightarrow> 's \<Rightarrow> (io_error, file_metadata) result"
  write_file :: "'u \<Rightarrow> string \<Rightarrow> 's \<Rightarrow> outcome \<times> 's"
  create_directory :: "'u \<Rightarrow> bool \<Rightarrow> 's \<Rightarrow> outcome \<times> 's"
  remove_path :: "'u \<Rightarrow> bool \<Rightarrow> bool \<Rightarrow> 's \<Rightarrow> outcome \<times> 's"

subsection \<open>Deltas and errors\<close>

datatype 'u file_change =
    ChangeAdd string "string option"
  | ChangeDelete string
  | ChangeUpdate "'u option" string "string option" string

record 'u applied_delta =
  delta_changes :: "('u \<times> 'u file_change) list"
  delta_exact :: bool

definition empty_delta :: "'u applied_delta" where
  "empty_delta = \<lparr>delta_changes = [], delta_exact = True\<rparr>"

definition append_delta :: "'u applied_delta \<Rightarrow> 'u applied_delta \<Rightarrow> 'u applied_delta" where
  "append_delta d other =
     \<lparr>delta_changes = delta_changes d @ delta_changes other, delta_exact = (delta_exact d \<and> delta_exact other)\<rparr>"

definition push_change :: "'u \<Rightarrow> 'u file_change \<Rightarrow> 'u applied_delta \<Rightarrow> 'u applied_delta" where
  "push_change u c d = d\<lparr>delta_changes := delta_changes d @ [(u, c)]\<rparr>"

definition set_exact :: "bool \<Rightarrow> 'u applied_delta \<Rightarrow> 'u applied_delta" where
  "set_exact e d = d\<lparr>delta_exact := e\<rparr>"

text \<open>
  The \<^verbatim>\<open>anyhow\<close> errors of the application: an input or output error with its context, an error of the
  chunks, an error of a path. A panic ends the application too.
\<close>

datatype hunk_failure =
    NoFilesModified
  | IoFailure string io_error
  | ChunkFailure apply_patch_error
  | UriFailure path_uri_error
  | HunkPanic

definition uri_failure :: "path_uri_error \<Rightarrow> hunk_failure" where
  "uri_failure e = (if e = UriPanic then HunkPanic else UriFailure e)"

subsection \<open>Steps\<close>

definition resolve_path :: "'u url_lib \<Rightarrow> 'u \<Rightarrow> hunk \<Rightarrow> (path_uri_error, 'u) result" where
  "resolve_path L cwd h =
     path_uri_join L cwd (case h of UpdateFile path _ _ \<Rightarrow> path | _ \<Rightarrow> hunk_path h)"

definition ensure_not_directory :: "('u, 's) executor_fs \<Rightarrow> 'u \<Rightarrow> 's \<Rightarrow> outcome" where
  "ensure_not_directory fs u s =
     res_bind (get_metadata fs u s) (\<lambda>m.
       if is_directory m then Err (OtherIo ''path is a directory'') else Ok ())"

definition remove_failure_was_side_effect_free ::
  "('u, 's) executor_fs \<Rightarrow> 'u \<Rightarrow> string option \<Rightarrow> 's \<Rightarrow> bool" where
  "remove_failure_was_side_effect_free fs u expected_content s =
     (case expected_content of
        Some content \<Rightarrow> read_file_text fs u s = Ok content
      | None \<Rightarrow> False)"

definition note_existing_path_delta_support :: "('u, 's) executor_fs \<Rightarrow> 'u \<Rightarrow> 's \<Rightarrow> bool \<Rightarrow> bool" where
  "note_existing_path_delta_support fs u s exact =
     (case get_metadata fs u s of
        Inr m \<Rightarrow> if is_file m \<and> \<not> is_symlink m then exact else False
      | Inl e \<Rightarrow> if e = NotFound then exact else False)"

definition read_optional_file_text_for_delta ::
  "('u, 's) executor_fs \<Rightarrow> 'u \<Rightarrow> 's \<Rightarrow> bool \<Rightarrow> string option \<times> bool" where
  "read_optional_file_text_for_delta fs u s exact =
     (let noted = note_existing_path_delta_support fs u s exact
      in case read_file_text fs u s of
           Inr content \<Rightarrow> (Some content, noted)
         | Inl e \<Rightarrow> (None, if e = NotFound then noted else False))"

definition io_context :: "'u url_lib \<Rightarrow> string \<Rightarrow> 'u \<Rightarrow> outcome \<times> 's \<Rightarrow> (hunk_failure, unit) result \<times> 's" where
  "io_context L what u r =
     (case r of
        (Inl e, s) \<Rightarrow> (Err (IoFailure (what @ '' '' @ inferred_native_path_string L u) e), s)
      | (Inr _, s) \<Rightarrow> (Ok (), s))"

definition write_file_with_missing_parent_retry ::
  "'u url_lib \<Rightarrow> ('u, 's) executor_fs \<Rightarrow> 'u \<Rightarrow> string \<Rightarrow> 's \<Rightarrow> (hunk_failure, unit) result \<times> 's" where
  "write_file_with_missing_parent_retry L fs u contents s =
     (case write_file fs u contents s of
        (Inl NotFound, s1) \<Rightarrow>
          (case (case path_uri_parent L u of
                   Some parent \<Rightarrow>
                     io_context L ''Failed to create parent directories for'' u (create_directory fs parent True s1)
                 | None \<Rightarrow> (Ok (), s1)) of
             (Inl e, s2) \<Rightarrow> (Err e, s2)
           | (Inr _, s2) \<Rightarrow> io_context L ''Failed to write file'' u (write_file fs u contents s2))
      | r \<Rightarrow> io_context L ''Failed to write file'' u r)"

definition derive_new_contents_from_chunks ::
  "'u url_lib \<Rightarrow> ('u, 's) executor_fs \<Rightarrow> 'u \<Rightarrow> update_file_chunk list \<Rightarrow> 's \<Rightarrow>
   (hunk_failure, string \<times> string) result" where
  "derive_new_contents_from_chunks L fs u chunks s =
     (let path_text = inferred_native_path_string L u
      in case read_file_text fs u s of
           Inl e \<Rightarrow> Err (ChunkFailure (PatchIoError (''Failed to read file to update '' @ path_text) e))
         | Inr original_contents \<Rightarrow>
             (case derive_new_contents original_contents path_text chunks of
                None \<Rightarrow> Err HunkPanic
              | Some (Inl e) \<Rightarrow> Err (ChunkFailure e)
              | Some (Inr new_contents) \<Rightarrow> Ok (original_contents, new_contents)))"

type_synonym ('u, 's) hunk_outcome = "(hunk_failure, unit) result \<times> 'u applied_delta \<times> 's"

definition apply_add ::
  "'u url_lib \<Rightarrow> ('u, 's) executor_fs \<Rightarrow> 'u \<Rightarrow> string \<Rightarrow> 'u applied_delta \<Rightarrow> 's \<Rightarrow> ('u, 's) hunk_outcome" where
  "apply_add L fs u contents d s =
     (let (overwritten, exact) = read_optional_file_text_for_delta fs u s (delta_exact d);
          d1 = set_exact exact d
      in case write_file_with_missing_parent_retry L fs u contents s of
           (Inl e, s1) \<Rightarrow> (Err e, set_exact False d1, s1)
         | (Inr _, s1) \<Rightarrow> (Ok (), push_change u (ChangeAdd contents overwritten) d1, s1))"

text \<open>
  The removal of a file whose contents are known, or \<^term>\<open>None\<close>: first that it is no directory, then the
  removal itself, and on an error whether it left the file as it was.
\<close>

definition remove_checked ::
  "'u url_lib \<Rightarrow> ('u, 's) executor_fs \<Rightarrow> string \<Rightarrow> 'u \<Rightarrow> string option \<Rightarrow> 'u applied_delta \<Rightarrow> 's \<Rightarrow>
   ('u, 's) hunk_outcome" where
  "remove_checked L fs what u content d s =
     (case io_context L what u (ensure_not_directory fs u s, s) of
        (Inl e, _) \<Rightarrow> (Err e, d, s)
      | (Inr _, _) \<Rightarrow>
          (case io_context L what u (remove_path fs u False False s) of
             (Inl e, s1) \<Rightarrow>
               (Err e, set_exact (delta_exact d \<and> remove_failure_was_side_effect_free fs u content s1) d, s1)
           | (Inr _, s1) \<Rightarrow> (Ok (), d, s1)))"

definition apply_delete ::
  "'u url_lib \<Rightarrow> ('u, 's) executor_fs \<Rightarrow> 'u \<Rightarrow> 'u applied_delta \<Rightarrow> 's \<Rightarrow> ('u, 's) hunk_outcome" where
  "apply_delete L fs u d s =
     (let noted = note_existing_path_delta_support fs u s (delta_exact d);
          deleted_content = (case read_file_text fs u s of Inr content \<Rightarrow> Some content | Inl _ \<Rightarrow> None);
          d1 = set_exact (noted \<and> deleted_content \<noteq> None) d
      in case remove_checked L fs ''Failed to delete file'' u deleted_content d1 s of
           (Inl e, d2, s1) \<Rightarrow> (Err e, d2, s1)
         | (Inr _, d2, s1) \<Rightarrow>
             (Ok (), (case deleted_content of Some content \<Rightarrow> push_change u (ChangeDelete content) d2 | None \<Rightarrow> d2), s1))"

definition apply_move ::
  "'u url_lib \<Rightarrow> ('u, 's) executor_fs \<Rightarrow> 'u \<Rightarrow> 'u \<Rightarrow> string \<Rightarrow> string \<Rightarrow> 'u applied_delta \<Rightarrow> 's \<Rightarrow>
   ('u, 's) hunk_outcome" where
  "apply_move L fs u dest original_contents new_contents d s =
     (let (overwritten, exact) = read_optional_file_text_for_delta fs dest s (delta_exact d);
          d1 = set_exact exact d
      in case write_file_with_missing_parent_retry L fs dest new_contents s of
           (Inl e, s1) \<Rightarrow> (Err e, set_exact False d1, s1)
         | (Inr _, s1) \<Rightarrow>
             (case remove_checked L fs ''Failed to remove original'' u (Some original_contents)
                     (push_change dest (ChangeAdd new_contents overwritten) d1) s1 of
                (Inl e, d2, s2) \<Rightarrow> (Err e, d2, s2)
              | (Inr _, d2, s2) \<Rightarrow>
                  (Ok (), push_change u (ChangeUpdate (Some dest) original_contents overwritten new_contents) d1, s2)))"

definition apply_update ::
  "'u url_lib \<Rightarrow> ('u, 's) executor_fs \<Rightarrow> 'u \<Rightarrow> 'u \<Rightarrow> string option \<Rightarrow> update_file_chunk list \<Rightarrow>
   'u applied_delta \<Rightarrow> 's \<Rightarrow> ('u, 's) hunk_outcome" where
  "apply_update L fs cwd u move_path chunks d s =
     (let d1 = set_exact (note_existing_path_delta_support fs u s (delta_exact d)) d
      in case derive_new_contents_from_chunks L fs u chunks s of
           Inl e \<Rightarrow> (Err e, d1, s)
         | Inr (original_contents, new_contents) \<Rightarrow>
             (case move_path of
                Some dest_text \<Rightarrow>
                  (case path_uri_join L cwd dest_text of
                     Inl e \<Rightarrow> (Err (uri_failure e), d1, s)
                   | Inr dest \<Rightarrow> apply_move L fs u dest original_contents new_contents d1 s)
              | None \<Rightarrow>
                  (case io_context L ''Failed to write file'' u (write_file fs u new_contents s) of
                     (Inl e, s1) \<Rightarrow> (Err e, set_exact False d1, s1)
                   | (Inr _, s1) \<Rightarrow>
                       (Ok (), push_change u (ChangeUpdate None original_contents None new_contents) d1, s1))))"

definition apply_hunk ::
  "'u url_lib \<Rightarrow> ('u, 's) executor_fs \<Rightarrow> 'u \<Rightarrow> hunk \<Rightarrow> 'u applied_delta \<Rightarrow> 's \<Rightarrow> ('u, 's) hunk_outcome" where
  "apply_hunk L fs cwd h d s =
     (case resolve_path L cwd h of
        Inl e \<Rightarrow> (Err (uri_failure e), d, s)
      | Inr u \<Rightarrow>
          (case h of
             AddFile _ contents \<Rightarrow> apply_add L fs u contents d s
           | DeleteFile _ \<Rightarrow> apply_delete L fs u d s
           | UpdateFile _ move_path chunks \<Rightarrow> apply_update L fs cwd u move_path chunks d s))"

record affected_paths =
  aff_added :: "string list"
  aff_modified :: "string list"
  aff_deleted :: "string list"

definition add_affected :: "hunk \<Rightarrow> affected_paths \<Rightarrow> affected_paths" where
  "add_affected h a =
     (case h of
        AddFile _ _ \<Rightarrow> a\<lparr>aff_added := aff_added a @ [hunk_path h]\<rparr>
      | DeleteFile _ \<Rightarrow> a\<lparr>aff_deleted := aff_deleted a @ [hunk_path h]\<rparr>
      | UpdateFile _ _ _ \<Rightarrow> a\<lparr>aff_modified := aff_modified a @ [hunk_path h]\<rparr>)"

fun apply_hunk_list ::
  "'u url_lib \<Rightarrow> ('u, 's) executor_fs \<Rightarrow> 'u \<Rightarrow> hunk list \<Rightarrow> affected_paths \<Rightarrow> 'u applied_delta \<Rightarrow> 's \<Rightarrow>
   (hunk_failure, affected_paths) result \<times> 'u applied_delta \<times> 's" where
  "apply_hunk_list L fs cwd [] a d s = (Ok a, d, s)"
| "apply_hunk_list L fs cwd (h # hs) a d s =
     (case apply_hunk L fs cwd h d s of
        (Inl e, d1, s1) \<Rightarrow> (Err e, d1, s1)
      | (Inr _, d1, s1) \<Rightarrow> apply_hunk_list L fs cwd hs (add_affected h a) d1 s1)"

definition apply_hunks_to_files ::
  "'u url_lib \<Rightarrow> ('u, 's) executor_fs \<Rightarrow> 'u \<Rightarrow> hunk list \<Rightarrow> 'u applied_delta \<Rightarrow> 's \<Rightarrow>
   (hunk_failure, affected_paths) result \<times> 'u applied_delta \<times> 's" where
  "apply_hunks_to_files L fs cwd hunks d s =
     (if hunks = [] then (Err NoFilesModified, d, s)
      else apply_hunk_list L fs cwd hunks \<lparr>aff_added = [], aff_modified = [], aff_deleted = []\<rparr> d s)"

subsection \<open>Messages and results\<close>

fun nat_text :: "nat \<Rightarrow> string" where
  "nat_text n = (if n < 10 then [char_of (48 + n)] else nat_text (n div 10) @ [char_of (48 + n mod 10)])"

definition path_uri_error_text :: "path_uri_error \<Rightarrow> string" where
  "path_uri_error_text e =
     (case e of
        InvalidUri m \<Rightarrow> ''invalid URI: '' @ m
      | UnsupportedScheme scheme \<Rightarrow> ''unsupported path URI scheme `'' @ scheme @ ''`''
      | InvalidFileUriPath path \<Rightarrow> squote path @ '' is invalid on '' @ squote ''linux''
      | CredentialsNotAllowed \<Rightarrow> ''credentials are not allowed in path URIs''
      | PortNotAllowed \<Rightarrow> ''ports are not allowed in path URIs''
      | QueryNotAllowed \<Rightarrow> ''query parameters are not allowed in path URIs''
      | FragmentNotAllowed \<Rightarrow> ''fragments are not allowed in path URIs''
      | JoinPathMustBeRelative path \<Rightarrow> ''path `'' @ path @ ''` must be relative when joining a path URI''
      | UriPanic \<Rightarrow> [])"

definition parse_error_text :: "parse_error \<Rightarrow> string" where
  "parse_error_text e =
     (case e of
        InvalidPatchError message \<Rightarrow> ''invalid patch: '' @ message
      | InvalidHunkError message n \<Rightarrow> ''invalid hunk at line '' @ nat_text n @ '', '' @ message)"

definition apply_patch_error_text :: "(io_error \<Rightarrow> string) \<Rightarrow> apply_patch_error \<Rightarrow> string" where
  "apply_patch_error_text io_text e =
     (case e of
        PatchParseError p \<Rightarrow> parse_error_text p
      | PatchIoError ctx source \<Rightarrow> ctx @ '': '' @ io_text source
      | ComputeReplacements message \<Rightarrow> message
      | PathUriError p \<Rightarrow> path_uri_error_text p
      | ImplicitInvocation \<Rightarrow>
          ''patch detected without explicit call to apply_patch. Rerun as ['' @ [CHR 0x22] @ ''apply_patch'' @
          [CHR 0x22] @ '', '' @ [CHR 0x22] @ ''<patch>'' @ [CHR 0x22] @ '']'')"

definition hunk_failure_text :: "(io_error \<Rightarrow> string) \<Rightarrow> hunk_failure \<Rightarrow> string" where
  "hunk_failure_text io_text e =
     (case e of
        NoFilesModified \<Rightarrow> ''No files were modified.''
      | IoFailure ctx source \<Rightarrow> ctx
      | ChunkFailure p \<Rightarrow> apply_patch_error_text io_text p
      | UriFailure p \<Rightarrow> path_uri_error_text p
      | HunkPanic \<Rightarrow> [])"

definition io_patch_error :: "io_error \<Rightarrow> apply_patch_error" where
  "io_patch_error e = PatchIoError ''I/O error'' e"

text \<open>A context keeps the input or output error below it; the others become one of kind \<^verbatim>\<open>Other\<close>.\<close>

definition hunk_failure_error :: "(io_error \<Rightarrow> string) \<Rightarrow> hunk_failure \<Rightarrow> apply_patch_error" where
  "hunk_failure_error io_text e =
     (case e of
        IoFailure ctx source \<Rightarrow> io_patch_error source
      | _ \<Rightarrow> PatchIoError (hunk_failure_text io_text e) (OtherIo (hunk_failure_text io_text e)))"

text \<open>A writer takes a line and may fail.\<close>

type_synonym 'w line_writer = "string \<Rightarrow> 'w \<Rightarrow> outcome \<times> 'w"

fun write_lines :: "'w line_writer \<Rightarrow> string list \<Rightarrow> 'w \<Rightarrow> outcome \<times> 'w" where
  "write_lines wr [] w = (Ok (), w)"
| "write_lines wr (l # ls) w =
     (case wr (l @ [NL]) w of (Inl e, w1) \<Rightarrow> (Err e, w1) | (Inr _, w1) \<Rightarrow> write_lines wr ls w1)"

definition summary_lines :: "affected_paths \<Rightarrow> string list" where
  "summary_lines a =
     ''Success. Updated the following files:'' # map (append ''A '') (aff_added a) @
     map (append ''M '') (aff_modified a) @ map (append ''D '') (aff_deleted a)"

definition print_summary :: "'w line_writer \<Rightarrow> affected_paths \<Rightarrow> 'w \<Rightarrow> outcome \<times> 'w" where
  "print_summary wr a w = write_lines wr (summary_lines a) w"

text \<open>
  What the application returns: the delta, or an error with the delta committed before it, or a panic.
  The writers of standard output and standard error are part of the state.
\<close>

datatype 'u patch_result =
    PatchApplied "'u applied_delta"
  | PatchFailed apply_patch_error "'u applied_delta"
  | PatchPanicked

definition apply_hunks ::
  "'u url_lib \<Rightarrow> ('u, 's) executor_fs \<Rightarrow> (io_error \<Rightarrow> string) \<Rightarrow> 'w line_writer \<Rightarrow> 'w line_writer \<Rightarrow> 'u \<Rightarrow>
   hunk list \<Rightarrow> 's \<Rightarrow> 'w \<Rightarrow> 'u patch_result \<times> 's \<times> 'w" where
  "apply_hunks L fs io_text out err cwd hunks s w =
     (case apply_hunks_to_files L fs cwd hunks empty_delta s of
        (Inr affected, d, s1) \<Rightarrow>
          (case print_summary out affected w of
             (Inl e, w1) \<Rightarrow> (PatchFailed (io_patch_error e) d, s1, w1)
           | (Inr _, w1) \<Rightarrow> (PatchApplied d, s1, w1))
      | (Inl HunkPanic, d, s1) \<Rightarrow> (PatchPanicked, s1, w)
      | (Inl failure, d, s1) \<Rightarrow>
          (case write_lines err [hunk_failure_text io_text failure] w of
             (Inl e, w1) \<Rightarrow> (PatchFailed (io_patch_error e) d, s1, w1)
           | (Inr _, w1) \<Rightarrow> (PatchFailed (hunk_failure_error io_text failure) d, s1, w1)))"

definition invalid_patch_message :: "parse_error \<Rightarrow> string" where
  "invalid_patch_message e =
     (case e of
        InvalidPatchError message \<Rightarrow> ''Invalid patch: '' @ message
      | InvalidHunkError message n \<Rightarrow> ''Invalid patch hunk on line '' @ nat_text n @ '': '' @ message)"

definition apply_patch ::
  "'u url_lib \<Rightarrow> ('u, 's) executor_fs \<Rightarrow> (io_error \<Rightarrow> string) \<Rightarrow> 'w line_writer \<Rightarrow> 'w line_writer \<Rightarrow> 'u \<Rightarrow>
   string \<Rightarrow> 's \<Rightarrow> 'w \<Rightarrow> 'u patch_result \<times> 's \<times> 'w" where
  "apply_patch L fs io_text out err cwd patch s w =
     (case parse_patch patch of
        Inr source \<Rightarrow> apply_hunks L fs io_text out err cwd (args_hunks source) s w
      | Inl e \<Rightarrow>
          (case write_lines err [invalid_patch_message e] w of
             (Inl io, w1) \<Rightarrow> (PatchFailed (io_patch_error io) empty_delta, s, w1)
           | (Inr _, w1) \<Rightarrow> (PatchFailed (PatchParseError e) empty_delta, s, w1)))"

section \<open>What a delta says\<close>

text \<open>
  The files of a state, by path, and what a recorded change says of them: carried out on the files
  before it, and taken back from the files after it.
\<close>

type_synonym 'u files = "'u \<Rightarrow> string option"

fun redo_change :: "'u \<times> 'u file_change \<Rightarrow> 'u files \<Rightarrow> 'u files" where
  "redo_change (u, ChangeAdd content overwritten) m = m(u \<mapsto> content)"
| "redo_change (u, ChangeDelete content) m = m(u := None)"
| "redo_change (u, ChangeUpdate None old overwritten new) m = m(u \<mapsto> new)"
| "redo_change (u, ChangeUpdate (Some dest) old overwritten new) m = m(u := None, dest \<mapsto> new)"

fun undo_change :: "'u \<times> 'u file_change \<Rightarrow> 'u files \<Rightarrow> 'u files" where
  "undo_change (u, ChangeAdd content overwritten) m = m(u := overwritten)"
| "undo_change (u, ChangeDelete content) m = m(u \<mapsto> content)"
| "undo_change (u, ChangeUpdate None old overwritten new) m = m(u \<mapsto> old)"
| "undo_change (u, ChangeUpdate (Some dest) old overwritten new) m = m(dest := overwritten, u \<mapsto> old)"

definition redo :: "'u applied_delta \<Rightarrow> 'u files \<Rightarrow> 'u files" where
  "redo d m = fold redo_change (delta_changes d) m"

definition undo :: "'u applied_delta \<Rightarrow> 'u files \<Rightarrow> 'u files" where
  "undo d m = foldr undo_change (delta_changes d) m"

text \<open>
  What the proofs rely on of a file system: different paths name different files, reads tell the
  truth, a write that succeeds writes its file only, a write that fails because a directory is missing
  and the creation of directories leave the files alone, a removal touches its file only.
\<close>

definition fs_laws :: "('u, 's) executor_fs \<Rightarrow> ('s \<Rightarrow> 'u files) \<Rightarrow> bool" where
  "fs_laws fs files \<longleftrightarrow>
     (\<forall>u s c. read_file_text fs u s = Ok c \<longrightarrow> files s u = Some c) \<and>
     (\<forall>u s. read_file_text fs u s = Err NotFound \<longrightarrow> files s u = None) \<and>
     (\<forall>u c s s'. write_file fs u c s = (Ok (), s') \<longrightarrow> files s' = (files s)(u \<mapsto> c)) \<and>
     (\<forall>u c s s'. write_file fs u c s = (Err NotFound, s') \<longrightarrow> files s' = files s) \<and>
     (\<forall>u b s r s'. create_directory fs u b s = (r, s') \<longrightarrow> files s' = files s) \<and>
     (\<forall>u a b s s'. remove_path fs u a b s = (Ok (), s') \<longrightarrow> files s' = (files s)(u := None)) \<and>
     (\<forall>u a b s e s'. remove_path fs u a b s = (Err e, s') \<longrightarrow> (\<forall>v. v \<noteq> u \<longrightarrow> files s' v = files s v))"

lemma fs_lawsD:
  assumes "fs_laws fs files"
  shows "read_file_text fs u s = Ok c \<Longrightarrow> files s u = Some c"
    and "read_file_text fs u s = Err NotFound \<Longrightarrow> files s u = None"
    and "write_file fs u c s = (Ok (), s') \<Longrightarrow> files s' = (files s)(u \<mapsto> c)"
    and "write_file fs u c s = (Err NotFound, s') \<Longrightarrow> files s' = files s"
    and "create_directory fs u b s = (r, s') \<Longrightarrow> files s' = files s"
    and "remove_path fs u a b s = (Ok (), s') \<Longrightarrow> files s' = (files s)(u := None)"
    and "remove_path fs u a b s = (Err e, s') \<Longrightarrow> v \<noteq> u \<Longrightarrow> files s' v = files s v"
  using assms by (auto simp: fs_laws_def)

text \<open>
  A list of changes records a run from some files to others: each change can be taken back from the
  files it leads to.
\<close>

fun recorded :: "'u files \<Rightarrow> ('u \<times> 'u file_change) list \<Rightarrow> 'u files \<Rightarrow> bool" where
  "recorded m [] m' \<longleftrightarrow> m' = m"
| "recorded m (c # cs) m' \<longleftrightarrow> undo_change c (redo_change c m) = m \<and> recorded (redo_change c m) cs m'"

lemma recorded_append: "recorded m cs m1 \<Longrightarrow> recorded m1 ds m' \<Longrightarrow> recorded m (cs @ ds) m'"
  by (induction cs arbitrary: m) auto

lemma recorded_redo_undo: "recorded m cs m' \<Longrightarrow> fold redo_change cs m = m' \<and> foldr undo_change cs m' = m"
  by (induction cs arbitrary: m) auto

text \<open>A step from one delta and state to the next records what it does to the files.\<close>

definition tracks :: "('s \<Rightarrow> 'u files) \<Rightarrow> 'u applied_delta \<Rightarrow> 's \<Rightarrow> 'u applied_delta \<Rightarrow> 's \<Rightarrow> bool" where
  "tracks files d s d' s' \<longleftrightarrow>
     (delta_exact d' \<longrightarrow> delta_exact d \<and>
        (\<exists>cs. delta_changes d' = delta_changes d @ cs \<and> recorded (files s) cs (files s')))"

lemma tracks_refl: "(delta_exact d' \<Longrightarrow> delta_exact d) \<Longrightarrow> delta_changes d' = delta_changes d \<Longrightarrow>
    (delta_exact d' \<Longrightarrow> files s' = files s) \<Longrightarrow> tracks files d s d' s'"
  by (auto simp: tracks_def)

lemma tracks_trans: "tracks files d s d1 s1 \<Longrightarrow> tracks files d1 s1 d2 s2 \<Longrightarrow> tracks files d s d2 s2"
  by (auto simp: tracks_def intro: recorded_append)

lemma tracks_inexact: "tracks files d s (set_exact False d') s'"
  by (simp add: tracks_def set_exact_def)

lemma tracks_push:
  assumes "delta_exact d1 \<Longrightarrow> delta_exact d" and "delta_changes d1 = delta_changes d"
    and "delta_exact d1 \<Longrightarrow> redo_change (u, c) (files s) = files s' \<and> undo_change (u, c) (files s') = files s"
  shows "tracks files d s (push_change u c d1) s'"
  using assms by (auto simp: tracks_def push_change_def)

section \<open>The steps\<close>

lemma io_context_Ok: "io_context L what u r = (Ok (), s') \<longleftrightarrow> r = (Ok (), s')"
  by (auto simp: io_context_def split: prod.splits sum.splits)

lemma write_retry_Ok:
  assumes laws: "fs_laws fs files" and "write_file_with_missing_parent_retry L fs u contents s = (Inr x, s')"
  shows "files s' = (files s)(u \<mapsto> contents)"
proof -
  obtain r s1 where r: "write_file fs u contents s = (r, s1)"
    by (cases "write_file fs u contents s")
  show ?thesis
  proof (cases "r = Err NotFound")
    case True
    have s1: "files s1 = files s"
      using r True fs_lawsD(4) [OF laws] by blast
    obtain s2 where s2: "files s2 = files s1" "write_file fs u contents s2 = (Ok (), s')"
      using assms(2) r True fs_lawsD(5) [OF laws]
      by (auto simp: write_file_with_missing_parent_retry_def io_context_def
          split: option.splits prod.splits sum.splits) metis+
    then show ?thesis
      using fs_lawsD(3) [OF laws] s1 by metis
  next
    case False
    then have "r = Ok ()" "s1 = s'"
      using assms(2) r
      by (auto simp: write_file_with_missing_parent_retry_def io_context_def
          split: sum.splits io_error.splits)
    then show ?thesis
      using r fs_lawsD(3) [OF laws] by blast
  qed
qed

lemma noted_exact: "note_existing_path_delta_support fs u s exact \<Longrightarrow> exact"
  by (auto simp: note_existing_path_delta_support_def split: sum.splits if_splits)

lemma read_optional_exact:
  assumes "fs_laws fs files" and "read_optional_file_text_for_delta fs u s exact = (content, True)"
  shows "exact" and "files s u = content"
  using assms(2) noted_exact fs_lawsD(1,2) [OF assms(1)]
  by (auto simp: read_optional_file_text_for_delta_def Let_def split: sum.splits if_splits)

lemma remove_checked_cases:
  assumes laws: "fs_laws fs files" and run: "remove_checked L fs what u content d s = (r, d', s')"
  shows "delta_changes d' = delta_changes d" and "delta_exact d' \<Longrightarrow> delta_exact d"
    and "is_ok r \<Longrightarrow> d' = d \<and> files s' = (files s)(u := None)"
    and "\<not> is_ok r \<Longrightarrow> delta_exact d' \<Longrightarrow> (\<And>c. content = Some c \<Longrightarrow> files s u = Some c) \<Longrightarrow> files s' = files s"
proof -
  have "delta_changes d' = delta_changes d \<and> (delta_exact d' \<longrightarrow> delta_exact d) \<and>
    (is_ok r \<longrightarrow> d' = d \<and> files s' = (files s)(u := None)) \<and>
    (\<not> is_ok r \<and> delta_exact d' \<and> (\<forall>c. content = Some c \<longrightarrow> files s u = Some c) \<longrightarrow> files s' = files s)"
  proof (cases "ensure_not_directory fs u s")
    case (Inl e)
    then show ?thesis
      using run by (auto simp: remove_checked_def io_context_def)
  next
    case (Inr x)
    obtain r1 s1 where r1: "remove_path fs u False False s = (r1, s1)"
      by (cases "remove_path fs u False False s")
    show ?thesis
    proof (cases r1)
      case (Inl e)
      have "files s1 = files s" if "content = Some c" "files s u = Some c" "read_file_text fs u s1 = Ok c" for c
        using fs_lawsD(1) [OF laws that(3)] fs_lawsD(7) [OF laws] r1 Inl that(2) by (intro ext) metis
      then show ?thesis
        using run Inr r1 Inl
        by (auto simp: remove_checked_def io_context_def set_exact_def remove_failure_was_side_effect_free_def
            split: option.splits)
    next
      case (Inr y)
      then show ?thesis
        using run \<open>ensure_not_directory fs u s = Inr x\<close> r1 fs_lawsD(6) [OF laws]
        by (auto simp: remove_checked_def io_context_def)
    qed
  qed
  then show "delta_changes d' = delta_changes d" and "delta_exact d' \<Longrightarrow> delta_exact d"
    and "is_ok r \<Longrightarrow> d' = d \<and> files s' = (files s)(u := None)"
    and "\<not> is_ok r \<Longrightarrow> delta_exact d' \<Longrightarrow> (\<And>c. content = Some c \<Longrightarrow> files s u = Some c) \<Longrightarrow> files s' = files s"
    by auto
qed

lemma apply_add_tracks:
  assumes "fs_laws fs files" and "apply_add L fs u contents d s = (r, d', s')"
  shows "tracks files d s d' s'"
proof -
  obtain overwritten exact where ov: "read_optional_file_text_for_delta fs u s (delta_exact d) = (overwritten, exact)"
    by (cases "read_optional_file_text_for_delta fs u s (delta_exact d)")
  obtain r1 s1 where r1: "write_file_with_missing_parent_retry L fs u contents s = (r1, s1)"
    by (cases "write_file_with_missing_parent_retry L fs u contents s")
  show ?thesis
  proof (cases r1)
    case (Inl e)
    then show ?thesis
      using assms(2) ov r1 by (auto simp: apply_add_def intro: tracks_inexact)
  next
    case (Inr x)
    have "files s1 = (files s)(u \<mapsto> contents)"
      using write_retry_Ok [OF assms(1)] r1 Inr by blast
    moreover have "exact \<Longrightarrow> delta_exact d \<and> files s u = overwritten"
      using read_optional_exact [OF assms(1)] ov by metis
    moreover have "d' = push_change u (ChangeAdd contents overwritten) (set_exact exact d)" "s' = s1"
      using assms(2) ov r1 Inr by (auto simp: apply_add_def)
    ultimately show ?thesis
      by (auto intro!: tracks_push simp: set_exact_def)
  qed
qed

lemma apply_delete_tracks:
  assumes "fs_laws fs files" and "apply_delete L fs u d s = (r, d', s')"
  shows "tracks files d s d' s'"
proof -
  define content where "content = (case read_file_text fs u s of Inr content \<Rightarrow> Some content | Inl _ \<Rightarrow> None)"
  define d1 where "d1 = set_exact (note_existing_path_delta_support fs u s (delta_exact d) \<and> content \<noteq> None) d"
  have content: "files s u = Some c" if "content = Some c" for c
    using that fs_lawsD(1) [OF assms(1)] by (auto simp: content_def split: sum.splits)
  have d1: "delta_exact d1 \<Longrightarrow> delta_exact d \<and> (\<exists>c. content = Some c)" "delta_changes d1 = delta_changes d"
    using noted_exact by (auto simp: d1_def set_exact_def)
  obtain r2 d2 s2 where r2: "remove_checked L fs ''Failed to delete file'' u content d1 s = (r2, d2, s2)"
    by (cases "remove_checked L fs ''Failed to delete file'' u content d1 s")
  note removed = remove_checked_cases [OF assms(1) r2]
  have result: "(r, d', s') = (case r2 of Inl e \<Rightarrow> (Err e, d2, s2) | Inr _ \<Rightarrow>
      (Ok (), (case content of Some c \<Rightarrow> push_change u (ChangeDelete c) d2 | None \<Rightarrow> d2), s2))"
    using assms(2) r2 by (auto simp: apply_delete_def Let_def content_def d1_def split: sum.splits)
  show ?thesis
  proof (cases r2)
    case (Inl e)
    then show ?thesis
      using result removed content d1 by (auto intro!: tracks_refl)
  next
    case (Inr x)
    then have d2: "d2 = d1" "files s2 = (files s)(u := None)"
      using removed(3) by auto
    show ?thesis
    proof (cases content)
      case None
      then show ?thesis
        using result Inr d2 d1 by (auto simp: tracks_def)
    next
      case (Some c)
      then show ?thesis
        using result Inr d2 d1 content by (auto intro!: tracks_push)
    qed
  qed
qed

lemma apply_move_tracks:
  assumes "fs_laws fs files" and "apply_move L fs u dest old new d s = (r, d', s')"
    and "files s u = Some old" and "dest \<noteq> u"
  shows "tracks files d s d' s'"
proof -
  obtain overwritten exact where ov: "read_optional_file_text_for_delta fs dest s (delta_exact d) = (overwritten, exact)"
    by (cases "read_optional_file_text_for_delta fs dest s (delta_exact d)")
  define d1 where "d1 = set_exact exact d"
  have d1: "delta_exact d1 \<Longrightarrow> delta_exact d \<and> files s dest = overwritten" "delta_changes d1 = delta_changes d"
    using read_optional_exact [OF assms(1)] ov by (auto simp: d1_def set_exact_def)
  obtain r1 s1 where r1: "write_file_with_missing_parent_retry L fs dest new s = (r1, s1)"
    by (cases "write_file_with_missing_parent_retry L fs dest new s")
  show ?thesis
  proof (cases r1)
    case (Inl e)
    then show ?thesis
      using assms(2) ov r1 by (auto simp: apply_move_def intro: tracks_inexact)
  next
    case (Inr x)
    have s1: "files s1 = (files s)(dest \<mapsto> new)"
      using write_retry_Ok [OF assms(1)] r1 Inr by blast
    let ?d2 = "push_change dest (ChangeAdd new overwritten) d1"
    obtain r3 d3 s3 where r3: "remove_checked L fs ''Failed to remove original'' u (Some old) ?d2 s1 = (r3, d3, s3)"
      by (cases "remove_checked L fs ''Failed to remove original'' u (Some old) ?d2 s1")
    note removed = remove_checked_cases [OF assms(1) r3]
    have result: "(r, d', s') = (case r3 of Inl e \<Rightarrow> (Err e, d3, s3) | Inr _ \<Rightarrow>
        (Ok (), push_change u (ChangeUpdate (Some dest) old overwritten new) d1, s3))"
      using assms(2) ov r1 Inr r3 by (auto simp: apply_move_def d1_def split: sum.splits)
    have written: "tracks files d s ?d2 s1"
      using d1 s1 by (auto intro!: tracks_push)
    show ?thesis
    proof (cases r3)
      case (Inl e)
      have "tracks files ?d2 s1 d3 s3"
        using removed(1,2,4) Inl s1 assms(3,4) by (auto intro!: tracks_refl)
      then show ?thesis
        using written result Inl by (auto intro: tracks_trans)
    next
      case (Inr y)
      then have s3: "files s3 = (files s)(dest \<mapsto> new, u := None)"
        using removed(3) s1 by auto
      have "redo_change (u, ChangeUpdate (Some dest) old overwritten new) (files s) = files s3"
        using assms(4) by (auto simp: s3)
      moreover have "undo_change (u, ChangeUpdate (Some dest) old overwritten new) (files s3) = files s"
        if "delta_exact d1"
        using that d1 assms(3,4) by (auto simp: s3)
      ultimately show ?thesis
        using result Inr d1 by (auto intro!: tracks_push)
    qed
  qed
qed

lemma derive_from_chunks_Ok:
  "derive_new_contents_from_chunks L fs u chunks s = Ok (old, new) \<Longrightarrow> read_file_text fs u s = Ok old"
  by (auto simp: derive_new_contents_from_chunks_def Let_def split: sum.splits option.splits)

lemma apply_update_tracks:
  assumes "fs_laws fs files" and "apply_update L fs cwd u move_path chunks d s = (r, d', s')"
    and elsewhere: "\<And>dest_text. move_path = Some dest_text \<Longrightarrow> path_uri_join L cwd dest_text \<noteq> Ok u"
  shows "tracks files d s d' s'"
proof -
  define d1 where "d1 = set_exact (note_existing_path_delta_support fs u s (delta_exact d)) d"
  have noted: "tracks files d s d1 s"
    using noted_exact by (auto simp: d1_def set_exact_def intro!: tracks_refl)
  show ?thesis
  proof (cases "derive_new_contents_from_chunks L fs u chunks s")
    case (Inl e)
    then show ?thesis
      using assms(2) noted by (auto simp: apply_update_def Let_def d1_def)
  next
    case (Inr contents)
    obtain old new where contents: "contents = (old, new)"
      by (cases contents)
    have old: "files s u = Some old"
      using derive_from_chunks_Ok fs_lawsD(1) [OF assms(1)] Inr contents by metis
    show ?thesis
    proof (cases move_path)
      case None
      obtain r1 s1 where r1: "write_file fs u new s = (r1, s1)"
        by (cases "write_file fs u new s")
      show ?thesis
      proof (cases r1)
        case (Inl e)
        then show ?thesis
          using assms(2) Inr contents None r1
          by (auto simp: apply_update_def Let_def io_context_def intro: tracks_inexact)
      next
        case (Inr x)
        have "files s1 = (files s)(u \<mapsto> new)"
          using r1 Inr fs_lawsD(3) [OF assms(1)] by auto
        then have "tracks files d1 s (push_change u (ChangeUpdate None old None new) d1) s1"
          using old by (auto intro!: tracks_push)
        then show ?thesis
          using assms(2) \<open>derive_new_contents_from_chunks L fs u chunks s = Inr contents\<close> contents None r1 Inr noted
          by (auto simp: apply_update_def Let_def io_context_def d1_def intro: tracks_trans)
      qed
    next
      case (Some dest_text)
      show ?thesis
      proof (cases "path_uri_join L cwd dest_text")
        case (Inl e)
        then show ?thesis
          using assms(2) Inr contents Some noted by (auto simp: apply_update_def Let_def d1_def)
      next
        case (Inr dest)
        then have "dest \<noteq> u"
          using elsewhere [OF Some] by auto
        moreover have "apply_move L fs u dest old new d1 s = (r, d', s')"
          using assms(2) \<open>derive_new_contents_from_chunks L fs u chunks s = Inr contents\<close> contents Some Inr
          by (auto simp: apply_update_def Let_def d1_def)
        ultimately have "tracks files d1 s d' s'"
          using apply_move_tracks [OF assms(1)] old by blast
        with noted show ?thesis by (rule tracks_trans)
      qed
    qed
  qed
qed

text \<open>No update of a patch moves a file to its own path.\<close>

definition moves_elsewhere :: "'u url_lib \<Rightarrow> 'u \<Rightarrow> hunk \<Rightarrow> bool" where
  "moves_elsewhere L cwd h =
     (case h of
        UpdateFile path (Some dest) _ \<Rightarrow> path_uri_join L cwd path \<noteq> path_uri_join L cwd dest
      | _ \<Rightarrow> True)"

lemma apply_hunk_tracks:
  assumes "fs_laws fs files" and "apply_hunk L fs cwd h d s = (r, d', s')" and "moves_elsewhere L cwd h"
  shows "tracks files d s d' s'"
proof (cases "resolve_path L cwd h")
  case (Inl e)
  then show ?thesis
    using assms(2) by (auto simp: apply_hunk_def intro: tracks_refl)
next
  case (Inr u)
  show ?thesis
  proof (cases h)
    case (UpdateFile path move_path chunks)
    then have "path_uri_join L cwd dest \<noteq> Ok u" if "move_path = Some dest" for dest
      using assms(3) Inr that by (auto simp: moves_elsewhere_def resolve_path_def)
    then show ?thesis
      using assms(2) Inr UpdateFile apply_update_tracks [OF assms(1)] by (auto simp: apply_hunk_def)
  qed (use assms(2) Inr apply_add_tracks [OF assms(1)] apply_delete_tracks [OF assms(1)]
    in \<open>auto simp: apply_hunk_def\<close>)
qed

lemma apply_hunk_list_tracks:
  "fs_laws fs files \<Longrightarrow> apply_hunk_list L fs cwd hs a d s = (r, d', s') \<Longrightarrow> list_all (moves_elsewhere L cwd) hs \<Longrightarrow>
   tracks files d s d' s'"
proof (induction hs arbitrary: a d s)
  case Nil
  then show ?case
    by (auto intro: tracks_refl)
next
  case (Cons h hs)
  obtain r1 d1 s1 where r1: "apply_hunk L fs cwd h d s = (r1, d1, s1)"
    by (cases "apply_hunk L fs cwd h d s")
  have "tracks files d s d1 s1"
    using apply_hunk_tracks [OF Cons.prems(1) r1] Cons.prems(3) by simp
  then show ?case
    using Cons r1 by (cases r1) (auto intro: tracks_trans)
qed

lemma exact_delta_recorded:
  assumes "fs_laws fs files" and "list_all (moves_elsewhere L cwd) hunks"
    and "apply_hunks_to_files L fs cwd hunks empty_delta s = (r, d, s')" and "delta_exact d"
  shows "recorded (files s) (delta_changes d) (files s')"
proof -
  have "tracks files empty_delta s d s'"
    using apply_hunk_list_tracks [OF assms(1)] assms(2,3)
    by (auto simp: apply_hunks_to_files_def intro: tracks_refl split: if_splits)
  then show ?thesis
    using assms(4) by (simp add: tracks_def empty_delta_def)
qed

text \<open>
  C22: When the delta of a patch application is marked exact, it tells exactly what happened to the files,
  whether the application succeeded or stopped at any error: carrying out its changes on the files
  before gives the files after, and taking them back from the files after gives the files before. The
  patch moves no file to its own path.
\<close>

theorem exact_delta_describes_files:
  assumes "fs_laws fs files" and "list_all (moves_elsewhere L cwd) hunks"
    and "apply_hunks_to_files L fs cwd hunks empty_delta s = (r, d, s')" and "delta_exact d"
  shows "redo d (files s) = files s' \<and> undo d (files s') = files s"
  using recorded_redo_undo [OF exact_delta_recorded [OF assms]] by (simp add: redo_def undo_def)

text \<open>
  An update that moves a file to its own path deletes the file. The new contents are written to the
  path and then the original, which is the same path, is removed; the application succeeds, and the
  delta records the new contents at that path.
\<close>

theorem move_to_own_path_deletes_file:
  assumes "fs_laws fs files" and "path_uri_join L cwd path = Ok u" and "path_uri_join L cwd dest = Ok u"
    and "apply_hunks_to_files L fs cwd [UpdateFile path (Some dest) chunks] empty_delta s = (Ok a, d, s')"
  shows "files s u \<noteq> None \<and> files s' u = None \<and> redo d (files s) u \<noteq> None"
proof -
  obtain r where run: "apply_update L fs cwd u (Some dest) chunks empty_delta s = (Inr r, d, s')"
    using assms(2,4)
    by (auto simp: apply_hunks_to_files_def apply_hunk_def resolve_path_def split: prod.splits sum.splits)
  then obtain old new where derived: "derive_new_contents_from_chunks L fs u chunks s = Ok (old, new)"
    by (auto simp: apply_update_def Let_def split: sum.splits)
  then obtain d1 where move: "apply_move L fs u u old new d1 s = (Inr r, d, s')" and d1: "delta_changes d1 = []"
    using run assms(3) by (auto simp: apply_update_def Let_def set_exact_def empty_delta_def)
  obtain overwritten exact where ov: "read_optional_file_text_for_delta fs u s (delta_exact d1) = (overwritten, exact)"
    by (cases "read_optional_file_text_for_delta fs u s (delta_exact d1)")
  obtain x s1 d2 y where removed: "remove_checked L fs ''Failed to remove original'' u (Some old) d2 s1 = (Inr y, d2, s')"
    and d: "d = push_change u (ChangeUpdate (Some u) old overwritten new) (set_exact exact d1)"
    using move ov remove_checked_cases(3) [OF assms(1)]
    by (fastforce simp: apply_move_def Let_def split: prod.splits sum.splits)
  have "files s' u = None"
    using remove_checked_cases(3) [OF assms(1) removed] by simp
  moreover have "files s u = Some old"
    using derive_from_chunks_Ok [OF derived] fs_lawsD(1) [OF assms(1)] by blast
  ultimately show ?thesis
    by (simp add: d redo_def push_change_def d1 set_exact_def)
qed

section \<open>An instance\<close>

definition regular_file :: file_metadata where
  "regular_file = \<lparr>is_directory = False, is_file = True, is_symlink = False, md_size = 0, created_at_ms = 0,
     modified_at_ms = 0\<rparr>"

text \<open>Files in memory, without directories.\<close>

definition mem_fs :: "('u, 'u files) executor_fs" where
  "mem_fs = \<lparr>
     read_file_text = (\<lambda>u m. case m u of Some c \<Rightarrow> Ok c | None \<Rightarrow> Err NotFound),
     get_metadata = (\<lambda>u m. case m u of Some c \<Rightarrow> Ok regular_file | None \<Rightarrow> Err NotFound),
     write_file = (\<lambda>u c m. (Ok (), m(u \<mapsto> c))),
     create_directory = (\<lambda>u b m. (Ok (), m)),
     remove_path = (\<lambda>u a b m. case m u of Some c \<Rightarrow> (Ok (), m(u := None)) | None \<Rightarrow> (Err NotFound, m))\<rparr>"

lemma mem_fs_laws: "fs_laws mem_fs (\<lambda>m. m)"
  by (auto simp: fs_laws_def mem_fs_def split: option.splits)

definition sample_cwd :: small_url where
  "sample_cwd = (None, ''w'')"

definition sample_files :: "small_url files" where
  "sample_files = [(None, ''w/a'') \<mapsto> ''x'' @ [NL]]"

definition sample_chunk :: update_file_chunk where
  "sample_chunk = \<lparr>change_context = None, old_lines = [''x''], new_lines = [''y''], is_end_of_file = False\<rparr>"

definition sample_hunk_list :: "hunk list" where
  "sample_hunk_list = [AddFile ''b'' ''n'', UpdateFile ''a'' (Some ''c'') [sample_chunk], DeleteFile ''b'']"

theorem exact_delta_describes_files_witness:
  "\<exists>d s'. apply_hunks_to_files small_lib mem_fs sample_cwd sample_hunk_list empty_delta sample_files =
      (Ok \<lparr>aff_added = [''b''], aff_modified = [''c''], aff_deleted = [''b'']\<rparr>, d, s') \<and>
    redo d sample_files = s' \<and> undo d s' = sample_files"
proof -
  let ?run = "apply_hunks_to_files small_lib mem_fs sample_cwd sample_hunk_list empty_delta sample_files"
  have "fst ?run = Ok \<lparr>aff_added = [''b''], aff_modified = [''c''], aff_deleted = [''b'']\<rparr> \<and>
    delta_exact (fst (snd ?run)) \<and> list_all (moves_elsewhere small_lib sample_cwd) sample_hunk_list"
    by code_simp
  then show ?thesis
    using exact_delta_describes_files [OF mem_fs_laws, of small_lib sample_cwd sample_hunk_list sample_files]
    by (cases ?run) auto
qed

theorem move_to_own_path_deletes_file_witness:
  "\<exists>a d s'. apply_hunks_to_files small_lib mem_fs sample_cwd [UpdateFile ''a'' (Some ''./a'') [sample_chunk]]
      empty_delta sample_files = (Ok a, d, s') \<and> s' (None, ''w/a'') = None"
proof -
  let ?run = "apply_hunks_to_files small_lib mem_fs sample_cwd [UpdateFile ''a'' (Some ''./a'') [sample_chunk]]
    empty_delta sample_files"
  have "is_ok (fst ?run) \<and> path_uri_join small_lib sample_cwd ''a'' = Ok (None, ''w/a'') \<and>
    path_uri_join small_lib sample_cwd ''./a'' = Ok (None, ''w/a'')"
    by code_simp
  then show ?thesis
    using move_to_own_path_deletes_file [OF mem_fs_laws, of small_lib sample_cwd "''a''" "(None, ''w/a'')" "''./a''"]
    by (cases ?run; cases "fst ?run") auto
qed

end
