(* ===== verification/Patch_Roundtrip.thy ===== *)
theory Patch_Roundtrip
  imports Patch_Parser
begin

text \<open>
  A printer for the patch format, which follows the grammar at the head of
  \<^verbatim>\<open>apply-patch/src/parser.rs\<close>, and the proof that \<^const>\<open>parse_patch\<close> reads back what it prints.
\<close>

section \<open>White space around lines\<close>

definition ws_bytes :: "char list" where
  "ws_bytes = concat white_space"

lemma trim_end_Cons:
  assumes "c \<notin> set ws_bytes"
  shows "\<exists>t. trim_end (c # s) = c # t"
proof (induction "length s" arbitrary: s rule: less_induct)
  case less
  show ?case
  proof (cases "starts_ws (map rev white_space) (rev (c # s))")
    case False
    then show ?thesis
      by (simp add: trim_end_def strip_all_id)
  next
    case True
    then obtain w where w: "w \<in> set white_space" "prefix (rev w) (rev (c # s))"
      by (auto simp: starts_ws_def)
    then obtain t where t: "c # s = t @ w"
      by (metis suffixE suffix_to_prefix)
    have "c \<notin> set w"
      using assms w(1) by (auto simp: ws_bytes_def)
    then obtain t' where t': "t = c # t'"
      using t by (cases t) auto
    have "length t' < length s"
      using t t' ws_nonempty [OF w(1)] by auto
    then show ?thesis
      using less [of t'] t t' trim_end_append_ws [OF w(1), of t] by simp
  qed
qed

lemma trim_end_space_append:
  assumes "p \<noteq> []" "trim_end p = p"
  shows "trim_end (m @ CHR '' '' # p) = m @ CHR '' '' # p"
proof -
  have stop: "\<not> starts_ws (map rev white_space) (rev p)"
    using assms(2) strip_all_not_starts [of "map rev white_space" "rev p"] by (simp add: trim_end_def rev_swap)
  have "\<not> starts_ws (map rev white_space) (rev p @ CHR '' '' # rev m)"
  proof
    assume "starts_ws (map rev white_space) (rev p @ CHR '' '' # rev m)"
    then obtain e where e: "e \<in> set white_space" "prefix (rev e) (rev p @ CHR '' '' # rev m)"
      by (auto simp: starts_ws_def)
    moreover have "\<not> prefix (rev e) (rev p)"
      using stop e(1) ws_nonempty by (auto simp: starts_ws_def)
    ultimately obtain v where v: "rev e = rev p @ v" "v \<noteq> []" "prefix v (CHR '' '' # rev m)"
      by (auto simp: prefix_append)
    then have "CHR '' '' \<in> set e" "length e > 1"
      using assms(1) by (auto simp: prefix_Cons rev_swap)
    moreover have "list_all (\<lambda>e. length e > 1 \<longrightarrow> CHR '' '' \<notin> set e) white_space"
      by (simp add: white_space_def)
    ultimately show False
      using e(1) by (auto simp: list_all_iff)
  qed
  then show ?thesis
    by (simp add: trim_end_def strip_all_id)
qed

lemma ascii_not_ws: "list_all (\<lambda>c. c \<notin> set ws_bytes \<and> \<not> ws_lead c) ''*@+-<''"
  by code_simp

lemma trim_Cons_head:
  assumes "c \<in> set ''*@+-<''"
  shows "\<exists>t. trim (c # s) = c # t" "\<exists>t. trim_end (c # s) = c # t"
proof -
  have c: "c \<notin> set ws_bytes" "\<not> ws_lead c"
    using ascii_not_ws assms unfolding list_all_iff by blast+
  then show "\<exists>t. trim_end (c # s) = c # t"
    by (intro trim_end_Cons)
  then show "\<exists>t. trim (c # s) = c # t"
    using c by (simp add: trim_def trim_start_Cons)
qed

section \<open>Writing patches\<close>

text \<open>A reference printer of the patch format, and the hunks whose text is unambiguous.\<close>

definition render_chunk :: "update_file_chunk \<Rightarrow> string list" where
  "render_chunk c =
     (case change_context c of None \<Rightarrow> EMPTY_CHANGE_CONTEXT_MARKER | Some x \<Rightarrow> CHANGE_CONTEXT_MARKER @ x) #
     map ((#) CHR ''-'') (old_lines c) @ map ((#) CHR ''+'') (new_lines c) @
     (if is_end_of_file c then [EOF_MARKER] else [])"

fun render_hunk :: "hunk \<Rightarrow> string list" where
  "render_hunk (AddFile path contents) =
     (ADD_FILE_MARKER @ path) # map ((#) CHR ''+'') (butlast (split_on NL contents))"
| "render_hunk (DeleteFile path) = [DELETE_FILE_MARKER @ path]"
| "render_hunk (UpdateFile path move_path chunks) =
     (UPDATE_FILE_MARKER @ path) #
     (case move_path of None \<Rightarrow> [] | Some dest \<Rightarrow> [MOVE_TO_MARKER @ dest]) @
     concat (map render_chunk chunks)"

definition render_patch :: "string option \<Rightarrow> hunk list \<Rightarrow> string" where
  "render_patch eid hs = join [NL]
     (BEGIN_PATCH_MARKER #
      (case eid of None \<Rightarrow> [] | Some e \<Rightarrow> [ENVIRONMENT_ID_MARKER @ '' '' @ e]) @
      concat (map render_hunk hs) @ [END_PATCH_MARKER])"

definition token_ok :: "string \<Rightarrow> bool" where
  "token_ok p \<longleftrightarrow> p \<noteq> [] \<and> trim_end p = p \<and> NL \<notin> set p"

definition chunk_ok :: "update_file_chunk \<Rightarrow> bool" where
  "chunk_ok c \<longleftrightarrow>
     (\<forall>x. change_context c = Some x \<longrightarrow> token_ok x) \<and> \<not> chunk_empty c \<and>
     list_all line_ok (old_lines c) \<and> list_all line_ok (new_lines c)"

fun hunk_ok :: "hunk \<Rightarrow> bool" where
  "hunk_ok (AddFile path contents) \<longleftrightarrow>
     token_ok path \<and> last (split_on NL contents) = [] \<and> list_all line_ok (split_on NL contents)"
| "hunk_ok (DeleteFile path) \<longleftrightarrow> token_ok path"
| "hunk_ok (UpdateFile path move_path chunks) \<longleftrightarrow>
     token_ok path \<and> (\<forall>d. move_path = Some d \<longrightarrow> token_ok d) \<and> chunks \<noteq> [] \<and> list_all chunk_ok chunks"

section \<open>Reading what was written\<close>

fun mode_kind :: "parser_mode \<Rightarrow> parser_mode" where
  "mode_kind (InUpdateFile n) = InUpdateFile 0"
| "mode_kind m = m"

definition at :: "parser_mode \<Rightarrow> hunk list \<Rightarrow> string option \<Rightarrow> patch_parser \<Rightarrow> bool" where
  "at k hs e p \<longleftrightarrow> mode_kind (parser_mode p) = k \<and> parser_hunks p = hs \<and> environment_id p = e"

definition leads ::
  "(patch_parser \<Rightarrow> bool) \<Rightarrow> string list \<Rightarrow> (patch_parser \<Rightarrow> bool) \<Rightarrow> bool" where
  "leads P ls Q \<longleftrightarrow> (\<forall>p. P p \<longrightarrow> (\<exists>p'. process_lines p ls = Ok p' \<and> Q p'))"

lemma leads_Nil: "leads P [] P"
  by (simp add: leads_def)

lemma leads_append: "leads P a Q \<Longrightarrow> leads Q b R \<Longrightarrow> leads P (a @ b) R"
  by (fastforce simp: leads_def process_lines_append res_bind_def)

lemma leads_line:
  assumes "\<And>p. P p \<Longrightarrow> \<exists>p'. process_line (take_line p) l = Ok p' \<and> Q p'"
  shows "leads P [l] Q"
  using assms by (fastforce simp: leads_def res_bind_def)

lemma leads_Cons: "leads P [l] Q \<Longrightarrow> leads Q ls R \<Longrightarrow> leads P (l # ls) R"
  using leads_append [of P "[l]" Q ls R] by simp

lemma at_take_line [simp]: "at k hs e (take_line p) = at k hs e p"
  by (simp add: at_def take_line_def)

definition complete :: "hunk list \<Rightarrow> bool" where
  "complete hs \<longleftrightarrow>
     (case last_hunk hs of
        Some (UpdateFile path mv cs) \<Rightarrow> cs \<noteq> [] \<and> \<not> chunk_empty (last cs)
      | _ \<Rightarrow> True)"

lemma ensure_complete: "complete (parser_hunks p) \<Longrightarrow> ensure_update_hunk_is_not_empty p l = Ok ()"
  by (auto simp: complete_def ensure_update_hunk_is_not_empty_def last_chunk_empty_def
      split: option.splits hunk.splits list.splits)

lemma token_line:
  assumes "token_ok x" "last m = CHR '' ''" "m \<noteq> []" "hd m \<in> set ''*@+-<''"
  shows "trim (m @ x) = m @ x" "trim_end (m @ x) = m @ x"
proof -
  obtain m' where m: "m = m' @ '' ''"
    using assms(2,3) by (metis append_butlast_last_id)
  then show e: "trim_end (m @ x) = m @ x"
    using trim_end_space_append [of x m'] assms(1) by (simp add: token_ok_def)
  have "\<not> ws_lead (hd m)"
    using ascii_not_ws assms(4) unfolding list_all_iff by blast
  then show "trim (m @ x) = m @ x"
    using e assms(3) by (cases m) (simp_all add: trim_def trim_start_Cons)
qed

definition open_kind :: "parser_mode \<Rightarrow> bool" where
  "open_kind k \<longleftrightarrow> k \<in> {StartedPatch, InAddFile, InDeleteFile, InUpdateFile 0}"

lemma process_line_header:
  assumes "open_kind (mode_kind (parser_mode p))" "trim l = l" "trim_end l = l"
    "handle_hunk_headers_and_end_patch p l = Ok (Some p')"
  shows "process_line p l = Ok p'"
  using assms
  by (cases "parser_mode p") (auto simp: open_kind_def process_line_def or_else_line_def res_bind_def)

lemma token_headers:
  assumes "token_ok path" "m \<in> {ADD_FILE_MARKER, DELETE_FILE_MARKER, UPDATE_FILE_MARKER}"
  shows "trim (m @ path) = m @ path" "trim_end (m @ path) = m @ path"
    "strip_prefix ENVIRONMENT_ID_MARKER (m @ path) = None"
proof -
  show "trim (m @ path) = m @ path" "trim_end (m @ path) = m @ path"
    using assms by (auto intro!: token_line simp: marker_defs)
  show "strip_prefix ENVIRONMENT_ID_MARKER (m @ path) = None"
    using assms(2) by (auto simp: marker_defs strip_prefix_def)
qed

lemma header_line:
  assumes "token_ok path" "complete hs" "open_kind k"
    "m \<in> {ADD_FILE_MARKER, DELETE_FILE_MARKER, UPDATE_FILE_MARKER}"
    "\<And>p. parser_hunks p = hs \<Longrightarrow> \<exists>n. handle_hunk_header p (m @ path) =
       Ok (Some (p\<lparr>parser_hunks := hs @ [h], parser_mode := m' n\<rparr>))"
    "\<And>n. mode_kind (m' n) = k'"
  shows "leads (at k hs e) [m @ path] (at k' (hs @ [h]) e)"
proof (rule leads_line)
  fix p
  assume p: "at k hs e p"
  let ?q = "take_line p"
  have q: "at k hs e ?q"
    using p by simp
  obtain n where n: "handle_hunk_header ?q (m @ path) =
       Ok (Some (?q\<lparr>parser_hunks := hs @ [h], parser_mode := m' n\<rparr>))"
    using assms(5) [of ?q] q by (auto simp: at_def)
  have "handle_hunk_headers_and_end_patch ?q (m @ path) = handle_hunk_header ?q (m @ path)"
    using token_headers(3) [OF assms(1,4)]
    by (simp add: handle_hunk_headers_and_end_patch_def split: parser_mode.splits)
  then have "process_line ?q (m @ path) = Ok (?q\<lparr>parser_hunks := hs @ [h], parser_mode := m' n\<rparr>)"
    using q assms(3) token_headers(1,2) [OF assms(1,4)] n
    by (intro process_line_header) (auto simp: at_def)
  then show "\<exists>p'. process_line ?q (m @ path) = Ok p' \<and> at k' (hs @ [h]) e p'"
    using q assms(6) by (auto simp: at_def)
qed

lemma header_lines:
  assumes "token_ok path" "complete hs" "open_kind k"
  shows "leads (at k hs e) [ADD_FILE_MARKER @ path] (at InAddFile (hs @ [AddFile path []]) e)"
    and "leads (at k hs e) [DELETE_FILE_MARKER @ path] (at InDeleteFile (hs @ [DeleteFile path]) e)"
    and "leads (at k hs e) [UPDATE_FILE_MARKER @ path] (at (InUpdateFile 0) (hs @ [UpdateFile path None []]) e)"
proof -
  show "leads (at k hs e) [ADD_FILE_MARKER @ path] (at InAddFile (hs @ [AddFile path []]) e)"
    using assms
    by (intro header_line [where m' = "\<lambda>_. InAddFile"])
      (auto simp: handle_hunk_header_def push_hunk_def ensure_complete res_bind_def marker_defs strip_prefix_def)
  show "leads (at k hs e) [DELETE_FILE_MARKER @ path] (at InDeleteFile (hs @ [DeleteFile path]) e)"
    using assms
    by (intro header_line [where m' = "\<lambda>_. InDeleteFile"])
      (auto simp: handle_hunk_header_def push_hunk_def ensure_complete res_bind_def marker_defs strip_prefix_def)
  show "leads (at k hs e) [UPDATE_FILE_MARKER @ path] (at (InUpdateFile 0) (hs @ [UpdateFile path None []]) e)"
    using assms
    by (intro header_line [where m' = InUpdateFile])
      (auto simp: handle_hunk_header_def push_hunk_def ensure_complete res_bind_def marker_defs strip_prefix_def)
qed

lemma no_header:
  assumes "c \<noteq> CHR ''*''"
  shows "handle_hunk_headers_and_end_patch p (c # t) = Ok None"
  using assms
  by (auto simp: handle_hunk_headers_and_end_patch_def handle_hunk_header_def marker_defs strip_prefix_def
      split: parser_mode.splits)

lemma added_lines:
  "leads (at InAddFile (hs @ [AddFile path c]) e) (map ((#) CHR ''+'') ls)
     (at InAddFile (hs @ [AddFile path (c @ concat (map (\<lambda>l. l @ [NL]) ls))]) e)"
proof (induction ls arbitrary: c)
  case Nil
  then show ?case by (simp add: leads_Nil)
next
  case (Cons l ls)
  obtain t where t: "trim (CHR ''+'' # l) = CHR ''+'' # t"
    using trim_Cons_head(1) [of "CHR ''+''" l] by auto
  have "leads (at InAddFile (hs @ [AddFile path c]) e) [CHR ''+'' # l]
     (at InAddFile (hs @ [AddFile path (c @ l @ [NL])]) e)"
  proof (rule leads_line)
    fix p
    assume "at InAddFile (hs @ [AddFile path c]) e p"
    then have "at InAddFile (hs @ [AddFile path c]) e (take_line p)"
      by simp
    then have "parser_mode (take_line p) = InAddFile" "parser_hunks (take_line p) = hs @ [AddFile path c]"
      "environment_id (take_line p) = e"
      by (auto simp: at_def elim: mode_kind.elims)
    then show "\<exists>p'. process_line (take_line p) (CHR ''+'' # l) = Ok p' \<and>
        at InAddFile (hs @ [AddFile path (c @ l @ [NL])]) e p'"
      by (simp add: process_line_def t no_header or_else_line_def res_bind_def process_add_line_def
          strip_prefix_def at_def)
  qed
  from leads_Cons [OF this Cons.IH [of "c @ l @ [NL]"]] show ?case
    by simp
qed

lemma update_line:
  assumes "\<And>n. update_line_step n l mv cs = Ok (mv', cs')"
    "\<And>p. handle_hunk_headers_and_end_patch p (trim_end l) = Ok None"
  shows "leads (at (InUpdateFile 0) (hs @ [UpdateFile path mv cs]) e) [l]
     (at (InUpdateFile 0) (hs @ [UpdateFile path mv' cs']) e)"
proof (rule leads_line)
  fix p
  assume "at (InUpdateFile 0) (hs @ [UpdateFile path mv cs]) e p"
  then have "at (InUpdateFile 0) (hs @ [UpdateFile path mv cs]) e (take_line p)"
    by simp
  then obtain n where "parser_mode (take_line p) = InUpdateFile n"
    "parser_hunks (take_line p) = hs @ [UpdateFile path mv cs]" "environment_id (take_line p) = e"
    by (auto simp: at_def elim: mode_kind.elims)
  then show "\<exists>p'. process_line (take_line p) l = Ok p' \<and>
      at (InUpdateFile 0) (hs @ [UpdateFile path mv' cs']) e p'"
    using assms by (simp add: process_line_def or_else_line_def res_bind_def process_update_line_def at_def)
qed

abbreviation in_update ::
  "hunk list \<Rightarrow> string option \<Rightarrow> string \<Rightarrow> string option \<Rightarrow> update_file_chunk list \<Rightarrow> patch_parser \<Rightarrow> bool" where
  "in_update hs e path mv cs \<equiv> at (InUpdateFile 0) (hs @ [UpdateFile path mv cs]) e"

lemma signed_line:
  assumes "\<not> is_end_of_file c" "s = CHR ''-'' \<or> s = CHR ''+''"
  shows "leads (in_update hs e path mv (cs @ [c])) [s # l]
     (in_update hs e path mv (cs @ [if s = CHR ''-'' then c\<lparr>old_lines := old_lines c @ [l]\<rparr>
        else c\<lparr>new_lines := new_lines c @ [l]\<rparr>]))"
proof (rule update_line)
  obtain t where t: "trim_end (s # l) = s # t"
    using trim_Cons_head(2) [of s l] assms(2) by auto
  show "handle_hunk_headers_and_end_patch p (trim_end (s # l)) = Ok None" for p
    using assms(2) by (auto simp: t no_header)
  show "update_line_step n (s # l) mv (cs @ [c]) =
      Ok (mv, cs @ [if s = CHR ''-'' then c\<lparr>old_lines := old_lines c @ [l]\<rparr>
        else c\<lparr>new_lines := new_lines c @ [l]\<rparr>])" for n
    using assms
    by (auto simp: update_line_step_def t is_context_marker_def marker_defs strip_prefix_def Let_def
        update_body_line_def on_last_chunk_def res_bind_def)
qed

lemma removed_lines:
  "\<not> is_end_of_file c \<Longrightarrow>
   leads (in_update hs e path mv (cs @ [c])) (map ((#) CHR ''-'') ls)
     (in_update hs e path mv (cs @ [c\<lparr>old_lines := old_lines c @ ls\<rparr>]))"
proof (induction ls arbitrary: c)
  case Nil
  then show ?case by (simp add: leads_Nil)
next
  case (Cons l ls)
  have "leads (in_update hs e path mv (cs @ [c])) [CHR ''-'' # l]
      (in_update hs e path mv (cs @ [c\<lparr>old_lines := old_lines c @ [l]\<rparr>]))"
    using signed_line [OF Cons.prems, of "CHR ''-''"] by simp
  from leads_Cons [OF this Cons.IH] show ?case
    using Cons.prems by simp
qed

lemma inserted_lines:
  "\<not> is_end_of_file c \<Longrightarrow>
   leads (in_update hs e path mv (cs @ [c])) (map ((#) CHR ''+'') ls)
     (in_update hs e path mv (cs @ [c\<lparr>new_lines := new_lines c @ ls\<rparr>]))"
proof (induction ls arbitrary: c)
  case Nil
  then show ?case by (simp add: leads_Nil)
next
  case (Cons l ls)
  have "leads (in_update hs e path mv (cs @ [c])) [CHR ''+'' # l]
      (in_update hs e path mv (cs @ [c\<lparr>new_lines := new_lines c @ [l]\<rparr>]))"
    using signed_line [OF Cons.prems, of "CHR ''+''"] by simp
  from leads_Cons [OF this Cons.IH] show ?case
    using Cons.prems by simp
qed

lemma context_line:
  assumes "\<not> last_chunk_empty cs" "\<forall>x. ctx = Some x \<longrightarrow> token_ok x"
  shows "leads (in_update hs e path mv cs)
     [case ctx of None \<Rightarrow> EMPTY_CHANGE_CONTEXT_MARKER | Some x \<Rightarrow> CHANGE_CONTEXT_MARKER @ x]
     (in_update hs e path mv (cs @ [empty_chunk ctx]))"
proof (rule update_line)
  let ?l = "case ctx of None \<Rightarrow> EMPTY_CHANGE_CONTEXT_MARKER | Some x \<Rightarrow> CHANGE_CONTEXT_MARKER @ x"
  have l: "trim_end ?l = ?l"
  proof (cases ctx)
    case None
    have "\<not> ws_last (CHR ''@'')"
      by (simp add: ws_last_def white_space_def)
    from trim_end_snoc [OF this, of "''@''"] show ?thesis
      by (simp add: None marker_defs)
  next
    case (Some x)
    then show ?thesis
      using assms(2) token_line(2) [of x CHANGE_CONTEXT_MARKER] by (simp add: marker_defs)
  qed
  have at: "\<exists>t. ?l = CHR ''@'' # t"
    by (cases ctx) (auto simp: marker_defs)
  then show "handle_hunk_headers_and_end_patch p (trim_end ?l) = Ok None" for p
    unfolding l by (auto simp: no_header)
  show "update_line_step n ?l mv cs = Ok (mv, cs @ [empty_chunk ctx])" for n
  proof (cases ctx)
    case None
    then show ?thesis
      using l assms(1)
      by (auto simp: update_line_step_def is_context_marker_def marker_defs strip_prefix_def Let_def)
  next
    case (Some x)
    then have "x \<noteq> []"
      using assms(2) by (auto simp: token_ok_def)
    with Some show ?thesis
      using l assms(1)
      by (auto simp: update_line_step_def is_context_marker_def marker_defs strip_prefix_def Let_def)
  qed
qed

lemma end_of_file_line:
  assumes "\<not> chunk_empty c" "\<not> is_end_of_file c"
  shows "leads (in_update hs e path mv (cs @ [c])) [EOF_MARKER]
     (in_update hs e path mv (cs @ [c\<lparr>is_end_of_file := True\<rparr>]))"
proof (rule update_line)
  have "\<not> ws_last (CHR ''e'')"
    by (simp add: ws_last_def white_space_def)
  from trim_end_snoc [OF this, of "''*** End of Fil''"] have l: "trim_end EOF_MARKER = EOF_MARKER"
    by (simp add: marker_defs)
  show "handle_hunk_headers_and_end_patch p (trim_end EOF_MARKER) = Ok None" for p
    unfolding l
    by (auto simp: handle_hunk_headers_and_end_patch_def handle_hunk_header_def marker_defs strip_prefix_def
        split: parser_mode.splits)
  show "update_line_step n EOF_MARKER mv (cs @ [c]) = Ok (mv, cs @ [c\<lparr>is_end_of_file := True\<rparr>])" for n
    using assms l
    by (auto simp: update_line_step_def is_context_marker_def marker_defs strip_prefix_def Let_def
        last_chunk_empty_def mark_end_of_file_def)
qed

lemma move_line:
  assumes "token_ok d"
  shows "leads (in_update hs e path None []) [MOVE_TO_MARKER @ d] (in_update hs e path (Some d) [])"
proof (rule update_line)
  have l: "trim_end (MOVE_TO_MARKER @ d) = MOVE_TO_MARKER @ d"
    using token_line(2) [OF assms, of MOVE_TO_MARKER] by (simp add: marker_defs)
  show "handle_hunk_headers_and_end_patch p (trim_end (MOVE_TO_MARKER @ d)) = Ok None" for p
    unfolding l
    by (auto simp: handle_hunk_headers_and_end_patch_def handle_hunk_header_def marker_defs strip_prefix_def
        split: parser_mode.splits)
  show "update_line_step n (MOVE_TO_MARKER @ d) None [] = Ok (Some d, [])" for n
    using l by (simp add: update_line_step_def Let_def)
qed

lemma chunk_lines:
  assumes "chunk_ok c" "\<not> last_chunk_empty cs"
  shows "leads (in_update hs e path mv cs) (render_chunk c) (in_update hs e path mv (cs @ [c]))"
proof -
  let ?c0 = "empty_chunk (change_context c)"
  let ?c1 = "?c0\<lparr>old_lines := old_lines c\<rparr>"
  let ?c2 = "?c1\<lparr>new_lines := new_lines c\<rparr>"
  have 1: "leads (in_update hs e path mv cs)
      [case change_context c of None \<Rightarrow> EMPTY_CHANGE_CONTEXT_MARKER | Some x \<Rightarrow> CHANGE_CONTEXT_MARKER @ x]
      (in_update hs e path mv (cs @ [?c0]))"
    using assms by (intro context_line) (auto simp: chunk_ok_def)
  have 2: "leads (in_update hs e path mv (cs @ [?c0])) (map ((#) CHR ''-'') (old_lines c))
      (in_update hs e path mv (cs @ [?c1]))"
    using removed_lines [of ?c0] by (simp add: empty_chunk_def)
  have 3: "leads (in_update hs e path mv (cs @ [?c1])) (map ((#) CHR ''+'') (new_lines c))
      (in_update hs e path mv (cs @ [?c2]))"
    using inserted_lines [of ?c1] by (simp add: empty_chunk_def)
  have 4: "leads (in_update hs e path mv (cs @ [?c2])) (if is_end_of_file c then [EOF_MARKER] else [])
      (in_update hs e path mv (cs @ [c]))"
  proof (cases "is_end_of_file c")
    case True
    have "\<not> chunk_empty ?c2" "\<not> is_end_of_file ?c2" "?c2\<lparr>is_end_of_file := True\<rparr> = c"
      using assms(1) True by (auto simp: chunk_ok_def chunk_empty_def empty_chunk_def)
    then show ?thesis
      using end_of_file_line [of ?c2] True by simp
  next
    case False
    then have "?c2 = c"
      by (cases c) (simp add: empty_chunk_def)
    with False show ?thesis
      by (simp add: leads_Nil)
  qed
  show ?thesis
    unfolding render_chunk_def by (rule leads_Cons [OF 1 leads_append [OF 2 leads_append [OF 3 4]]])
qed

lemma chunks_lines:
  assumes "list_all chunk_ok cs" "\<not> last_chunk_empty cs0"
  shows "leads (in_update hs e path mv cs0) (concat (map render_chunk cs)) (in_update hs e path mv (cs0 @ cs))"
  using assms
proof (induction cs arbitrary: cs0)
  case Nil
  then show ?case by (simp add: leads_Nil)
next
  case (Cons c cs)
  then have "\<not> last_chunk_empty (cs0 @ [c])"
    by (simp add: last_chunk_empty_def chunk_ok_def)
  with Cons show ?case
    using leads_append [OF chunk_lines [of c cs0] Cons.IH [of "cs0 @ [c]"]] by simp
qed

lemma chunk_ok_last: "list_all chunk_ok cs \<Longrightarrow> cs \<noteq> [] \<Longrightarrow> \<not> chunk_empty (last cs)"
  by (auto simp: list_all_iff chunk_ok_def)

text \<open>One hunk: the parser is again between hunks afterwards.\<close>

definition between :: "hunk list \<Rightarrow> string option \<Rightarrow> patch_parser \<Rightarrow> bool" where
  "between hs e p \<longleftrightarrow> (\<exists>k. open_kind k \<and> at k hs e p) \<and> complete hs"

lemma leads_post: "leads P ls Q \<Longrightarrow> (\<And>p. Q p \<Longrightarrow> R p) \<Longrightarrow> leads P ls R"
  unfolding leads_def by blast

lemma leads_between:
  "(\<And>k. open_kind k \<Longrightarrow> complete hs \<Longrightarrow> leads (at k hs e) ls Q) \<Longrightarrow> leads (between hs e) ls Q"
  by (auto simp: leads_def between_def)

lemma concat_lines:
  "last (split_on NL c) = [] \<Longrightarrow> concat (map (\<lambda>l. l @ [NL]) (butlast (split_on NL c))) = c"
  by (induction c) (auto split: list.splits if_splits)

lemma hunk_lines:
  assumes "hunk_ok h"
  shows "leads (between hs e) (render_hunk h) (between (hs @ [h]) e)"
proof (rule leads_between)
  fix k
  assume k: "open_kind k" and c: "complete hs"
  show "leads (at k hs e) (render_hunk h) (between (hs @ [h]) e)"
  proof (cases h)
    case (AddFile path contents)
    then have ok: "token_ok path" "last (split_on NL contents) = []"
      using assms by auto
    have "leads (at InAddFile (hs @ [AddFile path []]) e)
        (map ((#) CHR ''+'') (butlast (split_on NL contents))) (at InAddFile (hs @ [h]) e)"
      using added_lines [of hs path "[]" e "butlast (split_on NL contents)"]
      by (simp add: concat_lines [OF ok(2)] AddFile)
    from leads_Cons [OF header_lines(1) [OF ok(1) c k] this]
    have "leads (at k hs e) (render_hunk h) (at InAddFile (hs @ [h]) e)"
      by (simp add: AddFile)
    then show ?thesis
      by (rule leads_post) (auto simp: AddFile between_def open_kind_def complete_def)
  next
    case (DeleteFile path)
    then have ok: "token_ok path"
      using assms by auto
    from header_lines(2) [OF ok c k]
    have "leads (at k hs e) (render_hunk h) (at InDeleteFile (hs @ [h]) e)"
      by (simp add: DeleteFile)
    then show ?thesis
      by (rule leads_post) (auto simp: DeleteFile between_def open_kind_def complete_def)
  next
    case (UpdateFile path mv cs)
    then have ok: "token_ok path" "\<forall>d. mv = Some d \<longrightarrow> token_ok d" "cs \<noteq> []" "list_all chunk_ok cs"
      using assms by auto
    have move: "leads (in_update hs e path None [])
        (case mv of None \<Rightarrow> [] | Some dest \<Rightarrow> [MOVE_TO_MARKER @ dest]) (in_update hs e path mv [])"
      using ok(2) by (auto simp: leads_Nil move_line split: option.splits)
    have "leads (in_update hs e path mv []) (concat (map render_chunk cs)) (in_update hs e path mv cs)"
      using chunks_lines [OF ok(4), of "[]"] by (simp add: last_chunk_empty_def)
    from leads_Cons [OF header_lines(3) [OF ok(1) c k] leads_append [OF move this]]
    have "leads (at k hs e) (render_hunk h) (at (InUpdateFile 0) (hs @ [h]) e)"
      by (simp add: UpdateFile)
    moreover have "complete (hs @ [h])"
      using ok(3) chunk_ok_last [OF ok(4,3)] by (simp add: UpdateFile complete_def)
    ultimately show ?thesis
      by (elim leads_post) (auto simp: between_def open_kind_def)
  qed
qed

lemma hunks_lines:
  "list_all hunk_ok hs' \<Longrightarrow>
   leads (between hs e) (concat (map render_hunk hs')) (between (hs @ hs') e)"
proof (induction hs' arbitrary: hs)
  case Nil
  then show ?case by (simp add: leads_Nil)
next
  case (Cons h hs')
  then show ?case
    using leads_append [OF hunk_lines [of h hs e] Cons.IH [of "hs @ [h]"]] by simp
qed

section \<open>Round trip\<close>

definition eid_ok :: "string \<Rightarrow> bool" where
  "eid_ok e \<longleftrightarrow> e \<noteq> [] \<and> trim e = e \<and> NL \<notin> set e"

lemma cr_is_white_space: "[CR] \<in> set white_space" "'' '' \<in> set white_space"
  by (simp_all add: white_space_def)

lemma trimmed_no_cr:
  assumes "trim_end p = p"
  shows "\<not> suffix [CR] p"
proof
  assume "suffix [CR] p"
  then obtain t where t: "p = t @ [CR]"
    by (auto simp: suffix_def)
  then have "length (trim_end p) \<le> length t"
    using trim_end_append_ws [OF cr_is_white_space(1), of t] prefix_trim_end [of t]
    by (simp add: prefix_length_le)
  then show False
    using assms t by simp
qed

lemma trim_end_trimmed: "trim e = e \<Longrightarrow> trim_end e = e"
  by (metis trim_def trim_end_idem)

lemma trim_space: "trim (CHR '' '' # e) = trim e"
proof -
  have "find (\<lambda>x. x \<noteq> [] \<and> prefix x (CHR '' '' # e)) white_space = Some '' ''"
    by (simp add: white_space_def)
  then have "trim_start (CHR '' '' # e) = trim_start e"
    by (simp add: trim_start_def strip_all.simps [of _ "CHR '' '' # e"])
  then show ?thesis
    by (simp add: trim_def)
qed

lemma environment_line:
  assumes "eid_ok x"
  shows "leads (at StartedPatch hs None) [ENVIRONMENT_ID_MARKER @ '' '' @ x] (at StartedPatch hs (Some x))"
proof (rule leads_line)
  fix p
  assume "at StartedPatch hs None p"
  then have p: "at StartedPatch hs None (take_line p)"
    by simp
  then have m: "parser_mode (take_line p) = StartedPatch"
    by (auto simp: at_def elim: mode_kind.elims)
  have x: "trim_end x = x" "x \<noteq> []" "trim x = x"
    using assms trim_end_trimmed by (auto simp: eid_ok_def)
  have l: "trim (ENVIRONMENT_ID_MARKER @ '' '' @ x) = ENVIRONMENT_ID_MARKER @ '' '' @ x"
    using token_line(1) [of x "ENVIRONMENT_ID_MARKER @ '' ''"] assms x
    by (simp add: token_ok_def eid_ok_def marker_defs)
  show "\<exists>p'. process_line (take_line p) (ENVIRONMENT_ID_MARKER @ '' '' @ x) = Ok p' \<and>
      at StartedPatch hs (Some x) p'"
    using p m x unfolding process_line_def l
    by (simp add: or_else_line_def handle_hunk_headers_and_end_patch_def handle_environment_id_def
        trim_space at_def res_bind_def)
qed

lemma marker_trim:
  "trim BEGIN_PATCH_MARKER = BEGIN_PATCH_MARKER" "trim END_PATCH_MARKER = END_PATCH_MARKER"
proof -
  have "\<not> ws_last (CHR ''h'')" "\<not> ws_lead (CHR ''*'')"
    by (simp_all add: ws_last_def ws_lead_def white_space_def)
  then show "trim BEGIN_PATCH_MARKER = BEGIN_PATCH_MARKER" "trim END_PATCH_MARKER = END_PATCH_MARKER"
    using trim_end_snoc [of "CHR ''h''" "''*** Begin Patc''"] trim_end_snoc [of "CHR ''h''" "''*** End Patc''"]
    by (simp_all add: trim_def trim_start_Cons marker_defs)
qed

lemma begin_line: "leads (at NotStarted hs e) [BEGIN_PATCH_MARKER] (at StartedPatch hs e)"
proof (rule leads_line)
  fix p
  assume "at NotStarted hs e p"
  then have p: "at NotStarted hs e (take_line p)"
    by simp
  then have "parser_mode (take_line p) = NotStarted"
    by (auto simp: at_def elim: mode_kind.elims)
  then show "\<exists>p'. process_line (take_line p) BEGIN_PATCH_MARKER = Ok p' \<and> at StartedPatch hs e p'"
    using p by (simp add: process_line_def marker_trim at_def)
qed

lemma render_lines:
  assumes "list_all hunk_ok hs" "\<forall>x. eid = Some x \<longrightarrow> eid_ok x"
  shows "leads (at NotStarted [] None)
     (BEGIN_PATCH_MARKER # (case eid of None \<Rightarrow> [] | Some e \<Rightarrow> [ENVIRONMENT_ID_MARKER @ '' '' @ e]) @
      concat (map render_hunk hs)) (between hs eid)"
proof -
  have env: "leads (at StartedPatch [] None)
      (case eid of None \<Rightarrow> [] | Some e \<Rightarrow> [ENVIRONMENT_ID_MARKER @ '' '' @ e]) (at StartedPatch [] eid)"
    using assms(2) environment_line by (auto simp: leads_Nil split: option.splits)
  have "leads (at StartedPatch [] eid) (concat (map render_hunk hs)) (between hs eid)"
    using hunks_lines [OF assms(1), of "[]" eid]
    by (auto simp: leads_def between_def open_kind_def complete_def)
  then show ?thesis
    by (rule leads_Cons [OF begin_line leads_append [OF env]])
qed

lemma line_of_terminated: "line_ok l \<Longrightarrow> line_of (l @ [NL]) = l"
  by (simp add: line_of_def line_ok_def strip_suffix_Some_iff [THEN iffD2] strip_suffix_None_iff [THEN iffD2])

lemma line_of_unterminated: "NL \<notin> set l \<Longrightarrow> line_of l = l"
proof -
  assume "NL \<notin> set l"
  then have "\<not> suffix [NL] l"
    by (auto simp: suffix_def)
  then show "line_of l = l"
    by (simp add: line_of_def strip_suffix_None_iff [THEN iffD2])
qed

lemma str_lines_join:
  "ls \<noteq> [] \<Longrightarrow> list_all line_ok ls \<Longrightarrow> last ls \<noteq> [] \<Longrightarrow> str_lines (join [NL] ls) = ls"
proof (induction "[NL]" ls rule: join.induct)
  case (2 x)
  then show ?case
    by (simp add: str_lines_def split_inclusive_no_sep line_of_unterminated line_ok_def)
next
  case (3 x y xs)
  then show ?case
    by (simp add: str_lines_def line_ok_def [of x] split_inclusive_line line_of_terminated)
qed simp

lemma join_snoc: "join [NL] (ls @ [x]) = concat (map (\<lambda>l. l @ [NL]) ls) @ x"
proof (induction ls)
  case (Cons l ls)
  then show ?case
    by (simp add: join_Cons)
qed simp

lemma suffix_single_iff: "suffix [c] s \<longleftrightarrow> s \<noteq> [] \<and> last s = c"
  by (auto simp: suffix_def) (metis append_butlast_last_id)

lemma token_line_ok: "token_ok x \<Longrightarrow> NL \<notin> set m \<Longrightarrow> line_ok (m @ x)"
  using trimmed_no_cr [of x] by (auto simp: line_ok_def token_ok_def suffix_single_iff)

lemma chunk_line_ok:
  assumes "chunk_ok c" "l \<in> set (render_chunk c)"
  shows "line_ok l"
proof -
  have ends: "line_ok EMPTY_CHANGE_CONTEXT_MARKER" "line_ok EOF_MARKER" "NL \<notin> set CHANGE_CONTEXT_MARKER"
    by (simp_all add: line_ok_def marker_defs suffix_single_iff)
  have "line_ok (s # x)" if "line_ok x" "s = CHR ''-'' \<or> s = CHR ''+''" for s x
    using that by (auto simp: line_ok_def suffix_single_iff)
  then show ?thesis
    using assms ends token_line_ok
    by (auto simp: render_chunk_def chunk_ok_def list_all_iff split: option.splits if_splits)
qed

lemma render_line_ok:
  assumes "hunk_ok h" "l \<in> set (render_hunk h)"
  shows "line_ok l"
proof -
  have ends: "NL \<notin> set ADD_FILE_MARKER" "NL \<notin> set DELETE_FILE_MARKER" "NL \<notin> set UPDATE_FILE_MARKER"
      "NL \<notin> set MOVE_TO_MARKER"
    by (simp_all add: marker_defs)
  have plus: "line_ok (CHR ''+'' # x)" if "line_ok x" for x
    using that by (auto simp: line_ok_def suffix_single_iff)
  show ?thesis
    using assms ends token_line_ok chunk_line_ok plus
    by (cases h) (auto simp: list_all_iff dest!: in_set_butlastD split: option.splits)
qed


definition sample_hunks :: "hunk list" where
  "sample_hunks =
     [AddFile ''a'' (''x'' @ [NL]), DeleteFile ''b'',
      UpdateFile ''c'' (Some ''d'')
        [\<lparr>change_context = Some ''f'', old_lines = [''x''], new_lines = [''y'', []], is_end_of_file = True\<rparr>]]"


end
