(* ===== verification/Patch_Reparse.thy ===== *)
theory Patch_Reparse
  imports Patch_Roundtrip
begin

text \<open>
  The text that a parsed patch keeps, which is the text that is applied later, parses to the same hunks.
\<close>

section \<open>Trimming a text with fixed ends\<close>

lemma strip_all_append:
  assumes free: "\<And>a b. a \<in> set ws \<Longrightarrow> b \<in> set ws \<Longrightarrow> prefix a b \<Longrightarrow> a = b"
    and stop: "\<And>w. w \<in> set ws \<Longrightarrow> w \<noteq> [] \<Longrightarrow> hd w \<noteq> c"
  shows "strip_all ws a = c # r \<Longrightarrow> strip_all ws (a @ b) = (c # r) @ b"
proof (induction "length a" arbitrary: a rule: less_induct)
  case less
  show ?case
  proof (cases "starts_ws ws a")
    case True
    then obtain e where e: "find (\<lambda>x. x \<noteq> [] \<and> prefix x a) ws = Some e"
      using find_ws_None by (metis not_None_eq)
    then have e': "e \<noteq> []" "prefix e a" "e \<in> set ws"
      by (auto simp: find_Some_iff)
    have "find (\<lambda>x. x \<noteq> [] \<and> prefix x (a @ b)) ws = Some e"
    proof (rule find_unique)
      fix y assume y: "y \<in> set ws" "y \<noteq> [] \<and> prefix y (a @ b)"
      then have "prefix y e \<or> prefix e y"
        using e'(2) prefix_same_cases [of y "a @ b" e] by auto
      then show "y = e"
        using free y(1) e'(3) by blast
    qed (use e' in auto)
    then have "strip_all ws (a @ b) = strip_all ws (drop (length e) a @ b)"
      using e' by (simp add: strip_all.simps [of _ "a @ b"] prefix_length_le)
    moreover have "strip_all ws a = strip_all ws (drop (length e) a)"
      using e by (simp add: strip_all.simps [of _ a])
    moreover have "length (drop (length e) a) < length a"
      using e' by (cases a) auto
    ultimately show ?thesis
      using less by metis
  next
    case False
    then have "a = c # r"
      using less.prems by (simp add: strip_all_id)
    moreover have "\<not> starts_ws ws ((c # r) @ b)"
      by (auto simp: starts_ws_def prefix_Cons dest: stop)
    ultimately show ?thesis
      by (simp add: strip_all_id)
  qed
qed

lemma trim_start_append:
  assumes "trim_start a = c # r" and "\<not> ws_lead c"
  shows "trim_start (a @ b) = trim_start a @ b"
  using strip_all_append [of white_space c a r b] white_space_prefix_free(1) assms
  by (auto simp: trim_start_def ws_lead_def)

lemma trim_end_append:
  assumes "trim_end b = r @ [c]" and "\<not> ws_last c"
  shows "trim_end (a @ b) = a @ trim_end b"
proof -
  have "strip_all (map rev white_space) (rev b) = c # rev r"
    using assms(1) by (simp add: trim_end_def rev_swap)
  then have "strip_all (map rev white_space) (rev b @ rev a) = (c # rev r) @ rev a"
  proof (rule strip_all_append [rotated 2])
    show "\<And>a b. a \<in> set (map rev white_space) \<Longrightarrow> b \<in> set (map rev white_space) \<Longrightarrow> prefix a b \<Longrightarrow> a = b"
      using white_space_prefix_free(2) by auto
    show "\<And>w. w \<in> set (map rev white_space) \<Longrightarrow> w \<noteq> [] \<Longrightarrow> hd w \<noteq> c"
      using assms(2) by (auto simp: ws_last_def hd_rev)
  qed
  then show ?thesis
    using assms(1) by (simp add: trim_end_def)
qed

lemma trim_end_suffix_id:
  assumes "suffix y (trim_end x)"
  shows "trim_end y = y"
proof -
  have "prefix (rev y) (strip_all (map rev white_space) (rev x))"
    using assms by (simp add: trim_end_def suffix_to_prefix)
  then have "\<not> starts_ws (map rev white_space) (rev y)"
    using strip_all_not_starts [of "map rev white_space" "rev x"]
    by (auto simp: starts_ws_def dest: prefix_order.trans)
  then show ?thesis
    by (simp add: trim_end_def strip_all_id)
qed

lemma trim_start_marker:
  assumes "trim f = BEGIN_PATCH_MARKER"
  shows "trim_start (f @ b) = trim_start f @ b" and "trim (trim_start f) = BEGIN_PATCH_MARKER"
    and "set (trim_start f) \<subseteq> set f"
proof -
  have "prefix BEGIN_PATCH_MARKER (trim_start f)"
    using assms prefix_trim_end [of "trim_start f"] by (simp add: trim_def)
  then obtain r where "trim_start f = CHR ''*'' # r"
    by (auto simp: BEGIN_PATCH_MARKER_def prefix_def)
  moreover have "\<not> ws_lead CHR ''*''"
    using ascii_not_ws by (simp add: list_all_iff)
  ultimately show "trim_start (f @ b) = trim_start f @ b"
    by (rule trim_start_append)
  show "trim (trim_start f) = BEGIN_PATCH_MARKER"
    using assms by (simp add: trim_def trim_start_def)
  show "set (trim_start f) \<subseteq> set f"
    unfolding trim_start_def using suffix_strip_all by (rule set_mono_suffix)
qed

lemma trim_end_marker:
  assumes "trim l = END_PATCH_MARKER"
  shows "trim_end (a @ l) = a @ trim_end l" and "trim (trim_end l) = END_PATCH_MARKER"
    and "set (trim_end l) \<subseteq> set l"
proof -
  have t: "trim (trim_end l) = END_PATCH_MARKER"
    using assms by (simp add: trim_trim_end)
  have suf: "suffix (trim_start (trim_end l)) (trim_end l)"
    by (simp add: trim_start_def suffix_strip_all)
  then have "trim_start (trim_end l) = END_PATCH_MARKER"
    using t trim_end_suffix_id [OF suf] by (simp add: trim_def)
  then obtain r where "trim_end l = r @ [CHR ''h'']"
    using suf by (auto simp: END_PATCH_MARKER_def suffix_def)
  moreover have "\<not> ws_last CHR ''h''"
    by code_simp
  ultimately show "trim_end (a @ l) = a @ trim_end l"
    by (rule trim_end_append)
  show "trim (trim_end l) = END_PATCH_MARKER"
    by (rule t)
  show "set (trim_end l) \<subseteq> set l"
    using prefix_trim_end set_mono_prefix by blast
qed

section \<open>Lines\<close>

lemma split_inclusive_butlast: "x \<in> set (split_inclusive d s) \<Longrightarrow> d \<notin> set (butlast x)"
proof (induction s arbitrary: x)
  case (Cons c s)
  then show ?case
    by (auto split: if_splits list.splits)
qed simp

lemma str_lines_no_newline:
  assumes "l \<in> set (str_lines s)"
  shows "NL \<notin> set l"
proof -
  obtain x where x: "x \<in> set (split_inclusive NL s)" "l = line_of x"
    using assms by (auto simp: str_lines_def)
  have b: "NL \<notin> set (butlast x)"
    using split_inclusive_butlast [OF x(1)] .
  show ?thesis
  proof (cases "strip_suffix [NL] x")
    case None
    then have "x = [] \<or> last x \<noteq> NL"
      by (simp add: strip_suffix_None_iff suffix_single_iff)
    then have "NL \<notin> set x"
      using b by (cases x rule: rev_cases) auto
    then show ?thesis
      using None by (simp add: x line_of_def)
  next
    case (Some y)
    then have "NL \<notin> set y"
      using b by (auto simp: strip_suffix_Some_iff)
    then show ?thesis
      using Some by (auto simp: x line_of_def strip_suffix_Some_iff split: option.splits)
  qed
qed

lemma push_chars_failed:
  assumes "list_all line_ok ls" "line_buffer p = []" "process_lines p ls = Err e"
  shows "fst (push_chars p (concat (map (\<lambda>l. l @ [NL]) ls) @ rest)) = Err e"
  using assms
proof (induction ls arbitrary: p)
  case (Cons l ls)
  show ?case
  proof (cases "process_line (take_line p) l")
    case (Inl e')
    then show ?thesis
      using Cons.prems push_chars_line [of l p "concat (map (\<lambda>l. l @ [NL]) ls) @ rest"] by simp
  next
    case (Inr q)
    then have "line_buffer q = []"
      using process_line_buffer(1) [OF Inr] by (simp add: take_line_def)
    with Inr Cons show ?thesis
      using push_chars_line [of l p "concat (map (\<lambda>l. l @ [NL]) ls) @ rest"] by simp
  qed
qed simp

text \<open>The parser after all lines but the last, and what remains to be done then.\<close>

lemma push_delta_lines:
  assumes ok: "list_all line_ok (ls @ [l])"
    and push: "push_delta new_parser (join [NL] (ls @ [l])) = (Inr hs, p)"
  obtains p1 where "process_lines new_parser ls = Ok p1" and "line_buffer p1 = []" and "p = p1\<lparr>line_buffer := l\<rparr>"
proof -
  have new: "line_buffer new_parser = []"
    by (simp add: new_parser_def)
  obtain p1 where p1: "process_lines new_parser ls = Ok p1"
  proof (cases "process_lines new_parser ls")
    case (Inl e)
    then show ?thesis
      using push_chars_failed [OF _ new Inl, of l] ok push
      by (auto simp: push_delta_def join_snoc split: prod.splits sum.splits)
  qed (rule that)
  have buf: "line_buffer p1 = []"
    using p1 new by (rule process_lines_buffer)
  have "push_chars new_parser (join [NL] (ls @ [l])) = (Ok (), p1\<lparr>line_buffer := l\<rparr>)"
    using push_chars_lines [OF _ new p1, of l] ok buf by (simp add: join_snoc list_all_iff push_chars_buffer line_ok_def)
  then show thesis
    using that [OF p1 buf] push by (simp add: push_delta_def)
qed

lemma push_delta_accepts:
  assumes ok: "list_all line_ok (ls @ [l])" and p1: "process_lines new_parser ls = Ok p1"
  shows "push_delta new_parser (join [NL] (ls @ [l])) = (Ok (parser_hunks p1), p1\<lparr>line_buffer := l\<rparr>)"
proof -
  have new: "line_buffer new_parser = []"
    by (simp add: new_parser_def)
  from p1 new have "line_buffer p1 = []"
    by (rule process_lines_buffer)
  then show ?thesis
    using push_chars_lines [OF _ new p1, of l] ok
    by (simp add: push_delta_def join_snoc list_all_iff push_chars_buffer line_ok_def)
qed

lemma boundary_lines:
  assumes "check_patch_boundaries_strict ls = Ok ls'"
  obtains f mid l where "ls' = ls" "ls = f # mid @ [l]" "trim f = BEGIN_PATCH_MARKER" "trim l = END_PATCH_MARKER"
proof -
  have ne: "ls \<noteq> []" and ls': "ls' = ls" and ends: "trim (hd ls) = BEGIN_PATCH_MARKER" "trim (last ls) = END_PATCH_MARKER"
    using assms
    by (cases ls; auto simp: check_patch_boundaries_strict_def check_start_and_end_lines_strict_def
        res_bind_def split: if_splits)+
  then have "tl ls \<noteq> []"
    by (cases ls) (auto simp: marker_defs)
  then have "ls = hd ls # butlast (tl ls) @ [last ls]"
    using ne by (metis append_butlast_last_id last_tl list.collapse)
  then show thesis
    using that ls' ends by blast
qed

lemma boundaries_lines:
  assumes "check_patch_boundaries_lenient ls = Ok ls'"
  shows "check_patch_boundaries_strict ls' = Ok ls' \<and> set ls' \<subseteq> set ls"
proof -
  have strict: "b = a \<and> check_patch_boundaries_strict b = Ok b" if "check_patch_boundaries_strict a = Ok b" for a b
    using that boundary_lines [OF that] by metis
  consider "check_patch_boundaries_strict ls = Ok ls'" | "check_patch_boundaries_strict (butlast (tl ls)) = Ok ls'"
    using assms by (auto simp: check_patch_boundaries_lenient_def split: sum.splits if_splits)
  then show ?thesis
  proof cases
    case 1
    then show ?thesis using strict by auto
  next
    case 2
    then show ?thesis
      using strict by (metis in_set_butlastD list.set_sel(2) subsetI tl_Nil butlast.simps(1))
  qed
qed

section \<open>The kept text\<close>

lemma process_lines_first:
  assumes "trim f = trim g"
  shows "process_lines new_parser (f # ls) = process_lines new_parser (g # ls)"
  using assms by (simp add: process_line_def new_parser_def take_line_def)

lemma finish_last:
  assumes "trim l = END_PATCH_MARKER" "trim m = END_PATCH_MARKER"
  shows "finish (p\<lparr>line_buffer := l\<rparr>) = finish (p\<lparr>line_buffer := m\<rparr>)"
proof -
  have "l \<noteq> []" "m \<noteq> []"
    using assms by (auto simp: marker_defs)
  then show ?thesis
    using assms by (simp add: finish_def finish_line_def Let_def)
qed

lemma trim_patch:
  assumes "trim f = BEGIN_PATCH_MARKER" "trim l = END_PATCH_MARKER"
  shows "trim (join [NL] (f # mid @ [l])) = join [NL] (trim_start f # mid @ [trim_end l])"
proof -
  have "join [NL] (x # mid @ [y]) = x @ (NL # concat (map (\<lambda>l. l @ [NL]) mid)) @ y" for x y
    using join_snoc [of "x # mid" y] by simp
  then show ?thesis
    using trim_start_marker(1) [OF assms(1)] trim_end_marker(1) [OF assms(2)]
    by (metis append.assoc trim_def)
qed

lemma parse_patch_cases:
  assumes "parse_patch p = Ok args"
  obtains ls hs parser fin where "check_patch_boundaries_lenient (str_lines (trim p)) = Ok ls"
    and "push_delta new_parser (join [NL] ls) = (Ok hs, parser)" and "finish parser = Ok fin"
    and "args = \<lparr>args_patch = join [NL] ls, args_hunks = parser_hunks fin, args_workdir = None,
        args_environment_id = environment_id fin\<rparr>"
proof -
  obtain ls where ls: "check_patch_boundaries_lenient (str_lines (trim p)) = Ok ls"
    using assms by (auto simp: parse_patch_def parse_patch_text_def PARSE_IN_STRICT_MODE_def Let_def res_bind_Inr_iff)
  obtain r parser where push: "push_delta new_parser (join [NL] ls) = (r, parser)"
    by (cases "push_delta new_parser (join [NL] ls)")
  note run = assms [unfolded parse_patch_def parse_patch_text_def PARSE_IN_STRICT_MODE_def, simplified]
  obtain hs where "r = Ok hs"
    using run ls push by (cases r) (auto simp: res_bind_def)
  moreover from this obtain fin where "finish parser = Ok fin"
    "args = \<lparr>args_patch = join [NL] ls, args_hunks = parser_hunks fin, args_workdir = None,
        args_environment_id = environment_id fin\<rparr>"
    using run ls push by (auto simp: res_bind_def split: sum.splits)
  ultimately show thesis
    using that ls push by blast
qed

lemma line_okI: "NL \<notin> set x \<Longrightarrow> CR \<notin> set x \<Longrightarrow> line_ok x"
  by (auto simp: line_ok_def suffix_def)

lemma set_join_line: "x \<in> set xs \<Longrightarrow> set x \<subseteq> set (join sep xs)"
  by (induction sep xs rule: join.induct) auto

text \<open>
  A patch whose kept text has no carriage return is read again from this text with the same hunks and
  environment: only the white space around the first and the last marker is dropped.
\<close>

lemma reparse:
  assumes parse: "parse_patch p = Ok args" and cr: "CR \<notin> set (args_patch args)"
  shows "\<exists>q. parse_patch (args_patch args) = Ok (args\<lparr>args_patch := q\<rparr>)"
proof -
  obtain ls hs parser fin where ls: "check_patch_boundaries_lenient (str_lines (trim p)) = Ok ls"
    and push: "push_delta new_parser (join [NL] ls) = (Ok hs, parser)" and fin: "finish parser = Ok fin"
    and args: "args = \<lparr>args_patch = join [NL] ls, args_hunks = parser_hunks fin, args_workdir = None,
        args_environment_id = environment_id fin\<rparr>"
    using parse by (rule parse_patch_cases)
  from boundaries_lines [OF ls] obtain f mid l where shape: "ls = f # mid @ [l]"
    and ends: "trim f = BEGIN_PATCH_MARKER" "trim l = END_PATCH_MARKER"
    by (metis boundary_lines)
  have plain: "NL \<notin> set x \<and> CR \<notin> set x" if "x \<in> set ls" for x
    using that boundaries_lines [OF ls] str_lines_no_newline [of x "trim p"] set_join_line [of x ls "[NL]"] cr
    by (auto simp: args)
  then have ok: "list_all line_ok ls"
    by (auto simp: list_all_iff intro: line_okI)
  let ?ls = "trim_start f # mid @ [trim_end l]"
  have ok': "list_all line_ok ?ls"
    using plain trim_start_marker(3) [OF ends(1)] trim_end_marker(3) [OF ends(2)]
    by (auto simp: shape list_all_iff intro!: line_okI)
  have "str_lines (join [NL] ?ls) = ?ls"
    using trim_end_marker(2) [OF ends(2)] ok' by (intro str_lines_join) (auto simp: marker_defs)
  then have lines: "str_lines (trim (join [NL] ls)) = ?ls"
    by (simp add: shape trim_patch [OF ends])
  have "check_patch_boundaries_strict ?ls = Ok ?ls"
    using trim_start_marker(2) [OF ends(1)] trim_end_marker(2) [OF ends(2)]
    by (simp add: check_patch_boundaries_strict_def check_start_and_end_lines_strict_def res_bind_def)
  then have bounds: "check_patch_boundaries_lenient ?ls = Ok ?ls"
    by (simp add: check_patch_boundaries_lenient_def)
  obtain p1 where p1: "process_lines new_parser (f # mid) = Ok p1" "parser = p1\<lparr>line_buffer := l\<rparr>"
    using push_delta_lines [of "f # mid" l hs parser] ok push by (auto simp: shape)
  have "process_lines new_parser (trim_start f # mid) = Ok p1"
    using p1(1) process_lines_first [of f "trim_start f" mid] ends(1) trim_start_marker(2) [OF ends(1)] by simp
  then have push': "push_delta new_parser (join [NL] ?ls) = (Ok (parser_hunks p1), p1\<lparr>line_buffer := trim_end l\<rparr>)"
    using push_delta_accepts [of "trim_start f # mid" "trim_end l" p1] ok' by simp
  have fin': "finish (p1\<lparr>line_buffer := trim_end l\<rparr>) = Ok fin"
    using fin p1(2) finish_last [OF ends(2) trim_end_marker(2) [OF ends(2)], of p1] by simp
  have "parse_patch (join [NL] ls) = Ok (args\<lparr>args_patch := join [NL] ?ls\<rparr>)"
    using lines bounds push' fin'
    by (simp add: parse_patch_def parse_patch_text_def PARSE_IN_STRICT_MODE_def args res_bind_def)
  then show ?thesis
    by (auto simp: args)
qed

end
