(* ===== verification/Patch_Invocation.thy ===== *)
theory Patch_Invocation
  imports Patch_Fs Patch_Reparse
begin

text \<open>
  Recognising a call of \<^verbatim>\<open>apply_patch\<close> and computing the changes that the user is asked to approve
  (\<^verbatim>\<open>apply-patch/src/invocation.rs\<close>). The tree-sitter query that finds the heredoc of a shell script and
  the diff printer \<^verbatim>\<open>similar\<close> are parameters.
\<close>

section \<open>Definitions\<close>

definition APPLY_PATCH_COMMANDS :: "string list" where
  "APPLY_PATCH_COMMANDS = [''apply_patch'', ''applypatch'']"

datatype patch_shell = UnixShell | PowerShell | CmdShell

datatype extract_error =
    CommandDidNotStartWithApplyPatch
  | FailedToLoadBashGrammar string
  | HeredocNotUtf8 string
  | FailedToParsePatchIntoAst
  | FailedToFindHeredocBody

datatype maybe_apply_patch =
    PatchBody apply_patch_args
  | ShellParseError extract_error
  | PatchTextError parse_error
  | NotApplyPatch

definition convention_segments :: "path_convention \<Rightarrow> string \<Rightarrow> string list" where
  "convention_segments convention path =
     (case convention of Posix \<Rightarrow> split_on SLASH path | Windows \<Rightarrow> split_windows path)"

definition classify_shell_name :: "string \<Rightarrow> path_convention \<Rightarrow> string" where
  "classify_shell_name shell convention =
     (let basename = last (convention_segments convention shell)
      in to_ascii_lowercase
           (case rsplit_once CHR ''.'' basename of
              Some (stem, _) \<Rightarrow> if stem = [] then basename else stem
            | None \<Rightarrow> basename))"

definition classify_shell :: "string \<Rightarrow> string \<Rightarrow> path_convention \<Rightarrow> patch_shell option" where
  "classify_shell shell flag convention =
     (let name = classify_shell_name shell convention
      in if name \<in> {''bash'', ''zsh'', ''sh''} \<and> flag \<in> {''-lc'', ''-c''} then Some UnixShell
         else if name \<in> {''pwsh'', ''powershell''} \<and> to_ascii_lowercase flag = ''-command'' then Some PowerShell
         else if name = ''cmd'' \<and> to_ascii_lowercase flag = ''/c'' then Some CmdShell
         else None)"

definition can_skip_flag :: "string \<Rightarrow> string \<Rightarrow> path_convention \<Rightarrow> bool" where
  "can_skip_flag shell flag convention \<longleftrightarrow>
     classify_shell_name shell convention \<in> {''pwsh'', ''powershell''} \<and>
     to_ascii_lowercase flag = ''-noprofile''"

definition parse_shell_script :: "'u url_lib \<Rightarrow> string list \<Rightarrow> 'u \<Rightarrow> (patch_shell \<times> string) option" where
  "parse_shell_script L argv cwd =
     (case infer_path_convention L cwd of
        None \<Rightarrow> None
      | Some convention \<Rightarrow>
          (case argv of
             [shell, flag, script] \<Rightarrow>
               map_option (\<lambda>t. (t, script)) (classify_shell shell flag convention)
           | [shell, skip_flag, flag, script] \<Rightarrow>
               if can_skip_flag shell skip_flag convention
               then map_option (\<lambda>t. (t, script)) (classify_shell shell flag convention)
               else None
           | _ \<Rightarrow> None))"

text \<open>
  The matches of the query on a script, each the list of its captures in order: the name of the capture
  and its text, or the error of text that is not UTF-8. The parser itself may fail.
\<close>

type_synonym captures = "(string \<times> (string, string) result) list"

type_synonym heredoc_query = "string \<Rightarrow> (extract_error, captures list) result"

definition strip_raw_quotes :: "string \<Rightarrow> string" where
  "strip_raw_quotes raw =
     (case strip_prefix [CHR 0x27] raw of
        None \<Rightarrow> raw
      | Some t \<Rightarrow> (case strip_suffix [CHR 0x27] t of Some inner \<Rightarrow> inner | None \<Rightarrow> raw))"

fun scan_captures ::
  "captures \<Rightarrow> string option \<Rightarrow> string option \<Rightarrow> (extract_error, string option \<times> string option) result" where
  "scan_captures [] heredoc cd_path = Ok (heredoc, cd_path)"
| "scan_captures ((name, text) # cs) heredoc cd_path =
     (if name = ''heredoc'' then
        res_bind (map_err HeredocNotUtf8 text) (\<lambda>t. scan_captures cs (Some (trim_end_char NL t)) cd_path)
      else if name = ''cd_path'' then
        res_bind (map_err HeredocNotUtf8 text) (\<lambda>t. scan_captures cs heredoc (Some t))
      else if name = ''cd_raw_string'' then
        res_bind (map_err HeredocNotUtf8 text) (\<lambda>t. scan_captures cs heredoc (Some (strip_raw_quotes t)))
      else scan_captures cs heredoc cd_path)"

fun scan_matches :: "captures list \<Rightarrow> (extract_error, string \<times> string option) result" where
  "scan_matches [] = Err CommandDidNotStartWithApplyPatch"
| "scan_matches (m # ms) =
     res_bind (scan_captures m None None) (\<lambda>(heredoc, cd_path).
       case heredoc of Some body \<Rightarrow> Ok (body, cd_path) | None \<Rightarrow> scan_matches ms)"

definition extract_apply_patch_from_bash ::
  "heredoc_query \<Rightarrow> string \<Rightarrow> (extract_error, string \<times> string option) result" where
  "extract_apply_patch_from_bash query src = res_bind (query src) scan_matches"

definition extract_apply_patch_from_shell ::
  "heredoc_query \<Rightarrow> patch_shell \<Rightarrow> string \<Rightarrow> (extract_error, string \<times> string option) result" where
  "extract_apply_patch_from_shell query shell script = extract_apply_patch_from_bash query script"

definition maybe_parse_apply_patch ::
  "'u url_lib \<Rightarrow> heredoc_query \<Rightarrow> string list \<Rightarrow> 'u \<Rightarrow> maybe_apply_patch" where
  "maybe_parse_apply_patch L query argv cwd =
     (let direct = (case argv of [cmd, body] \<Rightarrow> if cmd \<in> set APPLY_PATCH_COMMANDS then Some body else None | _ \<Rightarrow> None)
      in case direct of
           Some body \<Rightarrow> (case parse_patch body of Inr source \<Rightarrow> PatchBody source | Inl e \<Rightarrow> PatchTextError e)
         | None \<Rightarrow>
             (case parse_shell_script L argv cwd of
                None \<Rightarrow> NotApplyPatch
              | Some (shell, script) \<Rightarrow>
                  (case extract_apply_patch_from_shell query shell script of
                     Inr (body, workdir) \<Rightarrow>
                       (case parse_patch body of
                          Inr source \<Rightarrow> PatchBody (source\<lparr>args_workdir := workdir\<rparr>)
                        | Inl e \<Rightarrow> PatchTextError e)
                   | Inl e \<Rightarrow> if e = CommandDidNotStartWithApplyPatch then NotApplyPatch else ShellParseError e)))"

subsection \<open>The changes to approve\<close>

datatype 'u proposed_change =
    ProposeAdd string
  | ProposeDelete string
  | ProposeUpdate string "'u option" string

record 'u apply_patch_action =
  action_changes :: "'u \<rightharpoonup> 'u proposed_change"
  action_patch :: string
  action_cwd :: 'u

type_synonym text_diff = "string \<Rightarrow> string \<Rightarrow> nat \<Rightarrow> string"

definition unified_diff_from_chunks ::
  "'u url_lib \<Rightarrow> ('u, 's) executor_fs \<Rightarrow> text_diff \<Rightarrow> 'u \<Rightarrow> update_file_chunk list \<Rightarrow> 's \<Rightarrow>
   (hunk_failure, string \<times> string \<times> string) result" where
  "unified_diff_from_chunks L fs diff u chunks s =
     res_bind (derive_new_contents_from_chunks L fs u chunks s)
       (\<lambda>(original, new). Ok (diff original new 1, original, new))"

definition join_uri :: "'u url_lib \<Rightarrow> 'u \<Rightarrow> string \<Rightarrow> (hunk_failure, 'u) result" where
  "join_uri L cwd path = map_err uri_failure (path_uri_join L cwd path)"

definition propose_change ::
  "'u url_lib \<Rightarrow> ('u, 's) executor_fs \<Rightarrow> text_diff \<Rightarrow> 'u \<Rightarrow> 'u \<Rightarrow> hunk \<Rightarrow> 's \<Rightarrow>
   (hunk_failure, 'u proposed_change) result" where
  "propose_change L fs diff cwd u h s =
     (case h of
        AddFile _ contents \<Rightarrow> Ok (ProposeAdd contents)
      | DeleteFile _ \<Rightarrow>
          (case read_file_text fs u s of
             Inr content \<Rightarrow> Ok (ProposeDelete content)
           | Inl e \<Rightarrow> Err (ChunkFailure (PatchIoError (''Failed to read '' @ inferred_native_path_string L u) e)))
      | UpdateFile _ move_path chunks \<Rightarrow>
          res_bind (unified_diff_from_chunks L fs diff u chunks s) (\<lambda>(unified, _, new).
            case move_path of
              None \<Rightarrow> Ok (ProposeUpdate unified None new)
            | Some dest \<Rightarrow> res_bind (join_uri L cwd dest) (\<lambda>d. Ok (ProposeUpdate unified (Some d) new))))"

fun propose_changes ::
  "'u url_lib \<Rightarrow> ('u, 's) executor_fs \<Rightarrow> text_diff \<Rightarrow> 'u \<Rightarrow> hunk list \<Rightarrow> ('u \<rightharpoonup> 'u proposed_change) \<Rightarrow> 's \<Rightarrow>
   (hunk_failure, 'u \<rightharpoonup> 'u proposed_change) result" where
  "propose_changes L fs diff cwd [] changes s = Ok changes"
| "propose_changes L fs diff cwd (h # hs) changes s =
     res_bind (map_err uri_failure (resolve_path L cwd h)) (\<lambda>u.
     res_bind (propose_change L fs diff cwd u h s) (\<lambda>c.
       propose_changes L fs diff cwd hs (changes(u \<mapsto> c)) s))"

definition try_verify_apply_patch_args ::
  "'u url_lib \<Rightarrow> ('u, 's) executor_fs \<Rightarrow> text_diff \<Rightarrow> apply_patch_args \<Rightarrow> 'u \<Rightarrow> 's \<Rightarrow>
   (hunk_failure, 'u apply_patch_action) result" where
  "try_verify_apply_patch_args L fs diff args cwd s =
     res_bind (case args_workdir args of Some dir \<Rightarrow> join_uri L cwd dir | None \<Rightarrow> Ok cwd) (\<lambda>effective_cwd.
     res_bind (propose_changes L fs diff effective_cwd (args_hunks args) Map.empty s) (\<lambda>changes.
       Ok \<lparr>action_changes = changes, action_patch = args_patch args, action_cwd = effective_cwd\<rparr>))"

datatype 'u maybe_verified =
    VerifiedBody "'u apply_patch_action"
  | VerifiedShellParseError extract_error
  | CorrectnessError apply_patch_error
  | VerifiedNotApplyPatch
  | VerifyPanicked

definition correctness_error :: "hunk_failure \<Rightarrow> 'u maybe_verified" where
  "correctness_error f =
     (case f of
        ChunkFailure e \<Rightarrow> CorrectnessError e
      | UriFailure e \<Rightarrow> CorrectnessError (PathUriError e)
      | _ \<Rightarrow> VerifyPanicked)"

definition verify_apply_patch_args ::
  "'u url_lib \<Rightarrow> ('u, 's) executor_fs \<Rightarrow> text_diff \<Rightarrow> apply_patch_args \<Rightarrow> 'u \<Rightarrow> 's \<Rightarrow> 'u maybe_verified" where
  "verify_apply_patch_args L fs diff args cwd s =
     (case try_verify_apply_patch_args L fs diff args cwd s of
        Inr action \<Rightarrow> VerifiedBody action
      | Inl f \<Rightarrow> correctness_error f)"

definition maybe_parse_apply_patch_verified ::
  "'u url_lib \<Rightarrow> ('u, 's) executor_fs \<Rightarrow> text_diff \<Rightarrow> heredoc_query \<Rightarrow> string list \<Rightarrow> 'u \<Rightarrow> 's \<Rightarrow>
   'u maybe_verified" where
  "maybe_parse_apply_patch_verified L fs diff query argv cwd s =
     (if (case argv of [body] \<Rightarrow> is_ok (parse_patch body) | _ \<Rightarrow> False) \<or>
         (case parse_shell_script L argv cwd of Some (_, script) \<Rightarrow> is_ok (parse_patch script) | None \<Rightarrow> False)
      then CorrectnessError ImplicitInvocation
      else case maybe_parse_apply_patch L query argv cwd of
          PatchBody args \<Rightarrow> verify_apply_patch_args L fs diff args cwd s
        | ShellParseError e \<Rightarrow> VerifiedShellParseError e
        | PatchTextError e \<Rightarrow> CorrectnessError (PatchParseError e)
        | NotApplyPatch \<Rightarrow> VerifiedNotApplyPatch)"

section \<open>Proposed changes and applied hunks\<close>

text \<open>That a proposed change was carried out, between the files before and after; and the paths it touches.\<close>

fun carried_out :: "'u \<times> 'u proposed_change \<Rightarrow> 'u files \<Rightarrow> 'u files \<Rightarrow> bool" where
  "carried_out (u, ProposeAdd content) m m' \<longleftrightarrow> m' u = Some content"
| "carried_out (u, ProposeDelete content) m m' \<longleftrightarrow> m u = Some content \<and> m' u = None"
| "carried_out (u, ProposeUpdate unified None new) m m' \<longleftrightarrow> m' u = Some new"
| "carried_out (u, ProposeUpdate unified (Some dest) new) m m' \<longleftrightarrow> m' u = None \<and> m' dest = Some new"

fun change_paths :: "'u \<times> 'u proposed_change \<Rightarrow> 'u list" where
  "change_paths (u, ProposeUpdate unified (Some dest) new) = [u, dest]"
| "change_paths (u, c) = [u]"

lemma carried_out_cong:
  assumes "carried_out p m m'" and "\<forall>v \<in> set (change_paths p). m'' v = m' v"
  shows "carried_out p m m''"
  using assms by (cases "(p, m, m')" rule: carried_out.cases) auto

text \<open>What a hunk that succeeds does to the files.\<close>

lemma apply_add_effect:
  assumes "fs_laws fs files" and "apply_add L fs u contents d s = (Inr x, d', s')"
  shows "files s' = (files s)(u \<mapsto> contents)"
  using assms(2) write_retry_Ok [OF assms(1)]
  by (auto simp: apply_add_def Let_def split: prod.splits sum.splits)

lemma remove_checked_effect:
  assumes "fs_laws fs files" and "remove_checked L fs what u content d s = (Inr x, d', s')"
  shows "files s' = (files s)(u := None)"
  using remove_checked_cases(3) [OF assms] by simp

lemma apply_delete_effect:
  assumes "fs_laws fs files" and "apply_delete L fs u d s = (Inr x, d', s')"
  shows "files s' = (files s)(u := None)"
  using assms(2) remove_checked_effect [OF assms(1)]
  by (auto simp: apply_delete_def Let_def split: prod.splits sum.splits)

lemma apply_move_effect:
  assumes "fs_laws fs files" and "apply_move L fs u dest old new d s = (Inr x, d', s')"
  shows "files s' = (files s)(dest \<mapsto> new, u := None)"
proof -
  obtain y s1 where w: "write_file_with_missing_parent_retry L fs dest new s = (Inr y, s1)"
    using assms(2) by (auto simp: apply_move_def Let_def split: prod.splits sum.splits)
  obtain what content d2 z d3 where r: "remove_checked L fs what u content d2 s1 = (Inr z, d3, s')"
    using assms(2) w by (auto simp: apply_move_def Let_def split: prod.splits sum.splits)
  show ?thesis
    using write_retry_Ok [OF assms(1) w] remove_checked_effect [OF assms(1) r] by simp
qed

lemma apply_update_effect:
  assumes "fs_laws fs files" and "apply_update L fs cwd u move_path chunks d s = (Inr x, d', s')"
  obtains old new where "derive_new_contents_from_chunks L fs u chunks s = Ok (old, new)"
    and "move_path = None \<Longrightarrow> files s' = (files s)(u \<mapsto> new)"
    and "\<And>t dest. move_path = Some t \<Longrightarrow> path_uri_join L cwd t = Ok dest \<Longrightarrow>
      files s' = (files s)(dest \<mapsto> new, u := None)"
proof -
  obtain old new where derived: "derive_new_contents_from_chunks L fs u chunks s = Ok (old, new)"
    using assms(2) by (auto simp: apply_update_def Let_def split: sum.splits)
  moreover have "files s' = (files s)(u \<mapsto> new)" if "move_path = None"
    using assms(2) derived that fs_lawsD(3) [OF assms(1)]
    by (auto simp: apply_update_def Let_def io_context_def split: prod.splits sum.splits)
  moreover have "files s' = (files s)(dest \<mapsto> new, u := None)"
    if "move_path = Some t" "path_uri_join L cwd t = Ok dest" for t dest
    using assms(2) derived that apply_move_effect [OF assms(1)] by (auto simp: apply_update_def Let_def)
  ultimately show thesis
    using that by blast
qed

text \<open>The new contents of an update depend on the file alone, not on the rest of the state.\<close>

lemma derive_same_file:
  assumes "fs_laws fs files" and "files s u = files s0 u"
    and "derive_new_contents_from_chunks L fs u chunks s = Ok (old, new)"
    and "derive_new_contents_from_chunks L fs u chunks s0 = Ok (old0, new0)"
  shows "new = new0"
proof -
  have "old = old0"
    using derive_from_chunks_Ok [OF assms(3)] derive_from_chunks_Ok [OF assms(4)] fs_lawsD(1) [OF assms(1)] assms(2)
    by fastforce
  then show ?thesis
    using assms(3,4) by (auto simp: derive_new_contents_from_chunks_def Let_def split: sum.splits option.splits)
qed

lemma apply_hunk_carries_out:
  assumes "fs_laws fs files" and "resolve_path L cwd h = Ok u" and "propose_change L fs diff cwd u h s0 = Ok c"
    and "apply_hunk L fs cwd h d s = (Inr x, d', s')" and "files s u = files s0 u" and "distinct (change_paths (u, c))"
  shows "carried_out (u, c) (files s0) (files s')"
    and "\<forall>v. v \<notin> set (change_paths (u, c)) \<longrightarrow> files s' v = files s v"
proof -
  have "carried_out (u, c) (files s0) (files s') \<and> (\<forall>v. v \<notin> set (change_paths (u, c)) \<longrightarrow> files s' v = files s v)"
  proof (cases h)
    case (AddFile path contents)
    then show ?thesis
      using assms(2-4) apply_add_effect [OF assms(1)] by (auto simp: apply_hunk_def propose_change_def)
  next
    case (DeleteFile path)
    then show ?thesis
      using assms(2-4) apply_delete_effect [OF assms(1)] fs_lawsD(1) [OF assms(1)]
      by (auto simp: apply_hunk_def propose_change_def split: sum.splits)
  next
    case (UpdateFile path move_path chunks)
    then obtain old0 new0 where d0: "derive_new_contents_from_chunks L fs u chunks s0 = Ok (old0, new0)"
      using assms(3) by (auto simp: propose_change_def unified_diff_from_chunks_def res_bind_Inr_iff)
    have run: "apply_update L fs cwd u move_path chunks d s = (Inr x, d', s')"
      using assms(2,4) UpdateFile by (simp add: apply_hunk_def)
    obtain old new where eff: "derive_new_contents_from_chunks L fs u chunks s = Ok (old, new)"
      "move_path = None \<Longrightarrow> files s' = (files s)(u \<mapsto> new)"
      "\<And>t dest. move_path = Some t \<Longrightarrow> path_uri_join L cwd t = Ok dest \<Longrightarrow> files s' = (files s)(dest \<mapsto> new, u := None)"
      using apply_update_effect [OF assms(1) run] by metis
    have "new = new0"
      using assms(1,5) eff(1) d0 by (rule derive_same_file)
    then show ?thesis
      using assms(3,6) UpdateFile d0 eff(2,3)
      by (auto simp: propose_change_def unified_diff_from_chunks_def join_uri_def res_bind_Inr_iff
          map_err_Inr_iff split: option.splits)
  qed
  then show "carried_out (u, c) (files s0) (files s')"
    and "\<forall>v. v \<notin> set (change_paths (u, c)) \<longrightarrow> files s' v = files s v"
    by auto
qed

text \<open>The proposals of a patch, one for each hunk, in order.\<close>

definition proposals ::
  "'u url_lib \<Rightarrow> ('u, 's) executor_fs \<Rightarrow> text_diff \<Rightarrow> 'u \<Rightarrow> 's \<Rightarrow> hunk list \<Rightarrow> ('u \<times> 'u proposed_change) list \<Rightarrow> bool" where
  "proposals L fs diff cwd s hs ps =
     list_all2 (\<lambda>h p. resolve_path L cwd h = Ok (fst p) \<and> propose_change L fs diff cwd (fst p) h s = Ok (snd p)) hs ps"

lemma propose_changes_proposals:
  "propose_changes L fs diff cwd hs changes s = Ok changes' \<Longrightarrow>
   \<exists>ps. proposals L fs diff cwd s hs ps \<and> changes' = fold (\<lambda>(u, c) m. m(u \<mapsto> c)) ps changes"
proof (induction hs arbitrary: changes)
  case Nil
  then show ?case
    by (auto simp: proposals_def)
next
  case (Cons h hs)
  then obtain u c where h: "resolve_path L cwd h = Ok u" "propose_change L fs diff cwd u h s = Ok c"
    and "propose_changes L fs diff cwd hs (changes(u \<mapsto> c)) s = Ok changes'"
    by (auto simp: res_bind_Inr_iff map_err_Inr_iff)
  then obtain ps where "proposals L fs diff cwd s hs ps" "changes' = fold (\<lambda>(u, c) m. m(u \<mapsto> c)) ps (changes(u \<mapsto> c))"
    using Cons.IH by blast
  with h have "proposals L fs diff cwd s (h # hs) ((u, c) # ps)"
    "changes' = fold (\<lambda>(u, c) m. m(u \<mapsto> c)) ((u, c) # ps) changes"
    by (auto simp: proposals_def)
  then show ?case by blast
qed

lemma fold_upd_in: "fold (\<lambda>(u, c) m. m(u \<mapsto> c)) ps m u = Some c \<Longrightarrow> m u = Some c \<or> (u, c) \<in> set ps"
proof (induction ps arbitrary: m)
  case (Cons p ps)
  then show ?case
    using Cons.IH [of "m(fst p \<mapsto> snd p)"] by (cases p) (auto split: if_splits)
qed simp

lemma fold_upd_keep: "u \<notin> fst ` set ps \<Longrightarrow> fold (\<lambda>(u, c) m. m(u \<mapsto> c)) ps m u = m u"
  by (induction ps arbitrary: m) auto

lemma fold_upd_distinct:
  "distinct (map fst ps) \<Longrightarrow> (u, c) \<in> set ps \<Longrightarrow> fold (\<lambda>(u, c) m. m(u \<mapsto> c)) ps m u = Some c"
  by (induction ps arbitrary: m) (auto simp: fold_upd_keep)

lemma fst_in_change_paths: "fst p \<in> set (change_paths p)"
  by (cases p rule: change_paths.cases) auto

lemma distinct_change_paths:
  "distinct (concat (map change_paths ps)) \<Longrightarrow> distinct (map fst ps)"
proof (induction ps)
  case (Cons p ps)
  have "fst q \<noteq> fst p" if "q \<in> set ps" for q
  proof -
    have "set (change_paths p) \<inter> set (change_paths q) = {}"
      using Cons.prems that by auto
    then show ?thesis
      using fst_in_change_paths [of p] fst_in_change_paths [of q] by (metis disjoint_iff)
  qed
  then have "fst p \<notin> fst ` set ps"
    by (metis imageE)
  then show ?case
    using Cons by simp
qed simp

lemma apply_list_carries_out:
  assumes "fs_laws fs files"
  shows "proposals L fs diff cwd s0 hs ps \<Longrightarrow> apply_hunk_list L fs cwd hs a d s = (Inr x, d', s') \<Longrightarrow>
    distinct (concat (map change_paths ps)) \<Longrightarrow> \<forall>v \<in> set (concat (map change_paths ps)). files s v = files s0 v \<Longrightarrow>
    (\<forall>p \<in> set ps. carried_out p (files s0) (files s')) \<and>
    (\<forall>v. v \<notin> set (concat (map change_paths ps)) \<longrightarrow> files s' v = files s v)"
proof (induction hs arbitrary: ps a d s)
  case Nil
  then show ?case
    by (auto simp: proposals_def)
next
  case (Cons h hs)
  obtain u c ps' where ps: "ps = (u, c) # ps'" "proposals L fs diff cwd s0 hs ps'"
    and h: "resolve_path L cwd h = Ok u" "propose_change L fs diff cwd u h s0 = Ok c"
    using Cons.prems(1) by (auto simp: proposals_def list_all2_Cons1)
  obtain r d1 s1 where step: "apply_hunk L fs cwd h d s = (r, d1, s1)"
    by (cases "apply_hunk L fs cwd h d s")
  then obtain y where r: "r = Inr y" and rest: "apply_hunk_list L fs cwd hs (add_affected h a) d1 s1 = (Inr x, d', s')"
    using Cons.prems(2) by (cases r) auto
  have same: "files s u = files s0 u" and dist: "distinct (change_paths (u, c))"
    using Cons.prems(3,4) fst_in_change_paths [of "(u, c)"] by (auto simp: ps)
  note eff = apply_hunk_carries_out [OF assms h step [unfolded r] same dist]
  have disj: "v \<notin> set (change_paths (u, c))" if "v \<in> set (concat (map change_paths ps'))" for v
    using Cons.prems(3) that by (auto simp: ps)
  have "\<forall>v \<in> set (concat (map change_paths ps')). files s1 v = files s0 v"
    using eff(2) disj Cons.prems(4) by (auto simp: ps)
  then have IH: "(\<forall>p \<in> set ps'. carried_out p (files s0) (files s')) \<and>
      (\<forall>v. v \<notin> set (concat (map change_paths ps')) \<longrightarrow> files s' v = files s1 v)"
    using Cons.IH [OF ps(2) rest] Cons.prems(3) by (simp add: ps)
  have "carried_out (u, c) (files s0) (files s')"
    using eff(1) by (rule carried_out_cong) (use IH disj in blast)
  then show ?case
    using IH eff(2) by (auto simp: ps)
qed

text \<open>The paths of a hunk: the file it names, and where an update moves it.\<close>

definition hunk_targets :: "'u url_lib \<Rightarrow> 'u \<Rightarrow> hunk \<Rightarrow> (path_uri_error, 'u) result list" where
  "hunk_targets L cwd h =
     resolve_path L cwd h # (case h of UpdateFile _ (Some dest) _ \<Rightarrow> [path_uri_join L cwd dest] | _ \<Rightarrow> [])"

lemma proposal_targets:
  assumes "resolve_path L cwd h = Ok u" and "propose_change L fs diff cwd u h s = Ok c"
  shows "hunk_targets L cwd h = map Ok (change_paths (u, c))"
  using assms
  by (cases h) (auto simp: hunk_targets_def propose_change_def join_uri_def res_bind_Inr_iff map_err_Inr_iff
      split: sum.splits option.splits)

lemma proposals_targets:
  assumes "proposals L fs diff cwd s hs ps"
  shows "concat (map (hunk_targets L cwd) hs) = map Ok (concat (map change_paths ps))"
  using assms unfolding proposals_def
  by (induction rule: list_all2_induct) (auto simp: proposal_targets map_concat)

text \<open>
  What is shown for approval: every change of the table was carried out, and a file that appears
  neither as a key of the table nor as the destination of a move is as before.
\<close>

definition shown_changes_applied ::
  "('u \<rightharpoonup> 'u proposed_change) \<Rightarrow> 'u files \<Rightarrow> 'u files \<Rightarrow> bool" where
  "shown_changes_applied changes m m' \<longleftrightarrow>
     (\<forall>u c. changes u = Some c \<longrightarrow> carried_out (u, c) m m') \<and>
     (\<forall>v. changes v = None \<and> (\<forall>u unified new. changes u \<noteq> Some (ProposeUpdate unified (Some v) new)) \<longrightarrow> m' v = m v)"

lemma proposed_changes_applied:
  assumes "fs_laws fs files" and "propose_changes L fs diff cwd hunks Map.empty s = Ok changes"
    and "apply_hunks_to_files L fs cwd hunks d s = (Inr a, d', s')"
    and "distinct (concat (map (hunk_targets L cwd) hunks))"
  shows "shown_changes_applied changes (files s) (files s')"
proof -
  obtain ps where ps: "proposals L fs diff cwd s hunks ps" "changes = fold (\<lambda>(u, c) m. m(u \<mapsto> c)) ps Map.empty"
    using propose_changes_proposals [OF assms(2)] by blast
  have dist: "distinct (concat (map change_paths ps))"
    using assms(4) proposals_targets [OF ps(1)] by (simp add: distinct_map)
  obtain a0 where "apply_hunk_list L fs cwd hunks a0 d s = (Inr a, d', s')"
    using assms(3) by (auto simp: apply_hunks_to_files_def split: if_splits)
  from apply_list_carries_out [OF assms(1) ps(1) this dist]
  have carried: "\<forall>p \<in> set ps. carried_out p (files s) (files s')"
    and kept: "\<forall>v. v \<notin> set (concat (map change_paths ps)) \<longrightarrow> files s' v = files s v"
    by auto
  have entry: "changes u = Some c" if "(u, c) \<in> set ps" for u c
    using fold_upd_distinct [OF distinct_change_paths [OF dist] that] by (simp add: ps(2))
  have "v \<notin> set (concat (map change_paths ps))"
    if "changes v = None" "\<forall>u unified new. changes u \<noteq> Some (ProposeUpdate unified (Some v) new)" for v
  proof
    assume "v \<in> set (concat (map change_paths ps))"
    then obtain p where p: "p \<in> set ps" "v \<in> set (change_paths p)"
      by auto
    then show False
      using that entry by (cases p rule: change_paths.cases) fastforce+
  qed
  moreover have "(u, c) \<in> set ps" if "changes u = Some c" for u c
    using fold_upd_in [of ps Map.empty] that by (simp add: ps(2))
  ultimately show ?thesis
    using carried kept by (auto simp: shown_changes_applied_def)
qed

section \<open>From the command to the files\<close>

lemma verified_body_cases:
  assumes "maybe_parse_apply_patch_verified L fs diff query argv cwd s = VerifiedBody action"
  obtains body source where "parse_patch body = Ok source" and "action_patch action = args_patch source"
    and "propose_changes L fs diff (action_cwd action) (args_hunks source) Map.empty s = Ok (action_changes action)"
proof -
  obtain args where args: "maybe_parse_apply_patch L query argv cwd = PatchBody args"
    and verified: "try_verify_apply_patch_args L fs diff args cwd s = Ok action"
    using assms
    by (auto simp: maybe_parse_apply_patch_verified_def verify_apply_patch_args_def correctness_error_def
        split: if_splits maybe_apply_patch.splits sum.splits hunk_failure.splits)
  obtain body source where source: "parse_patch body = Ok source" "args_patch args = args_patch source"
    "args_hunks args = args_hunks source"
    using args
    by (fastforce simp: maybe_parse_apply_patch_def Let_def split: option.splits sum.splits prod.splits if_splits)
  then show thesis
    using that [OF source(1)] verified by (auto simp: try_verify_apply_patch_args_def res_bind_Inr_iff)
qed

lemma apply_patch_cases:
  assumes "apply_patch L fs io_text out err cwd patch s w = (PatchApplied d, s', w')"
  obtains args a where "parse_patch patch = Ok args"
    and "apply_hunks_to_files L fs cwd (args_hunks args) empty_delta s = (Ok a, d, s')"
proof -
  obtain args where args: "parse_patch patch = Ok args"
    and run: "apply_hunks L fs io_text out err cwd (args_hunks args) s w = (PatchApplied d, s', w')"
    using assms by (auto simp: apply_patch_def split: sum.splits prod.splits)
  obtain r d1 s1 where h: "apply_hunks_to_files L fs cwd (args_hunks args) empty_delta s = (r, d1, s1)"
    by (cases "apply_hunks_to_files L fs cwd (args_hunks args) empty_delta s")
  then obtain a where "r = Ok a" "d1 = d" "s1 = s'"
    using run by (auto simp: apply_hunks_def split: sum.splits prod.splits hunk_failure.splits)
  then show thesis
    using that args h by blast
qed

text \<open>The hunks that were verified are the hunks that are applied.\<close>

lemma verified_proposals:
  assumes verified: "maybe_parse_apply_patch_verified L fs diff query argv cwd s = VerifiedBody action"
    and "CR \<notin> set (action_patch action)" and args: "parse_patch (action_patch action) = Ok args"
  shows "propose_changes L fs diff (action_cwd action) (args_hunks args) Map.empty s = Ok (action_changes action)"
proof -
  obtain body source where source: "parse_patch body = Ok source" "action_patch action = args_patch source"
    and changes: "propose_changes L fs diff (action_cwd action) (args_hunks source) Map.empty s = Ok (action_changes action)"
    using verified by (rule verified_body_cases)
  have "args_hunks args = args_hunks source"
    using reparse [OF source(1)] assms(2) args source(2) by auto
  then show ?thesis
    using changes by simp
qed

text \<open>
  C5: The user approves what is then done. When a command is recognised as a patch and verified, the
  table of changes shown for approval is what applying the kept patch text does: every added, deleted,
  updated and moved file ends as the table says, and every file that the table does not mention keeps
  its contents. The hunks have to name different files, and the text must not contain a carriage return.
\<close>

theorem approved_patch_is_applied:
  assumes "fs_laws fs files"
    and verified: "maybe_parse_apply_patch_verified L fs diff query argv cwd s = VerifiedBody action"
    and "CR \<notin> set (action_patch action)"
    and "parse_patch (action_patch action) = Ok args"
    and "distinct (concat (map (hunk_targets L (action_cwd action)) (args_hunks args)))"
    and applied: "apply_patch L fs io_text out err (action_cwd action) (action_patch action) s w = (PatchApplied d, s', w')"
  shows "shown_changes_applied (action_changes action) (files s) (files s')"
  using verified_proposals [OF verified assms(3,4)] apply_patch_cases [OF applied] assms(4,5)
    proposed_changes_applied [OF assms(1)] by fastforce

definition sample_patch :: string where
  "sample_patch = join [NL]
     [''*** Begin Patch'', ''*** Add File: b'', ''+n'', ''*** Update File: a'', ''*** Move to: c'', ''@@'',
      ''-x'', ''+y'', ''*** End Patch'']"

definition no_writer :: "unit line_writer" where
  "no_writer line w = (Ok (), w)"

definition sample_verified :: "small_url maybe_verified" where
  "sample_verified = maybe_parse_apply_patch_verified small_lib mem_fs (\<lambda>_ _ _. ''diff'') (\<lambda>_. Ok [])
     [''apply_patch'', sample_patch] sample_cwd sample_files"

theorem approved_patch_is_applied_witness:
  "\<exists>action d s'. sample_verified = VerifiedBody action \<and>
     apply_patch small_lib mem_fs (\<lambda>_. ''io'') no_writer no_writer (action_cwd action) (action_patch action)
       sample_files () = (PatchApplied d, s', ()) \<and>
     shown_changes_applied (action_changes action) sample_files s'"
proof -
  let ?args = "projr (parse_patch sample_patch)"
  let ?run = "apply_patch small_lib mem_fs (\<lambda>_. ''io'') no_writer no_writer sample_cwd sample_patch sample_files ()"
  have facts: "(case sample_verified of VerifiedBody action \<Rightarrow> action_patch action = sample_patch \<and> action_cwd action = sample_cwd
        | _ \<Rightarrow> False) \<and> is_ok (parse_patch sample_patch) \<and> CR \<notin> set sample_patch \<and>
    distinct (concat (map (hunk_targets small_lib sample_cwd) (args_hunks ?args))) \<and>
    (case ?run of (PatchApplied d, s', w) \<Rightarrow> True | _ \<Rightarrow> False)"
    by code_simp
  then obtain action where action: "sample_verified = VerifiedBody action" "action_patch action = sample_patch"
    "action_cwd action = sample_cwd"
    by (auto split: maybe_verified.splits)
  moreover obtain args where "parse_patch sample_patch = Ok args" "args = ?args"
    using facts by (cases "parse_patch sample_patch") auto
  moreover obtain d s' where "?run = (PatchApplied d, s', ())"
    using facts by (auto split: prod.splits patch_result.splits)
  ultimately show ?thesis
    using facts approved_patch_is_applied [OF mem_fs_laws, of small_lib "\<lambda>_ _ _. ''diff''" "\<lambda>_. Ok []"
        "[''apply_patch'', sample_patch]" sample_cwd sample_files action args "\<lambda>_. ''io''" no_writer no_writer "()" d s' "()"]
    by (auto simp: sample_verified_def)
qed

section \<open>Where approval and application differ\<close>

definition verify_and_apply :: "string \<Rightarrow> small_url files \<Rightarrow> small_url proposed_change option \<times> string option" where
  "verify_and_apply patch m =
     (case maybe_parse_apply_patch_verified small_lib mem_fs (\<lambda>_ _ _. ''diff'') (\<lambda>_. Ok []) [''apply_patch'', patch]
             sample_cwd m of
        VerifiedBody action \<Rightarrow>
          (case apply_patch small_lib mem_fs (\<lambda>_. ''io'') no_writer no_writer (action_cwd action) (action_patch action) m () of
             (PatchApplied _, m', _) \<Rightarrow> (action_changes action (None, ''w/a''), m' (None, ''w/a''))
           | _ \<Rightarrow> (None, None))
      | _ \<Rightarrow> (None, None))"

text \<open>
  The table has one entry for a file, computed from the contents before the patch. With two hunks for
  one file it shows the second hunk alone, whereas the application carries out both: here the approved
  contents keep the line that the first hunk replaces.
\<close>

lemma second_hunk_hides_first:
  "verify_and_apply (join [NL]
       [''*** Begin Patch'', ''*** Update File: a'', ''@@'', ''-x'', ''+y'', ''*** Update File: a'', ''@@'',
        ''-z'', ''+w'', ''*** End Patch'']) [(None, ''w/a'') \<mapsto> join [NL] [''x'', ''z'', []]] =
     (Some (ProposeUpdate ''diff'' None (join [NL] [''x'', ''w'', []])), Some (join [NL] [''y'', ''w'', []]))"
  by code_simp

text \<open>
  A move can be hidden in the same way: after a hunk that moves the file, a hunk that adds the old path
  again replaces the entry of the table, and the destination of the move is shown nowhere.
\<close>

definition hidden_move_patch :: string where
  "hidden_move_patch = join [NL]
     [''*** Begin Patch'', ''*** Update File: a'', ''*** Move to: ../o'', ''@@'', ''-x'', ''+y'',
      ''*** Add File: a'', ''+n'', ''*** End Patch'']"

lemma add_hides_move:
  "case maybe_parse_apply_patch_verified small_lib mem_fs (\<lambda>_ _ _. ''diff'') (\<lambda>_. Ok []) [''apply_patch'', hidden_move_patch]
          sample_cwd sample_files of
     VerifiedBody action \<Rightarrow>
       action_changes action (None, ''w/a'') = Some (ProposeAdd (''n'' @ [NL])) \<and>
       action_changes action (None, ''o'') = None \<and>
       (case apply_patch small_lib mem_fs (\<lambda>_. ''io'') no_writer no_writer (action_cwd action) (action_patch action) sample_files () of
          (PatchApplied _, m', _) \<Rightarrow> m' (None, ''o'') = Some (''y'' @ [NL])
        | _ \<Rightarrow> False)
   | _ \<Rightarrow> False"
  by code_simp

text \<open>
  Reading a patch removes up to two carriage returns from the end of a line, but the kept text has lost
  only one. A third one is therefore part of the approved contents and is gone from the file.
\<close>

lemma carriage_return_lost_after_approval:
  "verify_and_apply (join [NL]
       [''*** Begin Patch'', ''*** Add File: a'', ''+x'' @ [CR, CR, CR], ''*** End Patch'']) Map.empty =
     (Some (ProposeAdd (''x'' @ [CR, NL])), Some (''x'' @ [NL]))"
  by code_simp

end
