(* ===== verification/Sandbox_Policy.thy ===== *)
theory Sandbox_Policy
  imports Permissions "HOL-Library.Product_Lexorder"
begin

text \<open>
  The file system sandbox policy (\<^verbatim>\<open>protocol/src/permissions.rs\<close>) and the legacy sandbox policy
  (\<^verbatim>\<open>protocol/src/protocol.rs\<close>): how the entries of a policy resolve to paths, which access a path has,
  and the roots that are handed to the sandboxes. What the code asks the operating system is the record
  \<open>os_view\<close>; the glob compiler \<^verbatim>\<open>globset\<close> is a parameter.
\<close>

section \<open>Operating system\<close>

text \<open>
  \<open>os_symlink\<close> is \<^verbatim>\<open>symlink_metadata\<close>: whether the path is a symbolic link, or \<open>None\<close> when it cannot be
  examined.
\<close>

record os_view =
  os_host :: host
  os_tmpdir :: "string option"
  os_is_dir :: "string \<Rightarrow> bool"
  os_is_file :: "string \<Rightarrow> bool"
  os_exists :: "string \<Rightarrow> bool"
  os_symlink :: "string \<Rightarrow> bool option"
  os_canonicalize :: "string \<Rightarrow> string option"
  os_read :: "string \<Rightarrow> string option"

text \<open>The ancestors of an absolute path, itself first.\<close>

definition ancestors :: "abs_path \<Rightarrow> abs_path list" where
  "ancestors p = map (\<lambda>n. take n p) (rev [1..<Suc (length p)])"

definition abs_of :: "os_view \<Rightarrow> string \<Rightarrow> abs_path option" where
  "abs_of v p = res_ok (from_absolute_path (os_host v) p)"

definition should_preserve_logical_path :: "os_view \<Rightarrow> abs_path \<Rightarrow> bool" where
  "should_preserve_logical_path v logical =
     list_ex (\<lambda>a. case os_symlink v (path_string a) of
                None \<Rightarrow> False
              | Some is_symlink \<Rightarrow> is_symlink \<and> Option.bind (abs_parent a) abs_parent \<noteq> None)
       (ancestors logical)"

definition canonicalize_preserving_symlinks :: "os_view \<Rightarrow> string \<Rightarrow> (path_error, string) result" where
  "canonicalize_preserving_symlinks v p =
     res_bind (from_absolute_path (os_host v) p) (\<lambda>logical.
       Ok (case os_canonicalize v p of
             Some canonical \<Rightarrow>
               if should_preserve_logical_path v logical \<and> components canonical \<noteq> logical
               then path_string logical else canonical
           | None \<Rightarrow> path_string logical))"

definition normalize_effective_absolute_path :: "os_view \<Rightarrow> abs_path \<Rightarrow> abs_path" where
  "normalize_effective_absolute_path v p =
     (case find_map (\<lambda>a.
              if os_symlink v (path_string a) = None then None
              else Option.bind (res_ok (canonicalize_preserving_symlinks v (path_string a))) (\<lambda>normalized.
                     abs_of v (path_join normalized (join ''/'' (map component_name (drop (length a) p))))))
            (ancestors p) of
        Some n \<Rightarrow> n
      | None \<Rightarrow> p)"

fun dedup_paths :: "abs_path list \<Rightarrow> abs_path list \<Rightarrow> abs_path list" where
  "dedup_paths seen [] = []"
| "dedup_paths seen (p # ps) =
     (if p \<in> set seen then dedup_paths seen ps else p # dedup_paths (p # seen) ps)"

definition dedup_absolute_paths :: "os_view \<Rightarrow> abs_path list \<Rightarrow> bool \<Rightarrow> abs_path list" where
  "dedup_absolute_paths v ps normalize_effective_paths =
     dedup_paths [] (if normalize_effective_paths then map (normalize_effective_absolute_path v) ps else ps)"

section \<open>Access modes and entries\<close>

instantiation access_mode :: linorder
begin

fun access_rank :: "access_mode \<Rightarrow> nat" where
  "access_rank Read = 0"
| "access_rank Write = 1"
| "access_rank Deny = 2"

definition less_eq_access_mode :: "access_mode \<Rightarrow> access_mode \<Rightarrow> bool" where
  "less_eq_access_mode a b = (access_rank a \<le> access_rank b)"

definition less_access_mode :: "access_mode \<Rightarrow> access_mode \<Rightarrow> bool" where
  "less_access_mode a b = (access_rank a < access_rank b)"

instance
proof
  fix a b :: access_mode
  show "a \<le> b \<Longrightarrow> b \<le> a \<Longrightarrow> a = b"
    by (cases a; cases b) (simp_all add: less_eq_access_mode_def)
qed (auto simp: less_eq_access_mode_def less_access_mode_def)

end

definition can_read :: "access_mode \<Rightarrow> bool" where
  "can_read a = (a \<noteq> Deny)"

definition can_write :: "access_mode \<Rightarrow> bool" where
  "can_write a = (a = Write)"

definition new_entry :: "fs_path \<Rightarrow> access_mode \<Rightarrow> sandbox_entry" where
  "new_entry path access = \<lparr>en_path = path, en_access = access, en_missing = None\<rparr>"

definition skip_missing_path :: "fs_path \<Rightarrow> access_mode \<Rightarrow> sandbox_entry" where
  "skip_missing_path path access = \<lparr>en_path = path, en_access = access, en_missing = Some SkipMissing\<rparr>"

definition skips_missing_path :: "sandbox_entry \<Rightarrow> bool" where
  "skips_missing_path e = (en_missing e = Some SkipMissing)"

definition PROTECTED_METADATA_PATH_NAMES :: "string list" where
  "PROTECTED_METADATA_PATH_NAMES = [''.git'', ''.agents'', ''.codex'']"

definition metadata_path_name :: "string \<Rightarrow> string option" where
  "metadata_path_name name = find (\<lambda>n. name = n) PROTECTED_METADATA_PATH_NAMES"

definition is_protected_metadata_name :: "string \<Rightarrow> bool" where
  "is_protected_metadata_name name = list_ex (\<lambda>n. name = n) PROTECTED_METADATA_PATH_NAMES"

definition PROJECT_ROOTS_GLOB_PATTERN_PREFIX :: string where
  "PROJECT_ROOTS_GLOB_PATTERN_PREFIX = ''codex-project-roots://''"

definition parse_project_roots_glob_pattern :: "string \<Rightarrow> string option" where
  "parse_project_roots_glob_pattern pattern = strip_prefix PROJECT_ROOTS_GLOB_PATTERN_PREFIX pattern"

definition resolve_project_roots_glob_pattern :: "os_view \<Rightarrow> string \<Rightarrow> abs_path \<Rightarrow> string" where
  "resolve_project_roots_glob_pattern v subpath root =
     path_string (resolve_path_against_base (os_host v) subpath (path_string root))"

subsection \<open>Paths of entries\<close>

definition absolute_root_path_for_cwd :: "abs_path \<Rightarrow> abs_path" where
  "absolute_root_path_for_cwd cwd = normalize_path (path_string (last (ancestors cwd)))"

definition resolve_file_system_special_path :: "os_view \<Rightarrow> special_path \<Rightarrow> abs_path option \<Rightarrow> abs_path option" where
  "resolve_file_system_special_path v value cwd =
     (case value of
        ProjectRoots subpath \<Rightarrow>
          map_option (\<lambda>c. case subpath of
                Some s \<Rightarrow> resolve_path_against_base (os_host v) s (path_string c)
              | None \<Rightarrow> c) cwd
      | Tmpdir \<Rightarrow>
          (case os_tmpdir v of
             None \<Rightarrow> None
           | Some t \<Rightarrow> if t = [] then None else abs_of v t)
      | SlashTmp \<Rightarrow>
          Option.bind (abs_of v ''/tmp'') (\<lambda>slash_tmp.
            if os_is_dir v (path_string slash_tmp) then Some slash_tmp else None)
      | _ \<Rightarrow> None)"

definition resolve_file_system_path :: "os_view \<Rightarrow> fs_path \<Rightarrow> abs_path option \<Rightarrow> abs_path option" where
  "resolve_file_system_path v path cwd =
     (case path of
        FsPath p \<Rightarrow> Some p
      | GlobPattern _ \<Rightarrow> None
      | Special s \<Rightarrow> resolve_file_system_special_path v s cwd)"

definition resolve_entry_path :: "os_view \<Rightarrow> fs_path \<Rightarrow> abs_path option \<Rightarrow> abs_path option" where
  "resolve_entry_path v path cwd =
     (if path = Special RootPath then map_option absolute_root_path_for_cwd cwd
      else resolve_file_system_path v path cwd)"

definition resolve_candidate_path :: "os_view \<Rightarrow> string \<Rightarrow> string \<Rightarrow> abs_path option" where
  "resolve_candidate_path v path cwd =
     (if is_absolute path then abs_of v path
      else map_option (\<lambda>c. abs_join (os_host v) c path) (abs_of v cwd))"

record resolved_entry =
  re_path :: abs_path
  re_access :: access_mode

definition resolved_entry_precedence :: "resolved_entry \<Rightarrow> nat \<times> access_mode" where
  "resolved_entry_precedence e = (length (re_path e), re_access e)"

definition resolved_entries_with_cwd :: "os_view \<Rightarrow> fs_sandbox_policy \<Rightarrow> string \<Rightarrow> resolved_entry list" where
  "resolved_entries_with_cwd v p cwd =
     filter_map (\<lambda>e. map_option (\<lambda>path. \<lparr>re_path = path, re_access = en_access e\<rparr>)
                  (resolve_entry_path v (en_path e) (abs_of v cwd)))
       (fs_entries p)"

subsection \<open>Entries with the same target\<close>

definition special_path_matches_absolute_path :: "special_path \<Rightarrow> abs_path \<Rightarrow> bool" where
  "special_path_matches_absolute_path value path =
     (case value of
        RootPath \<Rightarrow> abs_parent path = None
      | SlashTmp \<Rightarrow> path = components ''/tmp''
      | _ \<Rightarrow> False)"

text \<open>Equal tokens of the same kind; every kind is compared by all of its fields.\<close>

definition special_paths_share_target :: "special_path \<Rightarrow> special_path \<Rightarrow> bool" where
  "special_paths_share_target left right =
     (case (left, right) of
        (RootPath, RootPath) \<Rightarrow> True
      | (Minimal, Minimal) \<Rightarrow> True
      | (Tmpdir, Tmpdir) \<Rightarrow> True
      | (SlashTmp, SlashTmp) \<Rightarrow> True
      | (ProjectRoots l, ProjectRoots r) \<Rightarrow> l = r
      | (UnknownPath l ls, UnknownPath r rs) \<Rightarrow> l = r \<and> ls = rs
      | _ \<Rightarrow> False)"

definition file_system_paths_share_target :: "fs_path \<Rightarrow> fs_path \<Rightarrow> bool" where
  "file_system_paths_share_target left right =
     (case (left, right) of
        (FsPath l, FsPath r) \<Rightarrow> l = r
      | (Special l, Special r) \<Rightarrow> special_paths_share_target l r
      | (FsPath p, Special s) \<Rightarrow> special_path_matches_absolute_path s p
      | (Special s, FsPath p) \<Rightarrow> special_path_matches_absolute_path s p
      | (GlobPattern l, GlobPattern r) \<Rightarrow> l = r
      | _ \<Rightarrow> False)"

definition has_same_target_write_override :: "fs_sandbox_policy \<Rightarrow> sandbox_entry \<Rightarrow> bool" where
  "has_same_target_write_override p e =
     list_ex (\<lambda>c. can_write (en_access c) \<and> en_access e < en_access c \<and>
                file_system_paths_share_target (en_path c) (en_path e))
       (fs_entries p)"

definition narrows_write :: "fs_sandbox_policy \<Rightarrow> sandbox_entry \<Rightarrow> bool" where
  "narrows_write p e =
     (if can_write (en_access e) then False
      else case en_path e of
          FsPath _ \<Rightarrow> \<not> has_same_target_write_override p e
        | GlobPattern _ \<Rightarrow> True
        | Special s \<Rightarrow>
            (case s of
               RootPath \<Rightarrow> en_access e = Deny
             | Minimal \<Rightarrow> False
             | UnknownPath _ _ \<Rightarrow> False
             | _ \<Rightarrow> \<not> has_same_target_write_override p e))"

definition has_write_narrowing_entries :: "fs_sandbox_policy \<Rightarrow> bool" where
  "has_write_narrowing_entries p = (fs_kind p = Restricted \<and> list_ex (narrows_write p) (fs_entries p))"

definition has_root_access :: "fs_sandbox_policy \<Rightarrow> (access_mode \<Rightarrow> bool) \<Rightarrow> bool" where
  "has_root_access p predicate =
     (fs_kind p = Restricted \<and>
      list_ex (\<lambda>e. en_path e = Special RootPath \<and> predicate (en_access e)) (fs_entries p))"

definition has_full_disk_read_access :: "fs_sandbox_policy \<Rightarrow> bool" where
  "has_full_disk_read_access p =
     (case fs_kind p of
        Restricted \<Rightarrow> has_root_access p can_read \<and> \<not> has_denied_read_restrictions p
      | _ \<Rightarrow> True)"

definition has_full_disk_write_access :: "fs_sandbox_policy \<Rightarrow> bool" where
  "has_full_disk_write_access p =
     (case fs_kind p of
        Restricted \<Rightarrow> has_root_access p can_write \<and> \<not> has_write_narrowing_entries p
      | _ \<Rightarrow> True)"

definition include_platform_defaults :: "fs_sandbox_policy \<Rightarrow> bool" where
  "include_platform_defaults p =
     (\<not> has_full_disk_read_access p \<and> fs_kind p = Restricted \<and>
      list_ex (\<lambda>e. en_path e = Special Minimal \<and> can_read (en_access e)) (fs_entries p))"

section \<open>Access to a path\<close>

definition resolve_access_with_cwd :: "os_view \<Rightarrow> fs_sandbox_policy \<Rightarrow> string \<Rightarrow> string \<Rightarrow> access_mode" where
  "resolve_access_with_cwd v p path cwd =
     (if fs_kind p \<noteq> Restricted then Write
      else case resolve_candidate_path v path cwd of
          None \<Rightarrow> Deny
        | Some target \<Rightarrow>
            (case max_by_key resolved_entry_precedence
                    (filter (\<lambda>e. prefix (re_path e) target) (resolved_entries_with_cwd v p cwd)) of
               Some e \<Rightarrow> re_access e
             | None \<Rightarrow> Deny))"

definition can_read_path_with_cwd :: "os_view \<Rightarrow> fs_sandbox_policy \<Rightarrow> string \<Rightarrow> string \<Rightarrow> bool" where
  "can_read_path_with_cwd v p path cwd = can_read (resolve_access_with_cwd v p path cwd)"

definition metadata_child_of_writable_root ::
  "os_view \<Rightarrow> fs_sandbox_policy \<Rightarrow> abs_path \<Rightarrow> string \<Rightarrow> (abs_path \<times> string) option" where
  "metadata_child_of_writable_root v p target cwd =
     find_map (\<lambda>e.
         if prefix (re_path e) target then
           (case drop (length (re_path e)) target of
              [] \<Rightarrow> None
            | c # _ \<Rightarrow>
                map_option (\<lambda>name. (abs_join (os_host v) (re_path e) name, name))
                  (metadata_path_name (component_name c)))
         else None)
       (filter (\<lambda>e. can_write (re_access e)) (resolved_entries_with_cwd v p cwd))"

definition has_explicit_write_entry_for_metadata_path ::
  "os_view \<Rightarrow> fs_sandbox_policy \<Rightarrow> abs_path \<Rightarrow> abs_path \<Rightarrow> string \<Rightarrow> bool" where
  "has_explicit_write_entry_for_metadata_path v p protected_metadata_path target cwd =
     list_ex (\<lambda>e. can_write (re_access e) \<and> prefix (re_path e) target \<and> prefix protected_metadata_path (re_path e))
       (resolved_entries_with_cwd v p cwd)"

definition is_metadata_write_denied :: "os_view \<Rightarrow> fs_sandbox_policy \<Rightarrow> string \<Rightarrow> string \<Rightarrow> bool" where
  "is_metadata_write_denied v p path cwd =
     (if fs_kind p \<noteq> Restricted then False
      else case resolve_candidate_path v path cwd of
          None \<Rightarrow> True
        | Some target \<Rightarrow>
            (case metadata_child_of_writable_root v p target cwd of
               None \<Rightarrow> False
             | Some (protected_metadata_path, _) \<Rightarrow>
                 \<not> has_explicit_write_entry_for_metadata_path v p protected_metadata_path target cwd))"

definition can_write_path_with_cwd :: "os_view \<Rightarrow> fs_sandbox_policy \<Rightarrow> string \<Rightarrow> string \<Rightarrow> bool" where
  "can_write_path_with_cwd v p path cwd =
     (if \<not> can_write (resolve_access_with_cwd v p path cwd) then False
      else if has_full_disk_write_access p then True
      else \<not> is_metadata_write_denied v p path cwd)"

definition forbidden_agent_metadata_write ::
  "os_view \<Rightarrow> string \<Rightarrow> string \<Rightarrow> fs_sandbox_policy \<Rightarrow> string option" where
  "forbidden_agent_metadata_write v path cwd p =
     (if fs_kind p \<noteq> Restricted then None
      else Option.bind (resolve_candidate_path v path cwd) (\<lambda>target.
           Option.bind (metadata_child_of_writable_root v p target cwd) (\<lambda>(protected_metadata_path, metadata_name).
             if has_explicit_write_entry_for_metadata_path v p protected_metadata_path target cwd then None
             else if \<not> can_write_path_with_cwd v p (path_string target) cwd then Some metadata_name
             else None)))"

definition has_explicit_non_write_entry_for_path_with_cwd ::
  "os_view \<Rightarrow> fs_sandbox_policy \<Rightarrow> string \<Rightarrow> string \<Rightarrow> bool" where
  "has_explicit_non_write_entry_for_path_with_cwd v p path cwd =
     (case resolve_candidate_path v path cwd of
        None \<Rightarrow> False
      | Some target \<Rightarrow>
          list_ex (\<lambda>e. \<not> skips_missing_path e \<and> \<not> can_write (en_access e) \<and>
                     resolve_entry_path v (en_path e) (abs_of v cwd) = Some target)
            (fs_entries p))"

end
