(* ===== verification/Sandbox_Roots.thy ===== *)
theory Sandbox_Roots
  imports Sandbox_Policy
begin

text \<open>
  The rest of \<^verbatim>\<open>protocol/src/permissions.rs\<close> and the sandbox policy of \<^verbatim>\<open>protocol/src/protocol.rs\<close>: the
  policies that the program builds, the roots that it hands to the platform sandboxes, the matcher of
  denied reads, and the changes of a policy.
\<close>

section \<open>Protected subpaths\<close>

definition resolve_gitdir_from_file :: "os_view \<Rightarrow> abs_path \<Rightarrow> abs_path option" where
  "resolve_gitdir_from_file v dot_git =
     (case os_read v (path_string dot_git) of
        None \<Rightarrow> None
      | Some contents \<Rightarrow>
          (case split_once CHR '':'' (trim contents) of
             None \<Rightarrow> None
           | Some (before, gitdir_raw) \<Rightarrow>
               if trim before \<noteq> ''gitdir'' then None
               else if trim gitdir_raw = [] then None
               else case abs_parent dot_git of
                   None \<Rightarrow> None
                 | Some base \<Rightarrow>
                     (let gitdir_path = resolve_path_against_base (os_host v) (trim gitdir_raw) (path_string base)
                      in if os_exists v (path_string gitdir_path) then Some gitdir_path else None)))"

definition is_git_pointer_file :: "os_view \<Rightarrow> abs_path \<Rightarrow> bool" where
  "is_git_pointer_file v p = (os_is_file v (path_string p) \<and> file_name p = Some ''.git'')"

definition default_read_only_subpaths_for_writable_root :: "os_view \<Rightarrow> abs_path \<Rightarrow> bool \<Rightarrow> abs_path list" where
  "default_read_only_subpaths_for_writable_root v root protect_missing_dot_codex =
     (let git = abs_join (os_host v) root ''.git'';
          git_is_file = os_is_file v (path_string git);
          git_is_dir = os_is_dir v (path_string git);
          agents = abs_join (os_host v) root ''.agents'';
          codex = abs_join (os_host v) root ''.codex''
      in dedup_absolute_paths v
           ((if git_is_dir \<or> git_is_file then
               (if git_is_file \<and> is_git_pointer_file v git then
                  (case resolve_gitdir_from_file v git of Some gitdir \<Rightarrow> [gitdir] | None \<Rightarrow> [])
                else []) @ [git]
             else []) @
            (if os_is_dir v (path_string agents) then [agents] else []) @
            (if protect_missing_dot_codex \<or> os_is_dir v (path_string codex) then [codex] else []))
           False)"

section \<open>Writable roots\<close>

record writable_root =
  wr_root :: abs_path
  wr_read_only_subpaths :: "abs_path list"
  wr_protected_metadata_names :: "string list"

definition path_contains_protected_metadata_name :: "writable_root \<Rightarrow> string \<Rightarrow> bool" where
  "path_contains_protected_metadata_name r path =
     (if prefix (wr_root r) (components path) then
        (case drop (length (wr_root r)) (components path) of
           [] \<Rightarrow> False
         | c # _ \<Rightarrow> list_ex (\<lambda>name. component_name c = name) (wr_protected_metadata_names r))
      else False)"

definition is_path_writable :: "writable_root \<Rightarrow> string \<Rightarrow> bool" where
  "is_path_writable r path =
     (if \<not> prefix (wr_root r) (components path) then False
      else if list_ex (\<lambda>subpath. prefix subpath (components path)) (wr_read_only_subpaths r) then False
      else \<not> path_contains_protected_metadata_name r path)"

definition protected_metadata_names_for_writable_root ::
  "os_view \<Rightarrow> fs_sandbox_policy \<Rightarrow> abs_path \<Rightarrow> abs_path list \<Rightarrow> string \<Rightarrow> string list" where
  "protected_metadata_names_for_writable_root v p root raw_writable_roots cwd =
     filter (\<lambda>name.
         list_all (\<lambda>r. \<not> can_write_path_with_cwd v p (path_string (abs_join (os_host v) r name)) cwd)
           (root # raw_writable_roots))
       PROTECTED_METADATA_PATH_NAMES"

definition has_explicit_resolved_path_entry :: "resolved_entry list \<Rightarrow> abs_path \<Rightarrow> bool" where
  "has_explicit_resolved_path_entry entries path = list_ex (\<lambda>e. re_path e = path) entries"

definition raw_carveout_path ::
  "os_view \<Rightarrow> abs_path \<Rightarrow> abs_path list \<Rightarrow> abs_path \<Rightarrow> abs_path option" where
  "raw_carveout_path v root raw_writable_roots path =
     (if abs_parent root = None then None
      else if path = root then None
      else if prefix root path then Some path
      else find_map (\<lambda>raw_root.
               if prefix raw_root path \<and> path \<noteq> raw_root
               then Some (abs_join (os_host v) root (join ''/'' (map component_name (drop (length raw_root) path))))
               else None)
             raw_writable_roots)"

definition carveout_path ::
  "os_view \<Rightarrow> abs_path \<Rightarrow> abs_path list \<Rightarrow> resolved_entry \<Rightarrow> abs_path option" where
  "carveout_path v root raw_writable_roots e =
     (let effective_path = normalize_effective_absolute_path v (re_path e)
      in case raw_carveout_path v root raw_writable_roots (re_path e) of
           Some path \<Rightarrow> Some path
         | None \<Rightarrow>
             if effective_path = root \<or> \<not> prefix root effective_path then None else Some effective_path)"

definition writable_root_of ::
  "os_view \<Rightarrow> fs_sandbox_policy \<Rightarrow> string \<Rightarrow> abs_path list \<Rightarrow> abs_path \<Rightarrow> writable_root" where
  "writable_root_of v p cwd writable_entries root =
     (let resolved = resolved_entries_with_cwd v p cwd;
          raw_writable_roots = filter (\<lambda>path. normalize_effective_absolute_path v path = root) writable_entries;
          protect_missing_dot_codex =
            (case abs_of v cwd of None \<Rightarrow> False | Some c \<Rightarrow> normalize_effective_absolute_path v c = root);
          defaults = filter (\<lambda>path. \<not> has_explicit_resolved_path_entry resolved path)
            (default_read_only_subpaths_for_writable_root v root protect_missing_dot_codex);
          carveouts = filter_map (carveout_path v root raw_writable_roots)
            (filter (\<lambda>e. \<not> can_write (re_access e) \<and> \<not> can_write_path_with_cwd v p (path_string (re_path e)) cwd)
               resolved)
      in \<lparr>wr_root = root,
          wr_read_only_subpaths = dedup_absolute_paths v (defaults @ carveouts) False,
          wr_protected_metadata_names =
            protected_metadata_names_for_writable_root v p root raw_writable_roots cwd\<rparr>)"

definition get_writable_roots_with_cwd :: "os_view \<Rightarrow> fs_sandbox_policy \<Rightarrow> string \<Rightarrow> writable_root list" where
  "get_writable_roots_with_cwd v p cwd =
     (if has_full_disk_write_access p then []
      else
        let writable_entries = map re_path
              (filter (\<lambda>e. can_write (re_access e) \<and> can_write_path_with_cwd v p (path_string (re_path e)) cwd)
                 (resolved_entries_with_cwd v p cwd))
        in map (writable_root_of v p cwd writable_entries) (dedup_absolute_paths v writable_entries True))"

section \<open>Readable and unreadable roots\<close>

definition get_readable_roots_with_cwd :: "os_view \<Rightarrow> fs_sandbox_policy \<Rightarrow> string \<Rightarrow> abs_path list" where
  "get_readable_roots_with_cwd v p cwd =
     (if has_full_disk_read_access p then []
      else dedup_absolute_paths v
        (map re_path
          (filter (\<lambda>e. can_read (re_access e) \<and> can_read_path_with_cwd v p (path_string (re_path e)) cwd)
             (resolved_entries_with_cwd v p cwd))) True)"

definition get_unreadable_roots_with_cwd :: "os_view \<Rightarrow> fs_sandbox_policy \<Rightarrow> string \<Rightarrow> abs_path list" where
  "get_unreadable_roots_with_cwd v p cwd =
     (if fs_kind p \<noteq> Restricted then []
      else
        let root = map_option absolute_root_path_for_cwd (abs_of v cwd)
        in dedup_absolute_paths v
             (map re_path
               (filter (\<lambda>e. re_access e = Deny \<and> \<not> can_read_path_with_cwd v p (path_string (re_path e)) cwd \<and>
                          root \<noteq> Some (re_path e))
                  (resolved_entries_with_cwd v p cwd))) True)"

definition get_unreadable_globs_with_cwd :: "os_view \<Rightarrow> fs_sandbox_policy \<Rightarrow> string \<Rightarrow> string list" where
  "get_unreadable_globs_with_cwd v p cwd =
     (if fs_kind p \<noteq> Restricted then []
      else remdups_adj (sort
        (filter_map (\<lambda>e. case en_path e of
              GlobPattern pattern \<Rightarrow> Some (path_string (resolve_path_against_base (os_host v) pattern cwd))
            | _ \<Rightarrow> None)
          (filter (\<lambda>e. en_access e = Deny) (fs_entries p)))))"

subsection \<open>Denied reads\<close>

text \<open>The glob compiler turns a pattern into a test of paths, or fails.\<close>

type_synonym glob_builder = "string \<Rightarrow> (string, string \<Rightarrow> bool) result"

definition push_unique :: "string list \<Rightarrow> string \<Rightarrow> string list" where
  "push_unique candidates candidate =
     (if list_ex (\<lambda>existing. components existing = components candidate) candidates then candidates
      else candidates @ [candidate])"

definition normalized_and_canonical_candidates :: "os_view \<Rightarrow> string \<Rightarrow> string list" where
  "normalized_and_canonical_candidates v path =
     (let candidates = push_unique [] (case abs_of v path of Some n \<Rightarrow> path_string n | None \<Rightarrow> path)
      in case Option.bind (os_canonicalize v path) (abs_of v) of
           Some canonical \<Rightarrow> push_unique candidates (path_string canonical)
         | None \<Rightarrow> candidates)"

record read_deny_matcher =
  denied_candidates :: "string list list"
  deny_read_matchers :: "(string \<Rightarrow> bool) list"
  invalid_pattern :: bool

datatype invalid_glob_behavior = FailClosed | ReturnError

fun build_matchers ::
  "glob_builder \<Rightarrow> invalid_glob_behavior \<Rightarrow> string list \<Rightarrow> (string \<Rightarrow> bool) list \<Rightarrow> bool \<Rightarrow>
   (string, (string \<Rightarrow> bool) list \<times> bool) result" where
  "build_matchers globs behavior [] matchers invalid = Ok (matchers, invalid)"
| "build_matchers globs behavior (pattern # ps) matchers invalid =
     (case globs pattern of
        Inr m \<Rightarrow> build_matchers globs behavior ps (matchers @ [m]) invalid
      | Inl err \<Rightarrow>
          (case behavior of
             FailClosed \<Rightarrow> build_matchers globs behavior ps matchers True
           | ReturnError \<Rightarrow> Err (''invalid deny-read glob pattern `'' @ pattern @ ''`: '' @ err)))"

definition matcher_build ::
  "os_view \<Rightarrow> glob_builder \<Rightarrow> fs_sandbox_policy \<Rightarrow> string \<Rightarrow> invalid_glob_behavior \<Rightarrow>
   (string, read_deny_matcher option) result" where
  "matcher_build v globs p cwd behavior =
     (if \<not> has_denied_read_restrictions p then Ok None
      else res_bind (build_matchers globs behavior (get_unreadable_globs_with_cwd v p cwd) [] False)
        (\<lambda>(matchers, invalid). Ok (Some
           \<lparr>denied_candidates = map (\<lambda>path. normalized_and_canonical_candidates v (path_string path))
              (get_unreadable_roots_with_cwd v p cwd),
            deny_read_matchers = matchers,
            invalid_pattern = invalid\<rparr>)))"

text \<open>\<^verbatim>\<open>ReadDenyMatcher::new\<close>; the error branch, which the code declares unreachable, is \<open>None\<close> in the outer option.\<close>

definition new_matcher :: "os_view \<Rightarrow> glob_builder \<Rightarrow> fs_sandbox_policy \<Rightarrow> string \<Rightarrow> read_deny_matcher option option" where
  "new_matcher v globs p cwd = res_ok (matcher_build v globs p cwd FailClosed)"

definition try_new_matcher ::
  "os_view \<Rightarrow> glob_builder \<Rightarrow> fs_sandbox_policy \<Rightarrow> string \<Rightarrow> (string, read_deny_matcher option) result" where
  "try_new_matcher v globs p cwd = matcher_build v globs p cwd ReturnError"

definition is_read_denied :: "os_view \<Rightarrow> read_deny_matcher \<Rightarrow> string \<Rightarrow> bool" where
  "is_read_denied v m path =
     (if invalid_pattern m then True
      else
        let path_candidates = normalized_and_canonical_candidates v path
        in if list_ex (\<lambda>denied. list_ex (\<lambda>candidate. list_ex (\<lambda>d. prefix (components d) (components candidate)) denied)
                   path_candidates) (denied_candidates m) then True
           else list_ex (\<lambda>matcher. list_ex matcher path_candidates) (deny_read_matchers m))"

section \<open>Policies\<close>

datatype sandbox_policy =
    DangerFullAccess
  | ReadOnlyPolicy bool
  | ExternalSandboxPolicy bool
  | WorkspaceWrite "abs_path list" bool bool bool

definition restricted :: "sandbox_entry list \<Rightarrow> fs_sandbox_policy" where
  "restricted entries = \<lparr>fs_kind = Restricted, fs_glob_scan_max_depth = None, fs_entries = entries\<rparr>"

definition read_only_file_system_entries :: "sandbox_entry list" where
  "read_only_file_system_entries = [new_entry (Special RootPath) Read]"

definition read_only :: fs_sandbox_policy where
  "read_only = restricted read_only_file_system_entries"

definition append_default_read_only_entry_if_no_explicit_rule :: "fs_path \<Rightarrow> sandbox_entry list \<Rightarrow> sandbox_entry list" where
  "append_default_read_only_entry_if_no_explicit_rule path entries =
     (if list_ex (\<lambda>e. file_system_paths_share_target (en_path e) path) entries then entries
      else entries @ [skip_missing_path path Read])"

definition append_default_read_only_path_if_no_explicit_rule :: "abs_path \<Rightarrow> sandbox_entry list \<Rightarrow> sandbox_entry list" where
  "append_default_read_only_path_if_no_explicit_rule path entries =
     append_default_read_only_entry_if_no_explicit_rule (FsPath path) entries"

definition append_default_read_only_project_root_subpath_if_no_explicit_rule ::
  "string \<Rightarrow> sandbox_entry list \<Rightarrow> sandbox_entry list" where
  "append_default_read_only_project_root_subpath_if_no_explicit_rule subpath entries =
     append_default_read_only_entry_if_no_explicit_rule (Special (ProjectRoots (Some subpath))) entries"

text \<open>The protected subpaths of a root, unless the entries already have a rule for them.\<close>

definition protect_root :: "os_view \<Rightarrow> bool \<Rightarrow> abs_path \<Rightarrow> sandbox_entry list \<Rightarrow> sandbox_entry list" where
  "protect_root v protect_missing_dot_codex root entries =
     fold append_default_read_only_path_if_no_explicit_rule
       (default_read_only_subpaths_for_writable_root v root protect_missing_dot_codex) entries"

definition workspace_entries :: "abs_path list \<Rightarrow> bool \<Rightarrow> bool \<Rightarrow> sandbox_entry list" where
  "workspace_entries writable_roots exclude_tmpdir_env_var exclude_slash_tmp =
     [new_entry (Special RootPath) Read, new_entry (Special (ProjectRoots None)) Write] @
     (if exclude_slash_tmp then [] else [new_entry (Special SlashTmp) Write]) @
     (if exclude_tmpdir_env_var then [] else [new_entry (Special Tmpdir) Write]) @
     map (\<lambda>path. new_entry (FsPath path) Write) writable_roots"

definition workspace_write :: "os_view \<Rightarrow> abs_path list \<Rightarrow> bool \<Rightarrow> bool \<Rightarrow> fs_sandbox_policy" where
  "workspace_write v writable_roots exclude_tmpdir_env_var exclude_slash_tmp =
     restricted (fold (protect_root v False) writable_roots
       (fold append_default_read_only_project_root_subpath_if_no_explicit_rule [''.git'', ''.agents'', ''.codex'']
         (workspace_entries writable_roots exclude_tmpdir_env_var exclude_slash_tmp)))"

fun fs_policy_of_legacy :: "os_view \<Rightarrow> sandbox_policy \<Rightarrow> fs_sandbox_policy" where
  "fs_policy_of_legacy v DangerFullAccess = unrestricted"
| "fs_policy_of_legacy v (ExternalSandboxPolicy net) = external_sandbox"
| "fs_policy_of_legacy v (ReadOnlyPolicy net) = restricted [new_entry (Special RootPath) Read]"
| "fs_policy_of_legacy v (WorkspaceWrite writable_roots net exclude_tmpdir_env_var exclude_slash_tmp) =
     workspace_write v writable_roots exclude_tmpdir_env_var exclude_slash_tmp"

fun has_full_network_access :: "sandbox_policy \<Rightarrow> bool" where
  "has_full_network_access DangerFullAccess = True"
| "has_full_network_access (ExternalSandboxPolicy network_access) = network_access"
| "has_full_network_access (ReadOnlyPolicy network_access) = network_access"
| "has_full_network_access (WorkspaceWrite _ network_access _ _) = network_access"

definition network_policy_of_legacy :: "sandbox_policy \<Rightarrow> network_sandbox_policy" where
  "network_policy_of_legacy policy = (if has_full_network_access policy then NetEnabled else NetRestricted)"

text \<open>The protection of the working directory and of the extra roots of a workspace policy.\<close>

definition protect_workspace :: "os_view \<Rightarrow> string \<Rightarrow> abs_path list \<Rightarrow> sandbox_entry list \<Rightarrow> sandbox_entry list" where
  "protect_workspace v cwd writable_roots entries =
     fold (protect_root v False) writable_roots
       (case abs_of v cwd of Some cwd_root \<Rightarrow> protect_root v True cwd_root entries | None \<Rightarrow> entries)"

definition from_legacy_sandbox_policy_for_cwd :: "os_view \<Rightarrow> sandbox_policy \<Rightarrow> string \<Rightarrow> fs_sandbox_policy" where
  "from_legacy_sandbox_policy_for_cwd v policy cwd =
     (let p = fs_policy_of_legacy v policy
      in case policy of
           WorkspaceWrite writable_roots _ _ _ \<Rightarrow>
             p\<lparr>fs_entries := protect_workspace v cwd writable_roots (fs_entries p)\<rparr>
         | _ \<Rightarrow> p)"

definition legacy_runtime_file_system_policy_for_cwd :: "os_view \<Rightarrow> sandbox_policy \<Rightarrow> string \<Rightarrow> fs_sandbox_policy" where
  "legacy_runtime_file_system_policy_for_cwd v policy cwd =
     (case policy of
        WorkspaceWrite writable_roots _ exclude_tmpdir_env_var exclude_slash_tmp \<Rightarrow>
          restricted (protect_workspace v cwd writable_roots
            (workspace_entries writable_roots exclude_tmpdir_env_var exclude_slash_tmp))
      | _ \<Rightarrow> fs_policy_of_legacy v policy)"

text \<open>Entries are appended unless they are there already.\<close>

definition push_missing_entries :: "sandbox_entry list \<Rightarrow> sandbox_entry list \<Rightarrow> sandbox_entry list" where
  "push_missing_entries new entries = fold (\<lambda>e es. if e \<in> set es then es else es @ [e]) new entries"

definition deny_entries :: "fs_sandbox_policy \<Rightarrow> sandbox_entry list" where
  "deny_entries p = filter (\<lambda>e. en_access e = Deny) (fs_entries p)"

definition from_legacy_sandbox_policy_preserving_deny_entries ::
  "os_view \<Rightarrow> sandbox_policy \<Rightarrow> string \<Rightarrow> fs_sandbox_policy \<Rightarrow> fs_sandbox_policy" where
  "from_legacy_sandbox_policy_preserving_deny_entries v policy cwd existing =
     (let rebuilt = from_legacy_sandbox_policy_for_cwd v policy cwd
      in if fs_kind rebuilt \<noteq> Restricted then rebuilt
         else rebuilt\<lparr>fs_glob_scan_max_depth := fs_glob_scan_max_depth existing,
                fs_entries := push_missing_entries (deny_entries existing) (fs_entries rebuilt)\<rparr>)"

definition preserve_deny_read_restrictions_from :: "fs_sandbox_policy \<Rightarrow> fs_sandbox_policy \<Rightarrow> fs_sandbox_policy" where
  "preserve_deny_read_restrictions_from p existing =
     (let p1 = (if fs_kind p = Unrestricted \<and> deny_entries existing \<noteq> []
                then restricted [new_entry (Special RootPath) Write] else p)
      in if fs_kind p1 \<noteq> Restricted then p1
         else p1\<lparr>fs_glob_scan_max_depth :=
                  (case fs_glob_scan_max_depth p1 of None \<Rightarrow> fs_glob_scan_max_depth existing | Some d \<Rightarrow> Some d),
                fs_entries := push_missing_entries (deny_entries existing) (fs_entries p1)\<rparr>)"

definition remove_skip_missing_path_entries :: "fs_sandbox_policy \<Rightarrow> fs_sandbox_policy" where
  "remove_skip_missing_path_entries p = p\<lparr>fs_entries := filter (\<lambda>e. \<not> skips_missing_path e) (fs_entries p)\<rparr>"

subsection \<open>Project roots\<close>

definition materialize_entry_with_cwd :: "os_view \<Rightarrow> abs_path option \<Rightarrow> sandbox_entry \<Rightarrow> sandbox_entry" where
  "materialize_entry_with_cwd v cwd e =
     (case en_path e of
        Special (ProjectRoots _) \<Rightarrow>
          (case resolve_file_system_path v (en_path e) cwd of
             Some path \<Rightarrow> e\<lparr>en_path := FsPath path\<rparr>
           | None \<Rightarrow> e)
      | GlobPattern pattern \<Rightarrow>
          (case (cwd, parse_project_roots_glob_pattern pattern) of
             (Some c, Some subpath) \<Rightarrow>
               e\<lparr>en_path := GlobPattern (resolve_project_roots_glob_pattern v subpath c)\<rparr>
           | _ \<Rightarrow> e)
      | _ \<Rightarrow> e)"

definition materialize_project_roots_with_cwd :: "os_view \<Rightarrow> fs_sandbox_policy \<Rightarrow> string \<Rightarrow> fs_sandbox_policy" where
  "materialize_project_roots_with_cwd v p cwd =
     p\<lparr>fs_entries := map (materialize_entry_with_cwd v (abs_of v cwd)) (fs_entries p)\<rparr>"

definition materialize_entry_with_roots :: "os_view \<Rightarrow> abs_path list \<Rightarrow> sandbox_entry \<Rightarrow> sandbox_entry list" where
  "materialize_entry_with_roots v workspace_roots e =
     (case en_path e of
        Special (ProjectRoots subpath) \<Rightarrow>
          map (\<lambda>root. e\<lparr>en_path := FsPath (case subpath of
                  Some s \<Rightarrow> resolve_path_against_base (os_host v) s (path_string root)
                | None \<Rightarrow> root)\<rparr>) workspace_roots
      | GlobPattern pattern \<Rightarrow>
          (case parse_project_roots_glob_pattern pattern of
             Some subpath \<Rightarrow>
               map (\<lambda>root. e\<lparr>en_path := GlobPattern (resolve_project_roots_glob_pattern v subpath root)\<rparr>) workspace_roots
           | None \<Rightarrow> [e])
      | _ \<Rightarrow> [e])"

definition materialize_project_roots_with_workspace_roots ::
  "os_view \<Rightarrow> fs_sandbox_policy \<Rightarrow> abs_path list \<Rightarrow> fs_sandbox_policy" where
  "materialize_project_roots_with_workspace_roots v p workspace_roots =
     p\<lparr>fs_entries := concat (map (materialize_entry_with_roots v workspace_roots) (fs_entries p))\<rparr>"

definition with_materialized_project_roots_for_workspace_roots ::
  "os_view \<Rightarrow> fs_sandbox_policy \<Rightarrow> abs_path list \<Rightarrow> fs_sandbox_policy" where
  "with_materialized_project_roots_for_workspace_roots v p workspace_roots =
     p\<lparr>fs_entries := push_missing_entries
         (fs_entries (materialize_project_roots_with_workspace_roots v p workspace_roots)) (fs_entries p)\<rparr>"

subsection \<open>Additional roots\<close>

definition add_entry :: "sandbox_entry \<Rightarrow> fs_sandbox_policy \<Rightarrow> fs_sandbox_policy" where
  "add_entry e p = p\<lparr>fs_entries := fs_entries p @ [e]\<rparr>"

definition with_additional_readable_roots ::
  "os_view \<Rightarrow> fs_sandbox_policy \<Rightarrow> string \<Rightarrow> abs_path list \<Rightarrow> fs_sandbox_policy" where
  "with_additional_readable_roots v p cwd roots =
     (if has_full_disk_read_access p then p
      else fold (\<lambda>path q.
          if can_read_path_with_cwd v q (path_string path) cwd then q
          else add_entry (new_entry (FsPath path) Read) q) roots p)"

definition with_additional_writable_roots ::
  "os_view \<Rightarrow> fs_sandbox_policy \<Rightarrow> string \<Rightarrow> abs_path list \<Rightarrow> fs_sandbox_policy" where
  "with_additional_writable_roots v p cwd roots =
     fold (\<lambda>path q.
         if can_write_path_with_cwd v q (path_string path) cwd then q
         else add_entry (new_entry (FsPath path) Write) q) roots p"

definition with_additional_legacy_workspace_writable_roots ::
  "os_view \<Rightarrow> fs_sandbox_policy \<Rightarrow> abs_path list \<Rightarrow> fs_sandbox_policy" where
  "with_additional_legacy_workspace_writable_roots v p roots =
     (if fs_kind p \<noteq> Restricted then p
      else fold (\<lambda>path q.
          let q1 = (if list_ex (\<lambda>e. can_write (en_access e) \<and> en_path e = FsPath path) (fs_entries q) then q
                    else add_entry (new_entry (FsPath path) Write) q)
          in q1\<lparr>fs_entries := protect_root v False path (fs_entries q1)\<rparr>) roots p)"

section \<open>Legacy policies\<close>

record legacy_scan =
  sc_workspace_root_writable :: bool
  sc_writable_roots :: "abs_path list"
  sc_tmpdir_writable :: bool
  sc_slash_tmp_writable :: bool
  sc_unbridgeable_root_write :: bool

definition scan_entry :: "os_view \<Rightarrow> abs_path option \<Rightarrow> sandbox_entry \<Rightarrow> legacy_scan \<Rightarrow> legacy_scan" where
  "scan_entry v cwd_absolute e sc =
     (case en_path e of
        GlobPattern _ \<Rightarrow> sc
      | FsPath path \<Rightarrow>
          if can_write (en_access e) then
            (if cwd_absolute = Some path then sc\<lparr>sc_workspace_root_writable := True\<rparr>
             else sc\<lparr>sc_writable_roots := sc_writable_roots sc @ [path]\<rparr>)
          else sc
      | Special value \<Rightarrow>
          (case value of
             RootPath \<Rightarrow> if en_access e = Write then sc\<lparr>sc_unbridgeable_root_write := True\<rparr> else sc
           | Minimal \<Rightarrow> sc
           | ProjectRoots subpath \<Rightarrow>
               if subpath = None \<and> can_write (en_access e) then sc\<lparr>sc_workspace_root_writable := True\<rparr>
               else (case resolve_file_system_special_path v value cwd_absolute of
                       Some path \<Rightarrow>
                         if can_write (en_access e) then sc\<lparr>sc_writable_roots := sc_writable_roots sc @ [path]\<rparr> else sc
                     | None \<Rightarrow> sc)
           | Tmpdir \<Rightarrow> if can_write (en_access e) then sc\<lparr>sc_tmpdir_writable := True\<rparr> else sc
           | SlashTmp \<Rightarrow> if can_write (en_access e) then sc\<lparr>sc_slash_tmp_writable := True\<rparr> else sc
           | UnknownPath _ _ \<Rightarrow> sc))"

definition scan_entries :: "os_view \<Rightarrow> fs_sandbox_policy \<Rightarrow> string \<Rightarrow> legacy_scan" where
  "scan_entries v p cwd =
     fold (scan_entry v (abs_of v cwd)) (fs_entries p)
       \<lparr>sc_workspace_root_writable = False, sc_writable_roots = [], sc_tmpdir_writable = False,
        sc_slash_tmp_writable = False, sc_unbridgeable_root_write = False\<rparr>"

definition unsupported_writes :: string where
  "unsupported_writes =
     ''permissions profile requests filesystem writes outside the workspace root, which is not supported '' @
     ''until the runtime enforces FileSystemSandboxPolicy directly''"

definition full_disk_legacy :: "network_sandbox_policy \<Rightarrow> sandbox_policy" where
  "full_disk_legacy net = (if net = NetEnabled then DangerFullAccess else ExternalSandboxPolicy False)"

definition to_legacy_sandbox_policy ::
  "os_view \<Rightarrow> fs_sandbox_policy \<Rightarrow> network_sandbox_policy \<Rightarrow> string \<Rightarrow> (path_error, sandbox_policy) result" where
  "to_legacy_sandbox_policy v p net cwd =
     (case fs_kind p of
        ExternalSandbox \<Rightarrow> Ok (ExternalSandboxPolicy (net = NetEnabled))
      | Unrestricted \<Rightarrow> Ok (full_disk_legacy net)
      | Restricted \<Rightarrow>
          (let sc = scan_entries v p cwd
           in if has_full_disk_write_access p then Ok (full_disk_legacy net)
              else if sc_workspace_root_writable sc then
                Ok (WorkspaceWrite (dedup_absolute_paths v (sc_writable_roots sc) False) (net = NetEnabled)
                      (\<not> sc_tmpdir_writable sc) (\<not> sc_slash_tmp_writable sc))
              else if sc_unbridgeable_root_write sc \<or> sc_writable_roots sc \<noteq> [] \<or> sc_tmpdir_writable sc \<or>
                      sc_slash_tmp_writable sc
              then Err (InvalidInput unsupported_writes)
              else Ok (ReadOnlyPolicy (net = NetEnabled))))"

definition legacy_writable_roots_with_cwd :: "os_view \<Rightarrow> sandbox_policy \<Rightarrow> string \<Rightarrow> writable_root list" where
  "legacy_writable_roots_with_cwd v policy cwd =
     (case policy of
        WorkspaceWrite writable_roots _ exclude_tmpdir_env_var exclude_slash_tmp \<Rightarrow>
          (let cwd_root = abs_of v cwd;
               roots = writable_roots @
                 (case cwd_root of Some c \<Rightarrow> [c] | None \<Rightarrow> []) @
                 (if exclude_slash_tmp then []
                  else case abs_of v ''/tmp'' of
                      Some slash_tmp \<Rightarrow> if os_is_dir v (path_string slash_tmp) then [slash_tmp] else []
                    | None \<Rightarrow> []) @
                 (if exclude_tmpdir_env_var then []
                  else case os_tmpdir v of
                      None \<Rightarrow> []
                    | Some tmpdir \<Rightarrow>
                        if tmpdir = [] then []
                        else case abs_of v tmpdir of Some path \<Rightarrow> [path] | None \<Rightarrow> [])
           in map (\<lambda>root. \<lparr>wr_root = root,
                 wr_read_only_subpaths = default_read_only_subpaths_for_writable_root v root (cwd_root = Some root),
                 wr_protected_metadata_names = []\<rparr>) roots)
      | _ \<Rightarrow> [])"

definition protected_metadata_names_need_direct_runtime_enforcement ::
  "os_view \<Rightarrow> fs_sandbox_policy \<Rightarrow> sandbox_policy \<Rightarrow> string \<Rightarrow> bool" where
  "protected_metadata_names_need_direct_runtime_enforcement v p legacy cwd =
     (let legacy_roots = legacy_writable_roots_with_cwd v legacy cwd
      in list_ex (\<lambda>r.
           case find (\<lambda>c. wr_root c = wr_root r) legacy_roots of
             None \<Rightarrow> wr_protected_metadata_names r \<noteq> []
           | Some legacy_root \<Rightarrow>
               list_ex (\<lambda>name.
                   \<not> list_ex (\<lambda>subpath. subpath = abs_join (os_host v) (wr_root r) name)
                       (wr_read_only_subpaths legacy_root))
                 (wr_protected_metadata_names r))
         (get_writable_roots_with_cwd v p cwd))"

text \<open>Paths are ordered component by component, the root before names, names by their bytes.\<close>

fun component_key :: "component \<Rightarrow> nat \<times> string" where
  "component_key RootDir = (1, [])"
| "component_key CurDir = (2, [])"
| "component_key ParentDir = (3, [])"
| "component_key (Normal n) = (4, n)"

definition sorted_absolute_paths :: "abs_path list \<Rightarrow> abs_path list" where
  "sorted_absolute_paths ps = sort_key (map component_key) ps"

definition sorted_writable_roots :: "writable_root list \<Rightarrow> writable_root list" where
  "sorted_writable_roots roots =
     sort_key (\<lambda>r. map component_key (wr_root r))
       (map (\<lambda>r. r\<lparr>wr_read_only_subpaths := sorted_absolute_paths (wr_read_only_subpaths r),
                   wr_protected_metadata_names := remdups_adj (sort (wr_protected_metadata_names r))\<rparr>) roots)"

record semantic_signature =
  sig_full_disk_read :: bool
  sig_full_disk_write :: bool
  sig_platform_defaults :: bool
  sig_readable_roots :: "abs_path list"
  sig_writable_roots :: "writable_root list"
  sig_unreadable_roots :: "abs_path list"
  sig_unreadable_globs :: "string list"

definition semantic_signature_of :: "os_view \<Rightarrow> fs_sandbox_policy \<Rightarrow> string \<Rightarrow> semantic_signature" where
  "semantic_signature_of v p cwd =
     \<lparr>sig_full_disk_read = has_full_disk_read_access p,
      sig_full_disk_write = has_full_disk_write_access p,
      sig_platform_defaults = include_platform_defaults p,
      sig_readable_roots = sorted_absolute_paths (get_readable_roots_with_cwd v p cwd),
      sig_writable_roots = sorted_writable_roots (get_writable_roots_with_cwd v p cwd),
      sig_unreadable_roots = sorted_absolute_paths (get_unreadable_roots_with_cwd v p cwd),
      sig_unreadable_globs = get_unreadable_globs_with_cwd v p cwd\<rparr>"

definition is_semantically_equivalent_to :: "os_view \<Rightarrow> fs_sandbox_policy \<Rightarrow> fs_sandbox_policy \<Rightarrow> string \<Rightarrow> bool" where
  "is_semantically_equivalent_to v p other cwd = (semantic_signature_of v p cwd = semantic_signature_of v other cwd)"

definition needs_direct_runtime_enforcement ::
  "os_view \<Rightarrow> fs_sandbox_policy \<Rightarrow> network_sandbox_policy \<Rightarrow> string \<Rightarrow> bool" where
  "needs_direct_runtime_enforcement v p net cwd =
     (if fs_kind p \<noteq> Restricted then False
      else case to_legacy_sandbox_policy v p net cwd of
          Inl _ \<Rightarrow> True
        | Inr legacy \<Rightarrow>
            if protected_metadata_names_need_direct_runtime_enforcement v p legacy cwd then True
            else semantic_signature_of v p cwd \<noteq>
                 semantic_signature_of v (legacy_runtime_file_system_policy_for_cwd v legacy cwd) cwd)"

section \<open>An instance\<close>

text \<open>A machine without links, with \<^verbatim>\<open>/tmp\<close> and the repository \<^verbatim>\<open>/w\<close>, and the usual workspace policy there.\<close>

definition plain_view :: os_view where
  "plain_view =
     \<lparr>os_host = \<lparr>home_dir = None, current_dir = Some ''/w'', getcwd_error = []\<rparr>,
      os_tmpdir = None,
      os_is_dir = (\<lambda>s. s \<in> {''/tmp'', ''/w'', ''/w/.git''}),
      os_is_file = (\<lambda>s. False),
      os_exists = (\<lambda>s. s \<in> {''/tmp'', ''/w'', ''/w/.git''}),
      os_symlink = (\<lambda>s. if s \<in> {''/'', ''/tmp'', ''/w'', ''/w/.git''} then Some False else None),
      os_canonicalize = (\<lambda>s. if s \<in> {''/'', ''/tmp'', ''/w'', ''/w/.git''} then Some s else None),
      os_read = (\<lambda>s. None)\<rparr>"

definition plain_policy :: fs_sandbox_policy where
  "plain_policy = from_legacy_sandbox_policy_for_cwd plain_view (WorkspaceWrite [[RootDir, Normal ''x'']] False True False) ''/w''"

end
