(* ===== verification/Sandbox_Access.thy ===== *)
theory Sandbox_Access
  imports Sandbox_Roots
begin

text \<open>
  What a sandbox policy allows. The access of a path is the one of the most specific entry that covers
  it; the theorems below derive from this what can be written, which metadata stays protected, and that
  the roots given to a sandbox do not allow more than the policy.
\<close>

section \<open>Paths and the operating system\<close>

definition view_ok :: "os_view \<Rightarrow> bool" where
  "view_ok v \<longleftrightarrow> (case current_dir (os_host v) of None \<Rightarrow> True | Some d \<Rightarrow> is_absolute d)"

definition entries_ok :: "fs_sandbox_policy \<Rightarrow> bool" where
  "entries_ok p \<longleftrightarrow> list_all (\<lambda>e. case en_path e of FsPath q \<Rightarrow> abs_path_ok q | _ \<Rightarrow> True) (fs_entries p)"

lemma res_ok_Some_iff: "res_ok r = Some x \<longleftrightarrow> r = Inr x"
  by (cases r) (auto simp: res_ok_def)

lemma abs_of_path_string [simp]: "abs_path_ok p \<Longrightarrow> abs_of v (path_string p) = Some p"
  using absolute_path_roundtrip [of p "os_host v"] by (simp add: abs_of_def res_ok_Some_iff)

lemma abs_of_ok: "view_ok v \<Longrightarrow> abs_of v p = Some q \<Longrightarrow> abs_path_ok q"
  by (auto simp: abs_of_def res_ok_Some_iff from_absolute_path_def absolutize_def view_ok_def
      absolutize_from_ok normalize_path_ok split: if_splits option.splits)

lemma candidate_path_string [simp]:
  "abs_path_ok t \<Longrightarrow> resolve_candidate_path v (path_string t) cwd = Some t"
  by (simp add: resolve_candidate_path_def is_absolute_path_string)

lemma candidate_ok:
  assumes "view_ok v" and "resolve_candidate_path v path cwd = Some t"
  shows "abs_path_ok t"
  using assms abs_of_ok [OF assms(1)]
  by (auto simp: resolve_candidate_path_def abs_join_def resolve_path_against_base_def absolutize_from_ok
      is_absolute_path_string split: if_splits)

lemma path_string_last:
  assumes "abs_path_ok r" and "r \<noteq> [RootDir]"
  shows "path_string r \<noteq> [] \<and> last (path_string r) \<noteq> CHR ''/''"
proof -
  obtain ns where r: "r = RootDir # map Normal ns" and ns: "list_all plain_name ns"
    using assms(1) by (rule abs_path_cases)
  then obtain xs x where ns': "ns = xs @ [x]"
    using assms(2) by (cases ns rule: rev_cases) auto
  then have x: "x \<noteq> []" "last x \<noteq> CHR ''/''"
    using ns by (auto simp: plain_name_def dest: last_in_set)
  have "last (join ''/'' ns) \<noteq> CHR ''/''" "join ''/'' ns \<noteq> []"
    using x by (cases "xs = []"; simp add: ns' join_append)+
  moreover have "path_string r = ''/'' @ join ''/'' ns"
    using path_string_Root [of ns] by (simp add: r)
  ultimately show ?thesis
    by simp
qed

lemma path_join_relative:
  assumes "abs_path_ok r" and "\<not> is_absolute s"
  shows "path_join (path_string r) s = (if r = [RootDir] then ''/'' @ s else path_string r @ ''/'' @ s)"
  using assms path_string_last [OF assms(1)] by (auto simp: path_join_def path_string_def)

lemma path_string_snoc:
  assumes "abs_path_ok r" and "plain_name n"
  shows "path_join (path_string r) n = path_string (r @ [Normal n])"
proof -
  obtain ns where r: "r = RootDir # map Normal ns"
    using assms(1) by (rule abs_path_cases)
  have "\<not> is_absolute n"
    using assms(2) by (cases n) (auto simp: plain_name_def is_absolute_def)
  moreover have "path_string r = ''/'' @ join ''/'' ns" "path_string (r @ [Normal n]) = ''/'' @ join ''/'' (ns @ [n])"
    using path_string_Root [of ns] path_string_Root [of "ns @ [n]"] by (simp_all add: r)
  ultimately show ?thesis
    using path_join_relative [OF assms(1)] by (cases "ns = []") (simp_all add: join_append r)
qed

lemma abs_path_ok_snoc: "abs_path_ok r \<Longrightarrow> plain_name n \<Longrightarrow> abs_path_ok (r @ [Normal n])"
  by (auto simp: abs_path_ok_def)

lemma abs_join_plain:
  assumes "abs_path_ok r" and "plain_name n" and "hd n \<noteq> CHR ''~''"
  shows "abs_join h r n = r @ [Normal n]"
proof -
  have rel: "\<not> is_absolute n" and "\<not> prefix ''~'' n"
    using assms(2,3) by (cases n; auto simp: plain_name_def is_absolute_def)+
  then have "abs_join h r n = normalize_path (path_join (path_string r) n)"
    by (simp add: abs_join_def resolve_path_against_base_def maybe_expand_home_directory_def strip_prefix_def
        absolutize_from_def path_with_base_def split: option.split)
  then show ?thesis
    using normalize_path_string [OF abs_path_ok_snoc [OF assms(1,2)]]
    by (simp add: path_string_snoc [OF assms(1,2)])
qed

lemma metadata_names: "n \<in> set PROTECTED_METADATA_PATH_NAMES \<Longrightarrow> plain_name n \<and> hd n \<noteq> CHR ''~''"
  by (auto simp: PROTECTED_METADATA_PATH_NAMES_def plain_name_def)

lemma metadata_path_name_Some_iff: "metadata_path_name c = Some n \<longleftrightarrow> n = c \<and> c \<in> set PROTECTED_METADATA_PATH_NAMES"
  by (auto simp: metadata_path_name_def find_Some_iff in_set_conv_nth PROTECTED_METADATA_PATH_NAMES_def)

lemma abs_prefix_ok: "abs_path_ok t \<Longrightarrow> prefix p t \<Longrightarrow> p \<noteq> [] \<Longrightarrow> abs_path_ok p"
  by (cases p) (auto simp: abs_path_ok_def prefix_def)

lemma last_ancestor: "abs_path_ok c \<Longrightarrow> last (ancestors c) = [RootDir]"
  by (erule abs_path_cases) (simp add: ancestors_def last_map last_rev upt_rec)

lemma root_ok: "abs_path_ok [RootDir]"
  by (simp add: abs_path_ok_def)

lemma absolute_root [simp]: "abs_path_ok c \<Longrightarrow> absolute_root_path_for_cwd c = [RootDir]"
  by (simp add: absolute_root_path_for_cwd_def last_ancestor normalize_path_string root_ok)

lemma special_path_ok:
  assumes "view_ok v" and "abs_path_ok c" and "resolve_file_system_special_path v s (Some c) = Some q"
  shows "abs_path_ok q"
  using assms abs_of_ok [OF assms(1)]
  by (auto simp: resolve_file_system_special_path_def resolve_path_against_base_def absolutize_from_ok
      is_absolute_path_string bind_eq_Some_conv split: special_path.splits option.splits if_splits)

lemma entry_path_ok:
  assumes "view_ok v" and "abs_path_ok c" and "entries_ok p" and "e \<in> set (fs_entries p)"
    and "resolve_entry_path v (en_path e) (Some c) = Some q"
  shows "abs_path_ok q"
  using assms special_path_ok [OF assms(1,2)] root_ok
  by (fastforce simp: resolve_entry_path_def resolve_file_system_path_def entries_ok_def list_all_iff
      split: if_splits fs_path.splits)

lemma resolved_entries_ok:
  assumes "view_ok v" and "abs_path_ok c" and "entries_ok p"
    and "r \<in> set (resolved_entries_with_cwd v p (path_string c))"
  shows "abs_path_ok (re_path r)"
  using assms entry_path_ok [OF assms(1-3)] by (auto simp: resolved_entries_with_cwd_def in_set_filter_map)

section \<open>The deciding entry\<close>

text \<open>An entry decides about a path when it covers it and no entry that covers it is preferred.\<close>

definition decides :: "resolved_entry \<Rightarrow> resolved_entry list \<Rightarrow> abs_path \<Rightarrow> bool" where
  "decides e es t \<longleftrightarrow>
     e \<in> set es \<and> prefix (re_path e) t \<and>
     (\<forall>d \<in> set es. prefix (re_path d) t \<longrightarrow>
        length (re_path d) < length (re_path e) \<or> (re_path d = re_path e \<and> re_access d \<le> re_access e))"

lemma decides_unique:
  assumes "decides e es t" "decides d es t"
  shows "re_access e = re_access d \<and> re_path e = re_path d"
proof -
  have 1: "length (re_path d) < length (re_path e) \<or> (re_path d = re_path e \<and> re_access d \<le> re_access e)"
    using assms by (simp add: decides_def)
  have 2: "length (re_path e) < length (re_path d) \<or> (re_path e = re_path d \<and> re_access e \<le> re_access d)"
    using assms by (simp add: decides_def)
  show ?thesis
    using 1 2 by auto
qed

definition covered :: "resolved_entry list \<Rightarrow> abs_path \<Rightarrow> bool" where
  "covered es t \<longleftrightarrow> (\<exists>e \<in> set es. prefix (re_path e) t)"

lemma deciding_entry:
  assumes "covered es t"
  obtains e where "decides e es t"
    and "max_by_key resolved_entry_precedence (filter (\<lambda>e. prefix (re_path e) t) es) = Some e"
proof -
  obtain e where e: "max_by_key resolved_entry_precedence (filter (\<lambda>e. prefix (re_path e) t) es) = Some e"
    using assms by (cases "max_by_key resolved_entry_precedence (filter (\<lambda>e. prefix (re_path e) t) es)")
      (auto simp: covered_def filter_empty_conv)
  note m = max_by_key_Some [OF e]
  have "length (re_path d) < length (re_path e) \<or> (re_path d = re_path e \<and> re_access d \<le> re_access e)"
    if "d \<in> set es" "prefix (re_path d) t" for d
  proof -
    have "resolved_entry_precedence d \<le> resolved_entry_precedence e"
      using m that by simp
    moreover have "re_path d = re_path e" if "length (re_path d) = length (re_path e)"
      using m that \<open>prefix (re_path d) t\<close> by (auto simp: prefix_def append_eq_append_conv)
    ultimately show ?thesis
      by (auto simp: resolved_entry_precedence_def less_eq_prod_def)
  qed
  then show thesis
    using that e m by (auto simp: decides_def)
qed

lemma resolve_access_decided:
  assumes "fs_kind p = Restricted" and "resolve_candidate_path v path cwd = Some t"
    and "decides e (resolved_entries_with_cwd v p cwd) t"
  shows "resolve_access_with_cwd v p path cwd = re_access e"
proof -
  have "covered (resolved_entries_with_cwd v p cwd) t"
    using assms(3) by (auto simp: covered_def decides_def)
  then obtain d where "decides d (resolved_entries_with_cwd v p cwd) t"
    "max_by_key resolved_entry_precedence (filter (\<lambda>e. prefix (re_path e) t) (resolved_entries_with_cwd v p cwd)) = Some d"
    by (rule deciding_entry)
  then show ?thesis
    using assms decides_unique [OF assms(3), of d] by (simp add: resolve_access_with_cwd_def)
qed

lemma resolve_access_uncovered:
  assumes "fs_kind p = Restricted" and "resolve_candidate_path v path cwd = Some t"
    and "\<not> covered (resolved_entries_with_cwd v p cwd) t"
  shows "resolve_access_with_cwd v p path cwd = Deny"
proof -
  have "filter (\<lambda>e. prefix (re_path e) t) (resolved_entries_with_cwd v p cwd) = []"
    using assms(3) by (simp add: covered_def filter_empty_conv)
  then show ?thesis
    using assms(1,2) by (simp add: resolve_access_with_cwd_def)
qed

text \<open>
  C19: The access of a path under a restricted policy is decided by the most specific entry that covers
  it, and among entries for the same path a denial beats a write and a write beats a read. A path that no
  entry covers, and a path that cannot be resolved, is denied. In particular the order of the entries
  does not matter.
\<close>

theorem access_is_most_specific:
  assumes "fs_kind p = Restricted"
  shows "resolve_access_with_cwd v p path cwd = a \<longleftrightarrow>
    (case resolve_candidate_path v path cwd of
       None \<Rightarrow> a = Deny
     | Some t \<Rightarrow>
         (\<exists>e. decides e (resolved_entries_with_cwd v p cwd) t \<and> re_access e = a) \<or>
         a = Deny \<and> \<not> covered (resolved_entries_with_cwd v p cwd) t)"
proof (cases "resolve_candidate_path v path cwd")
  case None
  then show ?thesis
    using assms by (auto simp: resolve_access_with_cwd_def)
next
  case (Some t)
  show ?thesis
  proof (cases "covered (resolved_entries_with_cwd v p cwd) t")
    case True
    then obtain e where e: "decides e (resolved_entries_with_cwd v p cwd) t"
      by (rule deciding_entry)
    have "(\<exists>d. decides d (resolved_entries_with_cwd v p cwd) t \<and> re_access d = a) \<longleftrightarrow> re_access e = a"
      using decides_unique [OF e] e by metis
    then show ?thesis
      using resolve_access_decided [OF assms Some e] True Some by simp
  next
    case False
    then show ?thesis
      using resolve_access_uncovered [OF assms Some] Some by (auto simp: covered_def decides_def)
  qed
qed

section \<open>Protected metadata\<close>

lemma next_component:
  assumes "abs_path_ok t" and "prefix r t" and "r \<noteq> []" and "drop (length r) t = c # cs"
  shows "c = Normal (component_name c) \<and> prefix (r @ [c]) t"
proof -
  have t: "t = r @ c # cs"
    using assms(2,4) by (auto simp: prefix_def)
  then have "is_plain c"
    using assms(1,3) by (cases r) (auto simp: abs_path_ok_def)
  then show ?thesis
    by (cases c) (auto simp: t)
qed

text \<open>The metadata directory below a root on the way to a path.\<close>

definition metadata_dir :: "resolved_entry \<Rightarrow> string \<Rightarrow> abs_path" where
  "metadata_dir r n = re_path r @ [Normal n]"

definition metadata_step :: "os_view \<Rightarrow> abs_path \<Rightarrow> resolved_entry \<Rightarrow> (abs_path \<times> string) option" where
  "metadata_step v target e =
     (if prefix (re_path e) target then
        (case drop (length (re_path e)) target of
           [] \<Rightarrow> None
         | c # _ \<Rightarrow>
             map_option (\<lambda>name. (abs_join (os_host v) (re_path e) name, name)) (metadata_path_name (component_name c)))
      else None)"

lemma metadata_child_steps:
  "metadata_child_of_writable_root v p target cwd =
     find_map (metadata_step v target) (filter (\<lambda>e. can_write (re_access e)) (resolved_entries_with_cwd v p cwd))"
  by (simp add: metadata_child_of_writable_root_def metadata_step_def [abs_def])

lemma metadata_step_Some_iff:
  assumes "abs_path_ok t" and "abs_path_ok (re_path e)"
  shows "metadata_step v t e = Some (q, n) \<longleftrightarrow>
    q = metadata_dir e n \<and> n \<in> set PROTECTED_METADATA_PATH_NAMES \<and> prefix q t"
proof -
  have ne: "re_path e \<noteq> []"
    using assms(2) by (simp add: abs_path_ok_def)
  have join: "abs_join (os_host v) (re_path e) n = metadata_dir e n" if "n \<in> set PROTECTED_METADATA_PATH_NAMES"
    using abs_join_plain [OF assms(2)] metadata_names [OF that] by (simp add: metadata_dir_def)
  show ?thesis
  proof
    assume "metadata_step v t e = Some (q, n)"
    then obtain c cs where c: "prefix (re_path e) t" "drop (length (re_path e)) t = c # cs"
      "n = component_name c" "n \<in> set PROTECTED_METADATA_PATH_NAMES" "q = abs_join (os_host v) (re_path e) n"
      by (auto simp: metadata_step_def metadata_path_name_Some_iff split: if_splits list.splits)
    then show "q = metadata_dir e n \<and> n \<in> set PROTECTED_METADATA_PATH_NAMES \<and> prefix q t"
      using next_component [OF assms(1) c(1) ne c(2)] join [OF c(4)] by (auto simp: metadata_dir_def)
  next
    assume r: "q = metadata_dir e n \<and> n \<in> set PROTECTED_METADATA_PATH_NAMES \<and> prefix q t"
    then obtain cs where "t = re_path e @ Normal n # cs"
      by (auto simp: metadata_dir_def prefix_def)
    then show "metadata_step v t e = Some (q, n)"
      using r join by (auto simp: metadata_step_def metadata_path_name_Some_iff)
  qed
qed

lemma metadata_step_None:
  assumes "abs_path_ok t" and "abs_path_ok (re_path e)" and "metadata_step v t e = None"
    and "n \<in> set PROTECTED_METADATA_PATH_NAMES"
  shows "\<not> prefix (metadata_dir e n) t"
  using metadata_step_Some_iff [OF assms(1,2), of v "metadata_dir e n" n] assms(3,4) by auto

text \<open>A writable entry.\<close>

definition write_entry :: "os_view \<Rightarrow> fs_sandbox_policy \<Rightarrow> string \<Rightarrow> resolved_entry \<Rightarrow> bool" where
  "write_entry v p cwd e \<longleftrightarrow> e \<in> set (resolved_entries_with_cwd v p cwd) \<and> re_access e = Write"

lemma set_write_entries:
  "set (filter (\<lambda>e. can_write (re_access e)) (resolved_entries_with_cwd v p cwd)) = {e. write_entry v p cwd e}"
  by (auto simp: can_write_def write_entry_def)

lemma metadata_child_Some:
  assumes ok: "abs_path_ok t" "\<And>e. write_entry v p cwd e \<Longrightarrow> abs_path_ok (re_path e)"
    and "metadata_child_of_writable_root v p t cwd = Some (q, n)"
  obtains r where "write_entry v p cwd r" and "q = metadata_dir r n" and "n \<in> set PROTECTED_METADATA_PATH_NAMES"
    and "prefix q t"
proof -
  obtain r where r: "write_entry v p cwd r" "metadata_step v t r = Some (q, n)"
    using find_map_Some [OF assms(3) [unfolded metadata_child_steps]] set_write_entries [of v p cwd] by auto
  then show thesis
    using that metadata_step_Some_iff [OF ok(1) ok(2) [OF r(1)]] by blast
qed

lemma metadata_child_None:
  assumes ok: "abs_path_ok t" "\<And>e. write_entry v p cwd e \<Longrightarrow> abs_path_ok (re_path e)"
    and "metadata_child_of_writable_root v p t cwd = None" and r: "write_entry v p cwd r"
    and "n \<in> set PROTECTED_METADATA_PATH_NAMES"
  shows "\<not> prefix (metadata_dir r n) t"
proof -
  have "metadata_step v t r = None"
    using assms(3) r set_write_entries [of v p cwd] unfolding metadata_child_steps find_map_None_iff by blast
  then show ?thesis
    using metadata_step_None [OF ok(1) ok(2) [OF r]] assms(5) by blast
qed

lemma not_denied_explicit:
  assumes "fs_kind p = Restricted" and "resolve_candidate_path v path cwd = Some t"
    and "\<not> is_metadata_write_denied v p path cwd"
    and "metadata_child_of_writable_root v p t cwd = Some (q, n)"
  obtains g where "write_entry v p cwd g" and "prefix (re_path g) t" and "prefix q (re_path g)"
  using assms that
  by (auto simp: is_metadata_write_denied_def has_explicit_write_entry_for_metadata_path_def list_ex_iff
      can_write_def write_entry_def)

lemma can_write_path_iff:
  "can_write_path_with_cwd v p path cwd \<longleftrightarrow>
     resolve_access_with_cwd v p path cwd = Write \<and>
     (has_full_disk_write_access p \<or> \<not> is_metadata_write_denied v p path cwd)"
  by (auto simp: can_write_path_with_cwd_def can_write_def)

text \<open>
  C8: A restricted policy that does not open the whole disk lets a path be written only when the most
  specific entry for it is a write entry. And it keeps the metadata of its writable roots protected: a
  path inside \<^verbatim>\<open>.git\<close>, \<^verbatim>\<open>.agents\<close> or \<^verbatim>\<open>.codex\<close> directly below a writable root is writable only through a write
  entry that itself lies at or below such a directory of a writable root and covers the path.
\<close>

theorem writes_need_a_grant:
  assumes "view_ok v" and "entries_ok p" and "abs_path_ok c"
    and "fs_kind p = Restricted" and "\<not> has_full_disk_write_access p"
    and "can_write_path_with_cwd v p path (path_string c)"
  shows "\<exists>t e. resolve_candidate_path v path (path_string c) = Some t \<and>
    decides e (resolved_entries_with_cwd v p (path_string c)) t \<and> re_access e = Write \<and>
    (\<forall>r n. write_entry v p (path_string c) r \<and> n \<in> set PROTECTED_METADATA_PATH_NAMES \<and> prefix (metadata_dir r n) t \<longrightarrow>
       (\<exists>g r' n'. write_entry v p (path_string c) g \<and> prefix (re_path g) t \<and> write_entry v p (path_string c) r' \<and>
          n' \<in> set PROTECTED_METADATA_PATH_NAMES \<and> prefix (metadata_dir r' n') (re_path g)))"
proof -
  let ?cwd = "path_string c"
  have w: "resolve_access_with_cwd v p path ?cwd = Write" and m: "\<not> is_metadata_write_denied v p path ?cwd"
    using assms(5,6) by (auto simp: can_write_path_iff)
  obtain t where t: "resolve_candidate_path v path ?cwd = Some t"
    using w assms(4) by (cases "resolve_candidate_path v path ?cwd") (auto simp: resolve_access_with_cwd_def)
  have "covered (resolved_entries_with_cwd v p ?cwd) t"
    using resolve_access_uncovered [OF assms(4) t] w by fastforce
  then obtain e where e: "decides e (resolved_entries_with_cwd v p ?cwd) t"
    by (rule deciding_entry)
  have ok: "abs_path_ok t" "\<And>e. write_entry v p ?cwd e \<Longrightarrow> abs_path_ok (re_path e)"
    using candidate_ok [OF assms(1) t] resolved_entries_ok [OF assms(1,3,2)] by (auto simp: write_entry_def)
  have "\<exists>g r' n'. write_entry v p ?cwd g \<and> prefix (re_path g) t \<and> write_entry v p ?cwd r' \<and>
      n' \<in> set PROTECTED_METADATA_PATH_NAMES \<and> prefix (metadata_dir r' n') (re_path g)"
    if "write_entry v p ?cwd r" "n \<in> set PROTECTED_METADATA_PATH_NAMES" "prefix (metadata_dir r n) t" for r n
  proof -
    note prems = that
    obtain q k where q: "metadata_child_of_writable_root v p t ?cwd = Some (q, k)"
      using metadata_child_None [OF ok _ prems(1,2)] prems(3)
      by (cases "metadata_child_of_writable_root v p t ?cwd") auto
    obtain r' where "write_entry v p ?cwd r'" "q = metadata_dir r' k" "k \<in> set PROTECTED_METADATA_PATH_NAMES"
      using metadata_child_Some [OF ok q] by blast
    moreover obtain g where "write_entry v p ?cwd g" "prefix (re_path g) t" "prefix q (re_path g)"
      using not_denied_explicit [OF assms(4) t m q] .
    ultimately show ?thesis
      by blast
  qed
  then show ?thesis
    using t e resolve_access_decided [OF assms(4) t e] w by auto
qed

section \<open>The workspace policy\<close>

lemma plain_view_ok: "view_ok plain_view"
  by code_simp

lemma plain_policy_facts:
  "fs_kind plain_policy = Restricted" "entries_ok plain_policy" "\<not> has_full_disk_write_access plain_policy"
  by code_simp+

lemma plain_cwd: "abs_path_ok [RootDir, Normal ''w'']" "path_string [RootDir, Normal ''w''] = ''/w''"
  by code_simp+

theorem access_is_most_specific_witness:
  "\<exists>e. decides e (resolved_entries_with_cwd plain_view plain_policy ''/w'')
      [RootDir, Normal ''w'', Normal ''.git'', Normal ''config''] \<and> re_access e = Read"
proof -
  have "resolve_access_with_cwd plain_view plain_policy ''.git/config'' ''/w'' = Read \<and>
    resolve_candidate_path plain_view ''.git/config'' ''/w'' = Some [RootDir, Normal ''w'', Normal ''.git'', Normal ''config'']"
    by code_simp
  then show ?thesis
    using access_is_most_specific [OF plain_policy_facts(1), of plain_view "''.git/config''" "''/w''" Read] by auto
qed

theorem writes_need_a_grant_witness:
  "\<exists>t e. resolve_candidate_path plain_view ''src/main.rs'' ''/w'' = Some t \<and>
     decides e (resolved_entries_with_cwd plain_view plain_policy ''/w'') t \<and> re_access e = Write"
proof -
  have "can_write_path_with_cwd plain_view plain_policy ''src/main.rs'' ''/w''"
    by code_simp
  then show ?thesis
    using writes_need_a_grant [OF plain_view_ok plain_policy_facts(2) plain_cwd(1) plain_policy_facts(1,3), of "''src/main.rs''"]
    unfolding plain_cwd(2) by blast
qed

text \<open>
  The protection of metadata looks at the first write entry that has the path inside its metadata. With
  nested write entries the answer therefore depends on their order: the metadata of the inner root is
  protected when the inner root comes first, and open when the outer root comes first.
\<close>

lemma metadata_protection_depends_on_order:
  "let outer = new_entry (FsPath [RootDir, Normal ''a'']) Write;
       inner = new_entry (FsPath [RootDir, Normal ''a'', Normal ''.git'', Normal ''x'']) Write
   in can_write_path_with_cwd plain_view (restricted [outer, inner]) ''/a/.git/x/.git/config'' ''/w'' \<and>
      \<not> can_write_path_with_cwd plain_view (restricted [inner, outer]) ''/a/.git/x/.git/config'' ''/w''"
  by code_simp

end
