(* ===== verification/Sandbox_Refine.thy ===== *)
theory Sandbox_Refine
  imports Sandbox_Access
begin

text \<open>
  The roots that are handed to a platform sandbox do not allow more than the policy they are computed
  from, and a policy that claims full write access to the disk really allows every write.
\<close>

section \<open>A file system without symbolic links\<close>

text \<open>The canonical form of a path, where there is one, is the path.\<close>

definition no_links :: "os_view \<Rightarrow> bool" where
  "no_links v \<longleftrightarrow>
     (\<forall>p. abs_path_ok p \<longrightarrow> os_canonicalize v (path_string p) = None \<or>
        os_canonicalize v (path_string p) = Some (path_string p))"

lemma components_path_join:
  assumes "abs_path_ok a" and "\<not> is_absolute s"
  shows "components (path_join (path_string a) s) = a @ concat (map seg_components (split_on (CHR ''/'') s))"
proof -
  obtain ns where a: "a = RootDir # map Normal ns" and ns: "list_all plain_name ns"
    using assms(1) by (rule abs_path_cases)
  have joined: "components (path_string a @ ''/'' @ s) = a @ concat (map seg_components (split_on (CHR ''/'') s))"
  proof -
    have split: "split_on (CHR ''/'') (path_string a @ CHR ''/'' # s) =
        split_on (CHR ''/'') (path_string a) @ split_on (CHR ''/'') s"
      by (rule split_on_append)
    have abs: "is_absolute (path_string a)" "is_absolute (path_string a @ CHR ''/'' # s)"
      using is_absolute_path_string [OF assms(1)] by (auto simp: is_absolute_def)
    have "a = RootDir # concat (map seg_components (split_on (CHR ''/'') (path_string a)))"
      using components_path_string [OF assms(1)] abs(1) by (simp add: components_def)
    then show ?thesis
      using abs(2) split by (simp add: components_def)
  qed
  show ?thesis
  proof (cases "a = [RootDir]")
    case True
    then show ?thesis
      using path_join_relative [OF assms] by (simp add: components_def is_absolute_def seg_components_def)
  next
    case False
    then show ?thesis
      using path_join_relative [OF assms] joined by simp
  qed
qed

lemma join_head: "n \<noteq> [] \<Longrightarrow> \<exists>t. join sep (n # ns) = hd n # t"
  by (cases ns; cases n) auto

lemma abs_of_absolute:
  assumes "is_absolute s"
  shows "abs_of v s = Some (normalize_path s)"
proof -
  have "maybe_expand_home_directory h s = s" for h
    using assms by (cases s) (auto simp: maybe_expand_home_directory_def is_absolute_def strip_prefix_def split: option.split)
  then show ?thesis
    using assms by (simp add: abs_of_def from_absolute_path_def absolutize_def res_ok_def)
qed

lemma normalize_path_join:
  assumes "abs_path_ok a" and "list_all plain_name ns"
  shows "normalize_path (path_join (path_string a) (join ''/'' ns)) = a @ map Normal ns"
proof -
  have rel: "\<not> is_absolute (join ''/'' ns)"
    using assms(2) join_head [of "hd ns" "''/''" "tl ns"] by (cases ns; cases "hd ns") (auto simp: is_absolute_def plain_name_def)
  have segs: "concat (map seg_components (split_on (CHR ''/'') (join ''/'' ns))) = map Normal ns"
  proof (cases ns)
    case Nil
    then show ?thesis by (simp add: seg_components_def)
  next
    case (Cons n ns')
    then have "split_on (CHR ''/'') (join ''/'' ns) = ns"
      using assms(2) by (intro split_on_join) (auto simp: list_all_iff plain_name_def)
    moreover have "concat (map seg_components ns) = map Normal ns"
      using assms(2) by (induction ns) (auto simp: seg_components_plain)
    ultimately show ?thesis by simp
  qed
  obtain as where a: "a = RootDir # map Normal as"
    using assms(1) by (rule abs_path_cases)
  have "components (path_join (path_string a) (join ''/'' ns)) = RootDir # map Normal (as @ ns)"
    using components_path_join [OF assms(1) rel] segs by (simp add: a)
  then show ?thesis
    by (simp add: normalize_path_def foldl_normalize_Normal a)
qed

lemma ancestor_of: "x \<in> set (ancestors p) \<Longrightarrow> prefix x p \<and> (p \<noteq> [] \<longrightarrow> x \<noteq> [])"
  by (auto simp: ancestors_def take_is_prefix)

lemma find_map_in:
  assumes "\<And>x. x \<in> set xs \<Longrightarrow> f x \<in> {None, Some y}"
  shows "find_map f xs \<in> {None, Some y}"
  using assms
proof (induction xs)
  case (Cons x xs)
  then show ?case
    using Cons.prems [of x] by (cases "f x") auto
qed simp

lemma effective_path_id:
  assumes "no_links v" and "abs_path_ok p"
  shows "normalize_effective_absolute_path v p = p"
proof -
  let ?step = "\<lambda>a. if os_symlink v (path_string a) = None then None
      else Option.bind (res_ok (canonicalize_preserving_symlinks v (path_string a))) (\<lambda>normalized.
             abs_of v (path_join normalized (join ''/'' (map component_name (drop (length a) p)))))"
  have "?step a \<in> {None, Some p}" if "a \<in> set (ancestors p)" for a
  proof -
    have a: "prefix a p" "abs_path_ok a"
      using ancestor_of [OF that] abs_prefix_ok [OF assms(2)] assms(2) by (auto simp: abs_path_ok_def)
    have canonical: "canonicalize_preserving_symlinks v (path_string a) = Ok (path_string a)"
      using assms(1) a(2) absolute_path_roundtrip [OF a(2), of "os_host v"]
      by (auto simp: canonicalize_preserving_symlinks_def no_links_def)
    obtain ps where ps: "p = RootDir # map Normal ps" "list_all plain_name ps"
      using assms(2) by (rule abs_path_cases)
    define ns where "ns = drop (length a - 1) ps"
    have "drop (length a) p = map Normal ns"
      using a(2) by (cases a) (auto simp: ps(1) ns_def drop_map abs_path_ok_def)
    then have ns: "p = a @ map Normal ns" "list_all plain_name ns"
      using a(1) ps(2) by (auto simp: prefix_def ns_def list_all_iff dest: in_set_dropD)
    have "abs_of v (path_join (path_string a) (join ''/'' ns)) = Some p"
      using normalize_path_join [OF a(2) ns(2)] is_absolute_path_string [OF a(2)]
      by (simp add: abs_of_absolute is_absolute_path_join ns(1))
    then show ?thesis
      using canonical by (simp add: res_ok_def ns(1) comp_def)
  qed
  then have "find_map ?step (ancestors p) \<in> {None, Some p}"
    by (rule find_map_in)
  then show ?thesis
    unfolding normalize_effective_absolute_path_def by auto
qed

section \<open>Innermost writable root\<close>

lemma set_dedup: "set (dedup_paths seen ps) = set ps - set seen"
  by (induction ps arbitrary: seen) auto

text \<open>What the code computes for the root of a write entry.\<close>

definition sound_root :: "os_view \<Rightarrow> fs_sandbox_policy \<Rightarrow> string \<Rightarrow> resolved_entry \<Rightarrow> writable_root \<Rightarrow> bool" where
  "sound_root v p cwd e r \<longleftrightarrow>
     write_entry v p cwd e \<and> wr_root r = re_path e \<and>
     can_write_path_with_cwd v p (path_string (re_path e)) cwd \<and>
     (\<forall>d \<in> set (resolved_entries_with_cwd v p cwd).
        re_access d \<noteq> Write \<and> \<not> can_write_path_with_cwd v p (path_string (re_path d)) cwd \<and>
        prefix (re_path e) (re_path d) \<and> re_path d \<noteq> re_path e \<longrightarrow> re_path d \<in> set (wr_read_only_subpaths r)) \<and>
     (\<forall>n \<in> set PROTECTED_METADATA_PATH_NAMES.
        \<not> can_write_path_with_cwd v p (path_string (metadata_dir e n)) cwd \<longrightarrow> n \<in> set (wr_protected_metadata_names r))"

lemma writable_root_sound:
  assumes "no_links v" and "\<And>e. e \<in> set (resolved_entries_with_cwd v p cwd) \<Longrightarrow> abs_path_ok (re_path e)"
    and "r \<in> set (get_writable_roots_with_cwd v p cwd)"
  shows "\<exists>e. sound_root v p cwd e r"
proof -
  let ?es = "resolved_entries_with_cwd v p cwd"
  let ?we = "map re_path (filter (\<lambda>e. can_write (re_access e) \<and> can_write_path_with_cwd v p (path_string (re_path e)) cwd) ?es)"
  have full: "\<not> has_full_disk_write_access p"
    using assms(3) by (auto simp: get_writable_roots_with_cwd_def)
  have eff: "normalize_effective_absolute_path v (re_path e) = re_path e" if "e \<in> set ?es" for e
    using effective_path_id [OF assms(1)] assms(2) that by blast
  have "map (normalize_effective_absolute_path v) ?we = ?we"
    using eff by (intro map_idI) auto
  then have dedup: "set (dedup_absolute_paths v ?we True) = set ?we"
    by (simp add: dedup_absolute_paths_def set_dedup)
  obtain root where root: "root \<in> set ?we" "r = writable_root_of v p cwd ?we root"
    using assms(3) full dedup by (auto simp: get_writable_roots_with_cwd_def Let_def)
  then obtain e where e: "e \<in> set ?es" "re_access e = Write" "root = re_path e"
    "can_write_path_with_cwd v p (path_string (re_path e)) cwd"
    by (auto simp: can_write_def)
  have r: "wr_root r = re_path e"
    by (simp add: root(2) writable_root_of_def Let_def e(3))
  have carve: "carveout_path v root raw d = Some (re_path d)"
    if "d \<in> set ?es" "prefix (re_path e) (re_path d)" "re_path d \<noteq> re_path e" for d raw
    using that eff [OF that(1)] by (auto simp: carveout_path_def raw_carveout_path_def e(3) Let_def)
  have "sound_root v p cwd e r"
    unfolding sound_root_def
  proof (intro conjI ballI impI)
    show "write_entry v p cwd e"
      using e by (simp add: write_entry_def)
    show "wr_root r = re_path e"
      by (rule r)
    show "can_write_path_with_cwd v p (path_string (re_path e)) cwd"
      by (rule e(4))
    show "re_path d \<in> set (wr_read_only_subpaths r)"
      if "d \<in> set ?es" "re_access d \<noteq> Write \<and> \<not> can_write_path_with_cwd v p (path_string (re_path d)) cwd \<and>
        prefix (re_path e) (re_path d) \<and> re_path d \<noteq> re_path e" for d
      using that carve [of d]
      by (auto simp: root(2) writable_root_of_def Let_def dedup_absolute_paths_def set_dedup in_set_filter_map can_write_def
          intro!: bexI [of _ d])
    show "n \<in> set (wr_protected_metadata_names r)"
      if "n \<in> set PROTECTED_METADATA_PATH_NAMES" "\<not> can_write_path_with_cwd v p (path_string (metadata_dir e n)) cwd" for n
    proof -
      have join: "abs_join (os_host v) (re_path e) n = metadata_dir e n"
        using abs_join_plain [OF assms(2) [OF e(1)]] metadata_names [OF that(1)] by (simp add: metadata_dir_def)
      let ?raw = "filter (\<lambda>path. normalize_effective_absolute_path v path = root) ?we"
      have raw: "x = re_path e" if "x \<in> set (root # ?raw)" for x
        using that eff e(3) by auto
      have "\<not> can_write_path_with_cwd v p (path_string (abs_join (os_host v) x n)) cwd" if "x \<in> set (root # ?raw)" for x
        using raw [OF that] join \<open>\<not> can_write_path_with_cwd v p (path_string (metadata_dir e n)) cwd\<close> by simp
      then have "n \<in> set (protected_metadata_names_for_writable_root v p root ?raw cwd)"
        using \<open>n \<in> set PROTECTED_METADATA_PATH_NAMES\<close>
        unfolding protected_metadata_names_for_writable_root_def list_all_iff set_filter by blast
      then show ?thesis
        by (simp add: root(2) writable_root_of_def Let_def)
    qed
  qed
  then show ?thesis ..
qed

lemma covering_root_exists:
  assumes "no_links v" and "\<And>e. e \<in> set (resolved_entries_with_cwd v p cwd) \<Longrightarrow> abs_path_ok (re_path e)"
    and "\<not> has_full_disk_write_access p" and "write_entry v p cwd e"
    and "can_write_path_with_cwd v p (path_string (re_path e)) cwd"
  shows "\<exists>r \<in> set (get_writable_roots_with_cwd v p cwd). wr_root r = re_path e"
proof -
  let ?we = "map re_path (filter (\<lambda>e. can_write (re_access e) \<and> can_write_path_with_cwd v p (path_string (re_path e)) cwd)
      (resolved_entries_with_cwd v p cwd))"
  have "map (normalize_effective_absolute_path v) ?we = ?we"
    using effective_path_id [OF assms(1)] assms(2) by (intro map_idI) auto
  then have "re_path e \<in> set (dedup_absolute_paths v ?we True)"
    using assms(4,5) by (auto simp: dedup_absolute_paths_def set_dedup write_entry_def can_write_def)
  then show ?thesis
    using assms(3) by (auto simp: get_writable_roots_with_cwd_def Let_def writable_root_of_def)
qed

lemma metadata_child_shorter:
  assumes ok: "abs_path_ok t" "abs_path_ok q" "\<And>e. write_entry v p cwd e \<Longrightarrow> abs_path_ok (re_path e)"
    and child: "metadata_child_of_writable_root v p t cwd = Some (q, n)" and "prefix q t"
  shows "metadata_child_of_writable_root v p q cwd = Some (q, n)"
proof -
  let ?ws = "filter (\<lambda>e. can_write (re_access e)) (resolved_entries_with_cwd v p cwd)"
  have "find_map (metadata_step v t) ws = Some (q, n) \<Longrightarrow> find_map (metadata_step v q) ws = Some (q, n)"
    if "\<forall>e \<in> set ws. abs_path_ok (re_path e)" for ws
    using that
  proof (induction ws)
    case (Cons e ws)
    have e: "abs_path_ok (re_path e)"
      using Cons.prems by simp
    show ?case
    proof (cases "metadata_step v t e")
      case None
      have "metadata_step v q e = None"
      proof (rule ccontr)
        assume "metadata_step v q e \<noteq> None"
        then obtain d k where "metadata_step v q e = Some (d, k)"
          by auto
        then have "metadata_step v t e = Some (d, k)"
          using metadata_step_Some_iff [OF ok(1) e] metadata_step_Some_iff [OF ok(2) e] assms(5)
          by (metis prefix_order.trans)
        then show False using None by simp
      qed
      then show ?thesis using None Cons by simp
    next
      case (Some x)
      then have "metadata_step v t e = Some (q, n)"
        using Cons.prems by simp
      then have "metadata_step v q e = Some (q, n)"
        using metadata_step_Some_iff [OF ok(1) e] metadata_step_Some_iff [OF ok(2) e] by auto
      then show ?thesis by simp
    qed
  qed simp
  moreover have "\<forall>e \<in> set ?ws. abs_path_ok (re_path e)"
    using ok(3) set_write_entries [of v p cwd] by blast
  ultimately show ?thesis
    using child unfolding metadata_child_steps by blast
qed

lemma decides_own_path:
  assumes "decides e es t"
  shows "decides e es (re_path e)"
proof -
  have "prefix (re_path d) t" if "prefix (re_path d) (re_path e)" for d
    using assms that prefix_order.trans by (auto simp: decides_def)
  then show ?thesis
    using assms by (auto simp: decides_def)
qed

lemma access_of_entry_path:
  assumes "fs_kind p = Restricted" and "abs_path_ok (re_path e)"
    and "decides e (resolved_entries_with_cwd v p cwd) t"
  shows "resolve_access_with_cwd v p (path_string (re_path e)) cwd = re_access e"
  using resolve_access_decided [OF assms(1) _ decides_own_path [OF assms(3)]] assms(2) by simp

lemma root_access:
  assumes "fs_kind p = Restricted" and "abs_path_ok t"
    and ok: "\<And>e. e \<in> set (resolved_entries_with_cwd v p cwd) \<Longrightarrow> abs_path_ok (re_path e)"
    and root: "sound_root v p cwd e r" and writable: "is_path_writable r (path_string t)"
  shows "resolve_access_with_cwd v p (path_string t) cwd = Write"
proof -
  let ?es = "resolved_entries_with_cwd v p cwd"
  have e: "e \<in> set ?es" "re_access e = Write" "prefix (re_path e) t"
    and free: "\<forall>q \<in> set (wr_read_only_subpaths r). \<not> prefix q t"
    using root writable assms(2)
    by (auto simp: sound_root_def write_entry_def is_path_writable_def components_path_string list_ex_iff split: if_splits)
  obtain d where d: "decides d ?es t"
    using deciding_entry [of ?es t] e by (auto simp: covered_def)
  have dok: "abs_path_ok (re_path d)"
    using ok d by (simp add: decides_def)
  have acc: "resolve_access_with_cwd v p (path_string (re_path d)) cwd = re_access d"
    by (rule access_of_entry_path [OF assms(1) dok d])
  have longer: "length (re_path e) < length (re_path d) \<or> re_path e = re_path d"
    using d e by (auto simp: decides_def)
  have pre: "prefix (re_path e) (re_path d)"
    using longer e(3) d by (auto simp: decides_def intro: prefix_length_prefix)
  have "re_access d = Write"
  proof (rule ccontr)
    assume no: "re_access d \<noteq> Write"
    then have "\<not> can_write_path_with_cwd v p (path_string (re_path d)) cwd"
      by (simp add: can_write_path_iff acc)
    moreover from this have "re_path d \<noteq> re_path e"
      using root by (auto simp: sound_root_def)
    ultimately have "re_path d \<in> set (wr_read_only_subpaths r)"
      using root no pre d by (auto simp: sound_root_def decides_def)
    then show False
      using free d by (auto simp: decides_def)
  qed
  then show ?thesis
    using resolve_access_decided [OF assms(1) _ d] assms(2) by simp
qed

lemma nested_write_entry_writable:
  assumes "fs_kind p = Restricted" and ok: "\<And>e. e \<in> set (resolved_entries_with_cwd v p cwd) \<Longrightarrow> abs_path_ok (re_path e)"
    and e: "write_entry v p cwd e" and "resolve_access_with_cwd v p (path_string (re_path e)) cwd = Write"
  shows "can_write_path_with_cwd v p (path_string (re_path e)) cwd"
proof -
  have okw: "\<And>e. write_entry v p cwd e \<Longrightarrow> abs_path_ok (re_path e)"
    using ok by (simp add: write_entry_def)
  have "\<not> is_metadata_write_denied v p (path_string (re_path e)) cwd"
  proof
    assume "is_metadata_write_denied v p (path_string (re_path e)) cwd"
    then obtain q n where q: "metadata_child_of_writable_root v p (re_path e) cwd = Some (q, n)"
      and no: "\<not> has_explicit_write_entry_for_metadata_path v p q (re_path e) cwd"
      using okw [OF e] assms(1) by (auto simp: is_metadata_write_denied_def split: option.splits)
    have "prefix q (re_path e)"
      using metadata_child_Some [OF okw [OF e] okw q] by blast
    then show False
      using no e by (auto simp: has_explicit_write_entry_for_metadata_path_def list_ex_iff write_entry_def can_write_def)
  qed
  then show ?thesis
    using assms(4) by (simp add: can_write_path_iff)
qed

lemma metadata_root_is_innermost:
  assumes "fs_kind p = Restricted" and "abs_path_ok t"
    and ok: "\<And>e. e \<in> set (resolved_entries_with_cwd v p cwd) \<Longrightarrow> abs_path_ok (re_path e)"
    and root: "sound_root v p cwd e r" and writable: "is_path_writable r (path_string t)"
    and inner: "\<And>d. write_entry v p cwd d \<Longrightarrow> can_write_path_with_cwd v p (path_string (re_path d)) cwd \<Longrightarrow>
      prefix (re_path d) t \<Longrightarrow> length (re_path d) \<le> length (re_path e)"
    and d: "write_entry v p cwd d" "prefix (re_path e) (re_path d)" "prefix (re_path d) t"
  shows "re_path d = re_path e"
proof -
  let ?es = "resolved_entries_with_cwd v p cwd"
  have free: "\<forall>q \<in> set (wr_read_only_subpaths r). \<not> prefix q t"
    using writable assms(2)
    by (auto simp: is_path_writable_def components_path_string list_ex_iff split: if_splits)
  have dok: "abs_path_ok (re_path d)"
    using ok d(1) by (simp add: write_entry_def)
  obtain x where x: "decides x ?es (re_path d)"
    using deciding_entry [of ?es "re_path d"] d(1) by (auto simp: covered_def write_entry_def)
  have path: "re_path x = re_path d"
    using x d(1) by (fastforce simp: decides_def write_entry_def dest: prefix_length_le)
  have acc: "resolve_access_with_cwd v p (path_string (re_path d)) cwd = re_access x"
    using resolve_access_decided [OF assms(1) _ x] dok by simp
  show ?thesis
  proof (rule ccontr)
    assume neq: "re_path d \<noteq> re_path e"
    have "re_access x = Write"
    proof (rule ccontr)
      assume "re_access x \<noteq> Write"
      moreover from this have "\<not> can_write_path_with_cwd v p (path_string (re_path x)) cwd"
        by (simp add: can_write_path_iff acc path)
      ultimately have "re_path x \<in> set (wr_read_only_subpaths r)"
        using root x d(2) neq by (auto simp: sound_root_def decides_def path)
      then show False
        using free d(3) path by auto
    qed
    then have "can_write_path_with_cwd v p (path_string (re_path d)) cwd"
      using nested_write_entry_writable [OF assms(1) ok d(1)] acc by simp
    then have "length (re_path d) \<le> length (re_path e)"
      using inner d by blast
    then show False
      using d(2) neq by (auto simp: prefix_def)
  qed
qed

lemma metadata_below_root_allowed:
  assumes "fs_kind p = Restricted" and "\<not> has_full_disk_write_access p" and "abs_path_ok t"
    and ok: "\<And>e. e \<in> set (resolved_entries_with_cwd v p cwd) \<Longrightarrow> abs_path_ok (re_path e)"
    and root: "sound_root v p cwd e r" and writable: "is_path_writable r (path_string t)"
    and child: "metadata_child_of_writable_root v p t cwd = Some (metadata_dir e n, n)"
    and n: "n \<in> set PROTECTED_METADATA_PATH_NAMES" and q: "prefix (metadata_dir e n) t"
  shows "has_explicit_write_entry_for_metadata_path v p (metadata_dir e n) t cwd"
proof -
  have okw: "\<And>e. write_entry v p cwd e \<Longrightarrow> abs_path_ok (re_path e)"
    using ok by (simp add: write_entry_def)
  have qok: "abs_path_ok (metadata_dir e n)"
    using abs_prefix_ok [OF assms(3) q] by (simp add: metadata_dir_def)
  have "n \<notin> set (wr_protected_metadata_names r)"
    using writable assms(3) q root
    by (auto simp: is_path_writable_def path_contains_protected_metadata_name_def components_path_string list_ex_iff
        sound_root_def metadata_dir_def prefix_def split: if_splits list.splits)
  then have "can_write_path_with_cwd v p (path_string (metadata_dir e n)) cwd"
    using root n by (auto simp: sound_root_def)
  then have "\<not> is_metadata_write_denied v p (path_string (metadata_dir e n)) cwd"
    using assms(2) by (simp add: can_write_path_iff)
  then obtain g where "write_entry v p cwd g" "prefix (re_path g) (metadata_dir e n)" "prefix (metadata_dir e n) (re_path g)"
    using not_denied_explicit [OF assms(1) candidate_path_string [OF qok] _ metadata_child_shorter [OF assms(3) qok okw child q]]
    by metis
  then show ?thesis
    using q prefix_order.trans
    by (auto simp: has_explicit_write_entry_for_metadata_path_def list_ex_iff write_entry_def can_write_def)
qed

text \<open>
  C7: The roots for the platform sandbox are sound. Without symbolic links, when the innermost writable
  root above a path allows the path, with its read-only subpaths and protected names taken out, the
  policy allows writing it too. So a sandbox that enforces the innermost root never opens a path that
  the policy keeps closed.
\<close>

theorem innermost_root_sound:
  assumes "view_ok v" and "no_links v" and "entries_ok p" and "fs_kind p = Restricted"
    and "abs_path_ok c" and "abs_path_ok t"
    and "r \<in> set (get_writable_roots_with_cwd v p (path_string c))"
    and "is_path_writable r (path_string t)"
    and "\<forall>r' \<in> set (get_writable_roots_with_cwd v p (path_string c)).
      prefix (wr_root r') t \<longrightarrow> length (wr_root r') \<le> length (wr_root r)"
  shows "can_write_path_with_cwd v p (path_string t) (path_string c)"
proof -
  let ?cwd = "path_string c"
  have ok: "abs_path_ok (re_path e)" if "e \<in> set (resolved_entries_with_cwd v p ?cwd)" for e
    using resolved_entries_ok [OF assms(1,5,3) that] .
  have okw: "abs_path_ok (re_path e)" if "write_entry v p ?cwd e" for e
    using ok that by (simp add: write_entry_def)
  have full: "\<not> has_full_disk_write_access p"
    using assms(7) by (auto simp: get_writable_roots_with_cwd_def)
  obtain e where root: "sound_root v p ?cwd e r"
    using writable_root_sound [OF assms(2) ok assms(7)] by blast
  then have e: "write_entry v p ?cwd e" "wr_root r = re_path e"
    by (simp_all add: sound_root_def)
  have access: "resolve_access_with_cwd v p (path_string t) ?cwd = Write"
    by (rule root_access [OF assms(4,6) ok root assms(8)])
  have "\<not> is_metadata_write_denied v p (path_string t) ?cwd"
  proof
    assume "is_metadata_write_denied v p (path_string t) ?cwd"
    then obtain q n where q: "metadata_child_of_writable_root v p t ?cwd = Some (q, n)"
      and no: "\<not> has_explicit_write_entry_for_metadata_path v p q t ?cwd"
      using assms(4,6) by (auto simp: is_metadata_write_denied_def split: option.splits)
    obtain d where d: "write_entry v p ?cwd d" "q = metadata_dir d n" "n \<in> set PROTECTED_METADATA_PATH_NAMES" "prefix q t"
      using metadata_child_Some [OF assms(6) okw q] by blast
    have et: "prefix (re_path e) t"
      using assms(6,8) e(2) by (auto simp: is_path_writable_def components_path_string split: if_splits)
    have "\<not> prefix q (re_path e)"
      using no e(1) et
      by (auto simp: has_explicit_write_entry_for_metadata_path_def list_ex_iff write_entry_def can_write_def)
    then have ed: "prefix (re_path e) (re_path d)"
      using prefix_same_cases [OF et d(4)] d(2) by (auto simp: metadata_dir_def)
    have dt: "prefix (re_path d) t"
      using d(2,4) by (auto simp: metadata_dir_def dest: append_prefixD)
    have inner: "length (re_path x) \<le> length (re_path e)"
      if "write_entry v p ?cwd x" "can_write_path_with_cwd v p (path_string (re_path x)) ?cwd" "prefix (re_path x) t" for x
      using covering_root_exists [OF assms(2) ok full that(1,2)] assms(9) that(3) e(2) by fastforce
    have "re_path d = re_path e"
      by (rule metadata_root_is_innermost [OF assms(4,6) ok root assms(8) inner d(1) ed dt])
    then have "q = metadata_dir e n"
      using d(2) by (simp add: metadata_dir_def)
    then show False
      using metadata_below_root_allowed [OF assms(4) full assms(6) ok root assms(8)] q d(3,4) no by simp
  qed
  then show ?thesis
    using access full by (simp add: can_write_path_iff)
qed

section \<open>Full write access\<close>

lemma resolved_entryI:
  assumes "e \<in> set (fs_entries p)" and "resolve_entry_path v (en_path e) (abs_of v cwd) = Some q"
  shows "\<lparr>re_path = q, re_access = en_access e\<rparr> \<in> set (resolved_entries_with_cwd v p cwd)"
  using assms unfolding resolved_entries_with_cwd_def in_set_filter_map by (intro bexI [of _ e]) simp_all

lemma slash_tmp: "abs_of v ''/tmp'' = Some (components ''/tmp'')" "path_string (components ''/tmp'') = ''/tmp''"
proof -
  have "normalize_path ''/tmp'' = components ''/tmp''" "is_absolute ''/tmp''"
    by code_simp+
  then show "abs_of v ''/tmp'' = Some (components ''/tmp'')"
    by (simp add: abs_of_absolute)
  show "path_string (components ''/tmp'') = ''/tmp''"
    by code_simp
qed

lemma shared_target_resolves:
  assumes "abs_path_ok c" and "os_is_dir v ''/tmp''" and "\<And>q. en_path e = FsPath q \<Longrightarrow> abs_path_ok q"
    and "\<And>q. en_path d = FsPath q \<Longrightarrow> abs_path_ok q"
    and "file_system_paths_share_target (en_path d) (en_path e)"
    and "resolve_entry_path v (en_path e) (Some c) = Some q"
  shows "resolve_entry_path v (en_path d) (Some c) = Some q"
proof -
  have root: "abs_parent x = None \<Longrightarrow> abs_path_ok x \<Longrightarrow> x = [RootDir]" for x
    by (erule abs_path_cases) (auto simp: abs_parent_def last_map split: if_splits)
  show ?thesis
    using assms root
    by (cases "en_path e"; cases "en_path d")
      (auto simp: file_system_paths_share_target_def special_paths_share_target_def special_path_matches_absolute_path_def
        resolve_entry_path_def resolve_file_system_path_def resolve_file_system_special_path_def slash_tmp
        split: special_path.splits if_splits)
qed

lemma shadowed_entry:
  assumes "entries_ok p" and "abs_path_ok c" and "os_is_dir v ''/tmp''"
    and "has_full_disk_write_access p" and "fs_kind p = Restricted"
    and x: "x \<in> set (fs_entries p)" "en_access x \<noteq> Write" "resolve_entry_path v (en_path x) (Some c) = Some q"
    and w: "w \<in> set (fs_entries p)" "en_path w = Special RootPath" "en_access w = Write"
  shows "\<exists>d \<in> set (fs_entries p). en_access d = Write \<and> en_access x < Write \<and>
    resolve_entry_path v (en_path d) (Some c) = Some q"
proof -
  have ok: "abs_path_ok y" if "d \<in> set (fs_entries p)" "en_path d = FsPath y" for d y
    using assms(1) that by (fastforce simp: entries_ok_def list_all_iff)
  have "\<not> narrows_write p x"
    using assms(4,5) x(1) by (auto simp: has_full_disk_write_access_def has_write_narrowing_entries_def list_ex_iff)
  then consider (root) "en_path x = Special RootPath" "en_access x = Read" | (over) "has_same_target_write_override p x"
    using x(2,3)
    by (cases "en_path x"; cases "en_access x")
      (auto simp: narrows_write_def can_write_def resolve_entry_path_def resolve_file_system_path_def
        resolve_file_system_special_path_def split: special_path.splits)
  then show ?thesis
  proof cases
    case root
    then show ?thesis
      using w x(3) by (intro bexI [of _ w]) (auto simp: less_access_mode_def)
  next
    case over
    then obtain d where d: "d \<in> set (fs_entries p)" "en_access d = Write" "en_access x < Write"
      and share: "file_system_paths_share_target (en_path d) (en_path x)"
      by (auto simp: has_same_target_write_override_def list_ex_iff can_write_def)
    have "resolve_entry_path v (en_path d) (Some c) = Some q"
      using assms(2,3) ok [OF x(1)] ok [OF d(1)] share x(3) by (rule shared_target_resolves)
    then show ?thesis
      using d by blast
  qed
qed

text \<open>
  C25: When a policy reports full write access to the disk, every path that can be resolved is writable
  under it: no entry of the policy takes any access back. (The directory \<^verbatim>\<open>/tmp\<close> has to exist.)
\<close>

theorem full_disk_write_allows_all:
  assumes "view_ok v" and "entries_ok p" and "abs_path_ok c" and tmp: "os_is_dir v ''/tmp''"
    and full: "has_full_disk_write_access p"
    and t: "resolve_candidate_path v path (path_string c) = Some t"
  shows "can_write_path_with_cwd v p path (path_string c)"
proof (cases "fs_kind p = Restricted")
  case False
  then show ?thesis
    using full by (simp add: can_write_path_iff resolve_access_with_cwd_def)
next
  case True
  let ?es = "resolved_entries_with_cwd v p (path_string c)"
  have c: "abs_of v (path_string c) = Some c"
    using assms(3) by simp
  obtain w where w: "w \<in> set (fs_entries p)" "en_path w = Special RootPath" "en_access w = Write"
    using full True by (auto simp: has_full_disk_write_access_def has_root_access_def list_ex_iff can_write_def)
  have root: "\<lparr>re_path = [RootDir], re_access = Write\<rparr> \<in> set ?es"
    using resolved_entryI [OF w(1), of v "path_string c" "[RootDir]"] w(2,3) c assms(3) by (simp add: resolve_entry_path_def)
  have "prefix [RootDir] t"
    using candidate_ok [OF assms(1) t] by (cases t) (auto simp: abs_path_ok_def)
  then have "covered ?es t"
    using root by (force simp: covered_def)
  then obtain e where e: "decides e ?es t"
    by (rule deciding_entry)
  have "re_access e = Write"
  proof (rule ccontr)
    assume no: "re_access e \<noteq> Write"
    obtain x where x: "x \<in> set (fs_entries p)" "re_access e = en_access x" "resolve_entry_path v (en_path x) (Some c) = Some (re_path e)"
      using e c by (auto simp: decides_def resolved_entries_with_cwd_def in_set_filter_map)
    have "\<exists>d \<in> set (fs_entries p). en_access d = Write \<and> en_access x < Write \<and>
        resolve_entry_path v (en_path d) (Some c) = Some (re_path e)"
      using shadowed_entry [OF assms(2,3) tmp full True x(1) _ x(3) w] no x(2) by simp
    then obtain d where d: "d \<in> set (fs_entries p)" "en_access d = Write" "en_access x < Write"
      "resolve_entry_path v (en_path d) (Some c) = Some (re_path e)"
      by blast
    have "\<lparr>re_path = re_path e, re_access = Write\<rparr> \<in> set ?es"
      using resolved_entryI [OF d(1)] d(2,4) c by metis
    then have "Write \<le> re_access e"
      using e by (force simp: decides_def)
    then show False
      using d(3) x(2) by simp
  qed
  then have "resolve_access_with_cwd v p path (path_string c) = Write"
    using resolve_access_decided [OF True t e] by simp
  then show ?thesis
    using full by (simp add: can_write_path_iff)
qed

section \<open>The workspace policy\<close>

lemma plain_view_no_links: "no_links plain_view"
  by (auto simp: no_links_def plain_view_def)

theorem innermost_root_sound_witness:
  "\<exists>r \<in> set (get_writable_roots_with_cwd plain_view plain_policy ''/w'').
     is_path_writable r ''/w/src'' \<and> can_write_path_with_cwd plain_view plain_policy ''/w/src'' ''/w''"
proof -
  let ?roots = "get_writable_roots_with_cwd plain_view plain_policy ''/w''"
  let ?t = "[RootDir, Normal ''w'', Normal ''src'']"
  have facts: "abs_path_ok ?t" "path_string ?t = ''/w/src''"
    "list_ex (\<lambda>r. is_path_writable r ''/w/src'' \<and>
       list_all (\<lambda>r'. prefix (wr_root r') ?t \<longrightarrow> length (wr_root r') \<le> length (wr_root r)) ?roots) ?roots"
    by code_simp+
  then obtain r where "r \<in> set ?roots" "is_path_writable r ''/w/src''"
    "\<forall>r' \<in> set ?roots. prefix (wr_root r') ?t \<longrightarrow> length (wr_root r') \<le> length (wr_root r)"
    by (auto simp: list_ex_iff list_all_iff)
  then show ?thesis
    using innermost_root_sound [OF plain_view_ok plain_view_no_links plain_policy_facts(2,1) plain_cwd(1) facts(1), of r]
    unfolding plain_cwd(2) facts(2) by blast
qed

definition full_policy :: fs_sandbox_policy where
  "full_policy = restricted [new_entry (Special RootPath) Write, new_entry (Special SlashTmp) Write,
     new_entry (FsPath [RootDir, Normal ''tmp'']) Read]"

theorem full_disk_write_allows_all_witness:
  "has_full_disk_write_access full_policy \<and> can_write_path_with_cwd plain_view full_policy ''/etc/passwd'' ''/w''"
proof -
  have "entries_ok full_policy" "os_is_dir plain_view ''/tmp''" "has_full_disk_write_access full_policy"
    "resolve_candidate_path plain_view ''/etc/passwd'' ''/w'' = Some [RootDir, Normal ''etc'', Normal ''passwd'']"
    by code_simp+
  then show ?thesis
    using full_disk_write_allows_all [OF plain_view_ok _ plain_cwd(1), of full_policy "''/etc/passwd''"]
    unfolding plain_cwd(2) by blast
qed

text \<open>
  Without a directory \<^verbatim>\<open>/tmp\<close> the special entry for it resolves to nothing, but it still counts as an
  override of the literal entry: the policy reports full write access and denies a write.
\<close>

lemma full_access_without_tmp:
  "has_full_disk_write_access full_policy \<and>
   \<not> can_write_path_with_cwd (plain_view\<lparr>os_is_dir := (\<lambda>_. False)\<rparr>) full_policy ''/tmp/x'' ''/w''"
  by code_simp

end
