(* ===== verification/Sandbox_Changes.thy ===== *)
theory Sandbox_Changes
  imports Sandbox_Refine
begin

text \<open>
  Denied reads, and what happens to a policy when it is rebuilt, bound to a directory, extended or
  translated to the legacy form and back.
\<close>

section \<open>Denied reads\<close>

lemma build_matchers_closed:
  "\<exists>ms inv. build_matchers globs FailClosed ps matchers invalid = Ok (ms, inv) \<and>
     (inv \<longleftrightarrow> invalid \<or> (\<exists>pattern \<in> set ps. \<not> is_ok (globs pattern)))"
proof (induction ps arbitrary: matchers invalid)
  case (Cons pattern ps)
  show ?case
  proof (cases "globs pattern")
    case (Inl err)
    then show ?thesis
      using Cons.IH [of matchers True] by auto
  next
    case (Inr m)
    then show ?thesis
      using Cons.IH [of "matchers @ [m]" invalid] by auto
  qed
qed simp

lemma candidate_spellings:
  assumes "view_ok v"
  shows "abs_of v path = Some t \<Longrightarrow> \<exists>s \<in> set (normalized_and_canonical_candidates v path). components s = t"
    and "os_canonicalize v path = Some s' \<Longrightarrow> abs_of v s' = Some t \<Longrightarrow>
      \<exists>s \<in> set (normalized_and_canonical_candidates v path). components s = t"
  using abs_of_ok [OF assms]
  by (auto simp: normalized_and_canonical_candidates_def push_unique_def components_path_string Let_def
      split: option.splits)

text \<open>
  C21: Reads of a denied directory are refused under every spelling that is looked at: when a path, made
  absolute, or the canonical form of the path, for example the target of a link, lies in an unreadable
  root of the policy, the matcher refuses it. And the matcher fails closed: when one of the patterns
  does not compile, it refuses every path. Building it never reaches the branch declared unreachable.
\<close>

theorem denied_reads_refused:
  assumes "view_ok v" and restricted: "has_denied_read_restrictions p"
  shows "\<exists>m. new_matcher v globs p cwd = Some (Some m) \<and>
    (\<forall>path. (\<exists>pattern \<in> set (get_unreadable_globs_with_cwd v p cwd). \<not> is_ok (globs pattern)) \<longrightarrow>
       is_read_denied v m path) \<and>
    (\<forall>path t d. d \<in> set (get_unreadable_roots_with_cwd v p cwd) \<and> abs_path_ok d \<and> prefix d t \<and>
       (abs_of v path = Some t \<or> Option.bind (os_canonicalize v path) (abs_of v) = Some t) \<longrightarrow>
       is_read_denied v m path)"
proof -
  obtain ms inv where ms: "build_matchers globs FailClosed (get_unreadable_globs_with_cwd v p cwd) [] False = Ok (ms, inv)"
    "inv \<longleftrightarrow> (\<exists>pattern \<in> set (get_unreadable_globs_with_cwd v p cwd). \<not> is_ok (globs pattern))"
    using build_matchers_closed [of globs "get_unreadable_globs_with_cwd v p cwd" "[]" False] by auto
  define m where "m = \<lparr>denied_candidates = map (\<lambda>path. normalized_and_canonical_candidates v (path_string path))
      (get_unreadable_roots_with_cwd v p cwd), deny_read_matchers = ms, invalid_pattern = inv\<rparr>"
  have new: "new_matcher v globs p cwd = Some (Some m)"
    using restricted ms(1) by (simp add: new_matcher_def matcher_build_def res_ok_def m_def)
  have "is_read_denied v m path"
    if d: "d \<in> set (get_unreadable_roots_with_cwd v p cwd)" "abs_path_ok d" "prefix d t"
      and path: "abs_of v path = Some t \<or> Option.bind (os_canonicalize v path) (abs_of v) = Some t" for path t d
  proof -
    obtain s where s: "s \<in> set (normalized_and_canonical_candidates v path)" "components s = t"
      using path candidate_spellings [OF assms(1), of path] unfolding bind_eq_Some_conv by metis
    obtain x where x: "x \<in> set (normalized_and_canonical_candidates v (path_string d))" "components x = d"
      using candidate_spellings(1) [OF assms(1) abs_of_path_string [OF d(2)]] by blast
    show ?thesis
      using s x d(1,3) by (auto simp: is_read_denied_def m_def Let_def list_ex_iff)
  qed
  moreover have "is_read_denied v m path"
    if "\<exists>pattern \<in> set (get_unreadable_globs_with_cwd v p cwd). \<not> is_ok (globs pattern)" for path
    using that ms(2) by (simp add: is_read_denied_def m_def)
  ultimately show ?thesis
    using new by blast
qed

section \<open>Changing a policy\<close>

lemma set_push_missing: "set (push_missing_entries new entries) = set new \<union> set entries"
proof (induction new arbitrary: entries)
  case (Cons e new)
  then show ?case
    by (simp add: push_missing_entries_def) (metis Un_insert_right insert_absorb)
qed (simp add: push_missing_entries_def)


subsection \<open>Binding project roots\<close>

lemma materialized_path:
  assumes "abs_path_ok c" and "abs_path_ok c'"
  shows "resolve_entry_path v (en_path (materialize_entry_with_cwd v (Some c) e)) (Some c') = resolve_entry_path v (en_path e) (Some c)"
proof (cases "en_path e")
  case (Special s)
  then show ?thesis
    using assms
    by (cases s) (auto simp: materialize_entry_with_cwd_def resolve_entry_path_def resolve_file_system_path_def
        resolve_file_system_special_path_def)
qed (auto simp: materialize_entry_with_cwd_def resolve_entry_path_def resolve_file_system_path_def split: option.splits)

lemma materialized_access [simp]: "en_access (materialize_entry_with_cwd v c e) = en_access e"
  by (auto simp: materialize_entry_with_cwd_def split: fs_path.splits special_path.splits option.splits)

lemma filter_map_map: "filter_map f (map g xs) = filter_map (\<lambda>x. f (g x)) xs"
  by (induction xs) (auto split: option.splits)

lemma filter_map_cong: "(\<And>x. x \<in> set xs \<Longrightarrow> f x = g x) \<Longrightarrow> filter_map f xs = filter_map g xs"
  by (induction xs) (auto split: option.splits)

text \<open>
  Binding the symbolic project roots of a policy to a working directory keeps what the policy means:
  under any later working directory, every absolute path has the access that the symbolic policy gave
  it in the directory it was bound to.
\<close>

theorem bound_policy_survives_cwd_change:
  assumes "abs_path_ok c" and "abs_path_ok c'" and "is_absolute path"
  shows "resolve_access_with_cwd v (materialize_project_roots_with_cwd v p (path_string c)) path (path_string c') =
    resolve_access_with_cwd v p path (path_string c)"
proof -
  have "resolved_entries_with_cwd v (materialize_project_roots_with_cwd v p (path_string c)) (path_string c') =
      resolved_entries_with_cwd v p (path_string c)"
    using assms(1,2)
    by (simp add: resolved_entries_with_cwd_def materialize_project_roots_with_cwd_def filter_map_map materialized_path)
  moreover have "fs_kind (materialize_project_roots_with_cwd v p (path_string c)) = fs_kind p"
    by (simp add: materialize_project_roots_with_cwd_def)
  ultimately show ?thesis
    using assms(3) by (cases "abs_of v path") (simp_all add: resolve_access_with_cwd_def resolve_candidate_path_def)
qed

subsection \<open>Legacy policies\<close>

lemma scan_fold_append:
  "fold (scan_entry v c) (es @ ds) sc = fold (scan_entry v c) ds (fold (scan_entry v c) es sc)"
  by simp

lemma scan_reads: "(\<And>e. e \<in> set es \<Longrightarrow> en_access e = Read) \<Longrightarrow> fold (scan_entry v c) es sc = sc"
  by (induction es) (auto simp: scan_entry_def can_write_def split: fs_path.splits special_path.splits option.splits)

text \<open>Only read entries are added after the given ones.\<close>

definition adds_reads :: "sandbox_entry list \<Rightarrow> sandbox_entry list \<Rightarrow> bool" where
  "adds_reads es es' \<longleftrightarrow> (\<exists>ds. es' = es @ ds \<and> (\<forall>d \<in> set ds. en_access d = Read))"

lemma adds_reads_refl: "adds_reads es es"
  by (simp add: adds_reads_def)

lemma adds_reads_trans: "adds_reads a b \<Longrightarrow> adds_reads b c \<Longrightarrow> adds_reads a c"
  unfolding adds_reads_def by (elim exE conjE, simp) (metis Un_iff set_append)

lemma adds_reads_fold:
  assumes "\<And>x es. adds_reads es (f x es)"
  shows "adds_reads es (fold f xs es)"
proof (induction xs arbitrary: es)
  case (Cons x xs)
  then show ?case
    using assms adds_reads_trans by simp blast
qed (simp add: adds_reads_refl)

lemma adds_reads_default: "adds_reads es (append_default_read_only_entry_if_no_explicit_rule path es)"
  by (auto simp: adds_reads_def append_default_read_only_entry_if_no_explicit_rule_def skip_missing_path_def)

lemma adds_reads_root: "adds_reads es (protect_root v b root es)"
  unfolding protect_root_def
  by (rule adds_reads_fold) (simp add: append_default_read_only_path_if_no_explicit_rule_def adds_reads_default)

lemma adds_reads_workspace: "adds_reads es (protect_workspace v cwd roots es)"
proof -
  have "adds_reads es (case abs_of v cwd of Some cwd_root \<Rightarrow> protect_root v True cwd_root es | None \<Rightarrow> es)"
    by (cases "abs_of v cwd") (auto simp: adds_reads_refl adds_reads_root)
  then show ?thesis
    unfolding protect_workspace_def by (rule adds_reads_trans) (rule adds_reads_fold, rule adds_reads_root)
qed

lemma workspace_policy_entries:
  "\<exists>ds. fs_entries (from_legacy_sandbox_policy_for_cwd v (WorkspaceWrite roots net xt xs) cwd) =
     workspace_entries roots xt xs @ ds \<and> (\<forall>d \<in> set ds. en_access d = Read)"
proof -
  have "adds_reads (workspace_entries roots xt xs) (fs_entries (workspace_write v roots xt xs))"
    unfolding workspace_write_def restricted_def fs_sandbox_policy.simps
    by (intro adds_reads_trans [OF adds_reads_fold adds_reads_fold] adds_reads_root)
      (simp add: append_default_read_only_project_root_subpath_if_no_explicit_rule_def adds_reads_default)
  from adds_reads_trans [OF this adds_reads_workspace]
  show ?thesis
    by (simp add: from_legacy_sandbox_policy_for_cwd_def adds_reads_def Let_def)
qed

lemma new_entry_sel [simp]: "en_path (new_entry path a) = path" "en_access (new_entry path a) = a"
  by (simp_all add: new_entry_def)

lemma scan_roots:
  "\<forall>x. c = Some x \<longrightarrow> x \<notin> set roots \<Longrightarrow> fold (scan_entry v c) (map (\<lambda>path. new_entry (FsPath path) Write) roots) sc =
     sc\<lparr>sc_writable_roots := sc_writable_roots sc @ roots\<rparr>"
  by (induction roots arbitrary: sc) (auto simp: scan_entry_def can_write_def)

lemma dedup_distinct: "distinct ps \<Longrightarrow> set ps \<inter> set seen = {} \<Longrightarrow> dedup_paths seen ps = ps"
  by (induction ps arbitrary: seen) auto

text \<open>
  C26: A legacy sandbox policy is recovered from the policy it is translated to: translating to entries
  for a working directory and back gives the same policy, with its extra roots, its network setting and
  its exclusions, whatever protected subpaths were added in between. The extra roots have to be distinct
  and different from the working directory.
\<close>

theorem legacy_policy_roundtrip:
  assumes "\<And>roots net xt xs. policy = WorkspaceWrite roots net xt xs \<Longrightarrow>
    distinct roots \<and> (\<forall>c. abs_of v cwd = Some c \<longrightarrow> c \<notin> set roots)"
  shows "to_legacy_sandbox_policy v (from_legacy_sandbox_policy_for_cwd v policy cwd)
      (network_policy_of_legacy policy) cwd = Ok policy"
proof (cases policy)
  case (WorkspaceWrite roots net xt xs)
  let ?p = "from_legacy_sandbox_policy_for_cwd v (WorkspaceWrite roots net xt xs) cwd"
  obtain ds where es: "fs_entries ?p = workspace_entries roots xt xs @ ds" and ds: "\<forall>d \<in> set ds. en_access d = Read"
    using workspace_policy_entries by blast
  have kind: "fs_kind ?p = Restricted"
    by (simp add: from_legacy_sandbox_policy_for_cwd_def workspace_write_def restricted_def Let_def)
  have "\<not> has_full_disk_write_access ?p"
    using es ds by (auto simp: has_full_disk_write_access_def kind has_root_access_def list_ex_iff workspace_entries_def
        new_entry_def can_write_def)
  moreover have "scan_entries v ?p cwd = \<lparr>sc_workspace_root_writable = True, sc_writable_roots = roots,
      sc_tmpdir_writable = (\<not> xt), sc_slash_tmp_writable = (\<not> xs), sc_unbridgeable_root_write = False\<rparr>"
    using assms [OF WorkspaceWrite] ds
    by (auto simp: scan_entries_def es workspace_entries_def scan_reads scan_roots scan_entry_def can_write_def)
  ultimately show ?thesis
    using assms [OF WorkspaceWrite]
    by (simp add: to_legacy_sandbox_policy_def kind WorkspaceWrite network_policy_of_legacy_def dedup_absolute_paths_def dedup_distinct)
qed (auto simp: to_legacy_sandbox_policy_def from_legacy_sandbox_policy_for_cwd_def network_policy_of_legacy_def
    unrestricted_def external_sandbox_def full_disk_legacy_def restricted_def has_full_disk_write_access_def
    has_root_access_def new_entry_def can_write_def scan_entries_def scan_entry_def)

section \<open>Instances\<close>

definition deny_policy :: fs_sandbox_policy where
  "deny_policy = restricted [new_entry (Special RootPath) Read,
     new_entry (FsPath [RootDir, Normal ''w'', Normal ''secret'']) Deny, new_entry (GlobPattern ''**/*.env'') Deny]"

theorem denied_reads_refused_witness:
  "\<exists>m. new_matcher plain_view (\<lambda>_. Ok (\<lambda>_. False)) deny_policy ''/w'' = Some (Some m) \<and>
     is_read_denied plain_view m ''/w/x/../secret/key''"
proof -
  let ?d = "[RootDir, Normal ''w'', Normal ''secret'']"
  have "has_denied_read_restrictions deny_policy"
    "?d \<in> set (get_unreadable_roots_with_cwd plain_view deny_policy ''/w'')" "abs_path_ok ?d"
    "prefix ?d (?d @ [Normal ''key''])" "abs_of plain_view ''/w/x/../secret/key'' = Some (?d @ [Normal ''key''])"
    by code_simp+
  then show ?thesis
    using denied_reads_refused [OF plain_view_ok, of deny_policy "\<lambda>_. Ok (\<lambda>_. False)" "''/w''"] by blast
qed


theorem bound_policy_survives_cwd_change_witness:
  "resolve_access_with_cwd plain_view (materialize_project_roots_with_cwd plain_view plain_policy ''/w'') ''/w/a'' ''/'' = Write"
proof -
  have "abs_path_ok [RootDir]" "path_string [RootDir] = ''/''" "is_absolute ''/w/a''"
    "resolve_access_with_cwd plain_view plain_policy ''/w/a'' ''/w'' = Write"
    by code_simp+
  then show ?thesis
    using bound_policy_survives_cwd_change [OF plain_cwd(1), of "[RootDir]" "''/w/a''" plain_view plain_policy]
    unfolding plain_cwd(2) by simp
qed

theorem legacy_policy_roundtrip_witness:
  "to_legacy_sandbox_policy plain_view plain_policy NetRestricted ''/w'' =
     Ok (WorkspaceWrite [[RootDir, Normal ''x'']] False True False)"
proof -
  have "abs_of plain_view ''/w'' = Some [RootDir, Normal ''w'']"
    by code_simp
  then show ?thesis
    using legacy_policy_roundtrip [of "WorkspaceWrite [[RootDir, Normal ''x'']] False True False" plain_view "''/w''"]
    by (simp add: plain_policy_def network_policy_of_legacy_def)
qed

end
