(* ===== verification/Patch_Safety.thy ===== *)
theory Patch_Safety
  imports Patch_Invocation Sandbox_Changes Exec_Approval
begin

text \<open>
  The safety check of a patch (\<^verbatim>\<open>codex-rs/core/src/safety.rs\<close>) and what becomes of its verdict
  (\<^verbatim>\<open>core/src/apply_patch.rs\<close>), and the composition with verification and application: what an
  automatically approved patch can touch. The table of changes is a hash map, whose iteration is the
  argument \<open>entries\<close>; \<open>lists_changes\<close> says that it is one of the table.
\<close>

section \<open>The check\<close>

datatype safety_check = AutoApprove | AskUser | Reject string

datatype sandbox_type = NoSandbox | MacosSeatbelt | LinuxSeccomp | WindowsRestrictedToken

definition get_platform_sandbox :: "bool \<Rightarrow> sandbox_type option" where
  "get_platform_sandbox windows_sandbox_enabled = Some LinuxSeccomp"

definition PATCH_REJECTED_OUTSIDE_PROJECT_REASON :: string where
  "PATCH_REJECTED_OUTSIDE_PROJECT_REASON = ''writing outside of the project; rejected by user approval settings''"

definition PATCH_REJECTED_READ_ONLY_REASON :: string where
  "PATCH_REJECTED_READ_ONLY_REASON = ''writing is blocked by read-only sandbox; rejected by user approval settings''"

definition lists_changes :: "'u apply_patch_action \<Rightarrow> ('u \<times> 'u proposed_change) list \<Rightarrow> bool" where
  "lists_changes action entries \<longleftrightarrow> distinct (map fst entries) \<and> map_of entries = action_changes action"

text \<open>Lexical normalisation of a path that is about to be checked.\<close>

definition normalize_patch_path :: "string \<Rightarrow> abs_path" where
  "normalize_patch_path path = foldl normalize_component [] (components path)"

definition is_uri_writable ::
  "'u url_lib \<Rightarrow> os_view \<Rightarrow> fs_sandbox_policy \<Rightarrow> abs_path \<Rightarrow> 'u \<Rightarrow> bool" where
  "is_uri_writable L v policy native_cwd u =
     (case path_uri_to_abs_path L (os_host v) u of
        Inl _ \<Rightarrow> False
      | Inr path \<Rightarrow>
          can_write_path_with_cwd v policy (path_string (normalize_patch_path (path_string path))) (path_string native_cwd))"

fun change_constrained ::
  "('u \<Rightarrow> bool) \<Rightarrow> 'u \<times> 'u proposed_change \<Rightarrow> bool" where
  "change_constrained writable (path, ProposeAdd _) = writable path"
| "change_constrained writable (path, ProposeDelete _) = writable path"
| "change_constrained writable (path, ProposeUpdate _ move_path _) =
     (writable path \<and> (case move_path of Some dest \<Rightarrow> writable dest | None \<Rightarrow> True))"

definition is_write_patch_constrained_to_writable_paths ::
  "'u url_lib \<Rightarrow> os_view \<Rightarrow> ('u \<times> 'u proposed_change) list \<Rightarrow> fs_sandbox_policy \<Rightarrow> 'u \<Rightarrow> bool" where
  "is_write_patch_constrained_to_writable_paths L v entries policy cwd =
     (if has_full_disk_write_access policy then True
      else case path_uri_to_abs_path L (os_host v) cwd of
          Inl _ \<Rightarrow> False
        | Inr native_cwd \<Rightarrow> list_all (change_constrained (is_uri_writable L v policy native_cwd)) entries)"

definition patch_rejection_reason ::
  "'u url_lib \<Rightarrow> os_view \<Rightarrow> permission_profile \<Rightarrow> fs_sandbox_policy \<Rightarrow> 'u \<Rightarrow> string" where
  "patch_rejection_reason L v profile policy cwd =
     (let has_no_writable_roots =
            (case path_uri_to_abs_path L (os_host v) cwd of
               Inr c \<Rightarrow> get_writable_roots_with_cwd v policy (path_string c) = []
             | Inl _ \<Rightarrow> False)
      in case profile of
           Managed _ _ \<Rightarrow>
             (if \<not> has_full_disk_write_access policy \<and> has_no_writable_roots
              then PATCH_REJECTED_READ_ONLY_REASON else PATCH_REJECTED_OUTSIDE_PROJECT_REASON)
         | _ \<Rightarrow> PATCH_REJECTED_OUTSIDE_PROJECT_REASON)"

definition assess_patch_safety ::
  "'u url_lib \<Rightarrow> os_view \<Rightarrow> ('u \<times> 'u proposed_change) list \<Rightarrow> ask_for_approval \<Rightarrow> permission_profile \<Rightarrow>
   fs_sandbox_policy \<Rightarrow> 'u \<Rightarrow> bool \<Rightarrow> safety_check" where
  "assess_patch_safety L v entries approval profile policy cwd windows_sandbox_enabled =
     (if entries = [] then Reject ''empty patch''
      else if approval = UnlessTrusted then AskUser
      else
        let rejects_sandbox_approval =
              (case approval of Never \<Rightarrow> True | Granular g \<Rightarrow> \<not> sandbox_approval g | _ \<Rightarrow> False);
            refuse =
              (if rejects_sandbox_approval then Reject (patch_rejection_reason L v profile policy cwd) else AskUser)
        in if is_write_patch_constrained_to_writable_paths L v entries policy cwd
           then (case profile of
                   Disabled \<Rightarrow> AutoApprove
                 | External _ \<Rightarrow> AutoApprove
                 | Managed _ _ \<Rightarrow>
                     (case get_platform_sandbox windows_sandbox_enabled of Some _ \<Rightarrow> AutoApprove | None \<Rightarrow> refuse))
           else refuse)"

section \<open>The verdict\<close>

record 'u patch_runtime_invocation =
  inv_action :: "'u apply_patch_action"
  inv_auto_approved :: bool
  inv_requirement :: exec_approval_requirement

definition prepare_apply_patch ::
  "'u url_lib \<Rightarrow> os_view \<Rightarrow> ask_for_approval \<Rightarrow> permission_profile \<Rightarrow> bool \<Rightarrow> fs_sandbox_policy \<Rightarrow>
   'u apply_patch_action \<Rightarrow> ('u \<times> 'u proposed_change) list \<Rightarrow> (string, 'u patch_runtime_invocation) result" where
  "prepare_apply_patch L v approval profile windows_sandbox_enabled policy action entries =
     (case assess_patch_safety L v entries approval profile policy (action_cwd action) windows_sandbox_enabled of
        AutoApprove \<Rightarrow> Ok \<lparr>inv_action = action, inv_auto_approved = True, inv_requirement = Skip False None\<rparr>
      | AskUser \<Rightarrow> Ok \<lparr>inv_action = action, inv_auto_approved = False, inv_requirement = NeedsApproval None None\<rparr>
      | Reject reason \<Rightarrow> Err (''patch rejected: '' @ reason))"

text \<open>The changes for the clients; a \<^verbatim>\<open>PathBuf\<close> is compared by its components.\<close>

datatype protocol_change =
    ProtocolAdd string
  | ProtocolDelete string
  | ProtocolUpdate string "string option"

fun to_protocol_change :: "'u url_lib \<Rightarrow> 'u proposed_change \<Rightarrow> protocol_change" where
  "to_protocol_change L (ProposeAdd content) = ProtocolAdd content"
| "to_protocol_change L (ProposeDelete content) = ProtocolDelete content"
| "to_protocol_change L (ProposeUpdate unified move_path _) =
     ProtocolUpdate unified (map_option (inferred_native_path_string L) move_path)"

definition convert_apply_patch_to_protocol ::
  "'u url_lib \<Rightarrow> ('u \<times> 'u proposed_change) list \<Rightarrow> component list \<rightharpoonup> protocol_change" where
  "convert_apply_patch_to_protocol L entries =
     fold (\<lambda>(path, change) result. result(components (inferred_native_path_string L path) \<mapsto> to_protocol_change L change))
       entries Map.empty"

section \<open>What an application can touch\<close>

text \<open>
  Whatever an operation of the file system returns, it leaves the other files alone. Nothing else is
  needed here, so that failing and half-done operations are covered.
\<close>

definition frame_laws :: "('u, 's) executor_fs \<Rightarrow> ('s \<Rightarrow> 'u files) \<Rightarrow> bool" where
  "frame_laws fs files \<longleftrightarrow>
     (\<forall>u c s r s' v. write_file fs u c s = (r, s') \<and> v \<noteq> u \<longrightarrow> files s' v = files s v) \<and>
     (\<forall>u b s r s'. create_directory fs u b s = (r, s') \<longrightarrow> files s' = files s) \<and>
     (\<forall>u a b s r s' v. remove_path fs u a b s = (r, s') \<and> v \<noteq> u \<longrightarrow> files s' v = files s v)"

lemma frame_lawsD:
  assumes "frame_laws fs files"
  shows "write_file fs u c s = (r, s') \<Longrightarrow> v \<noteq> u \<Longrightarrow> files s' v = files s v"
    and "create_directory fs u b s = (r, s') \<Longrightarrow> files s' = files s"
    and "remove_path fs u a b s = (r, s') \<Longrightarrow> v \<noteq> u \<Longrightarrow> files s' v = files s v"
  using assms by (auto simp: frame_laws_def)

lemma mem_fs_frame: "frame_laws mem_fs (\<lambda>m. m)"
  by (auto simp: frame_laws_def mem_fs_def split: option.splits)

lemma io_context_state: "io_context L what u (r, s) = (r', s') \<Longrightarrow> s' = s"
  by (auto simp: io_context_def split: sum.splits)

lemma write_retry_frame:
  assumes frame: "frame_laws fs files" and run: "write_file_with_missing_parent_retry L fs u contents s = (r, s')" and "v \<noteq> u"
  shows "files s' v = files s v"
proof -
  obtain r1 s1 where w: "write_file fs u contents s = (r1, s1)"
    by (cases "write_file fs u contents s")
  have s1: "files s1 v = files s v"
    using frame_lawsD(1) [OF frame w \<open>v \<noteq> u\<close>] .
  show ?thesis
  proof (cases "r1 = Err NotFound")
    case True
    then obtain s2 where s2: "files s2 = files s1" "s' = s2 \<or> (\<exists>r2. write_file fs u contents s2 = (r2, s'))"
      using run w frame_lawsD(2) [OF frame]
      by (auto simp: write_file_with_missing_parent_retry_def io_context_def
          split: option.splits prod.splits sum.splits) metis+
    then show ?thesis
      using s1 frame_lawsD(1) [OF frame _ \<open>v \<noteq> u\<close>] by metis
  next
    case False
    then have "s' = s1"
      using run w by (auto simp: write_file_with_missing_parent_retry_def io_context_def split: sum.splits io_error.splits)
    then show ?thesis
      using s1 by simp
  qed
qed

lemma remove_checked_frame:
  assumes "frame_laws fs files" and "remove_checked L fs what u content d s = (r, d', s')" and "v \<noteq> u"
  shows "files s' v = files s v"
  using assms(2,3) frame_lawsD(3) [OF assms(1)]
  by (auto simp: remove_checked_def io_context_def split: prod.splits sum.splits)

lemma apply_add_frame:
  assumes "frame_laws fs files" and "apply_add L fs u contents d s = (r, d', s')" and "v \<noteq> u"
  shows "files s' v = files s v"
  using assms(2) write_retry_frame [OF assms(1) _ assms(3)]
  by (auto simp: apply_add_def Let_def split: prod.splits sum.splits)

lemma apply_delete_frame:
  assumes "frame_laws fs files" and "apply_delete L fs u d s = (r, d', s')" and "v \<noteq> u"
  shows "files s' v = files s v"
  using assms(2) remove_checked_frame [OF assms(1) _ assms(3)]
  by (auto simp: apply_delete_def Let_def split: prod.splits sum.splits)

lemma apply_move_frame:
  assumes "frame_laws fs files" and "apply_move L fs u dest old new d s = (r, d', s')" and "v \<noteq> u" and "v \<noteq> dest"
  shows "files s' v = files s v"
proof -
  obtain r1 s1 where w: "write_file_with_missing_parent_retry L fs dest new s = (r1, s1)"
    by (cases "write_file_with_missing_parent_retry L fs dest new s")
  have "files s' v = files s1 v"
    using assms(2) w remove_checked_frame [OF assms(1) _ assms(3)]
    by (auto simp: apply_move_def Let_def split: prod.splits sum.splits)
  then show ?thesis
    using write_retry_frame [OF assms(1) w assms(4)] by simp
qed

lemma apply_update_frame:
  assumes "frame_laws fs files" and "apply_update L fs cwd u move_path chunks d s = (r, d', s')" and "v \<noteq> u"
    and "\<And>dest. move_path = Some dest \<Longrightarrow> path_uri_join L cwd dest \<noteq> Ok v"
  shows "files s' v = files s v"
proof (cases "derive_new_contents_from_chunks L fs u chunks s")
  case (Inr contents)
  obtain old new where contents: "contents = (old, new)"
    by (cases contents)
  show ?thesis
  proof (cases move_path)
    case None
    then show ?thesis
      using assms(2) Inr contents frame_lawsD(1) [OF assms(1) _ assms(3)]
      by (auto simp: apply_update_def Let_def io_context_def split: prod.splits sum.splits)
  next
    case (Some dest)
    then show ?thesis
      using assms(2,4) Inr contents apply_move_frame [OF assms(1) _ assms(3)]
      by (auto simp: apply_update_def Let_def split: sum.splits)
  qed
qed (use assms(2) in \<open>auto simp: apply_update_def Let_def\<close>)

lemma apply_hunk_frame:
  assumes "frame_laws fs files" and "apply_hunk L fs cwd h d s = (r, d', s')" and "Ok v \<notin> set (hunk_targets L cwd h)"
  shows "files s' v = files s v"
proof (cases "resolve_path L cwd h")
  case (Inr u)
  have u: "v \<noteq> u"
    using assms(3) Inr by (auto simp: hunk_targets_def)
  show ?thesis
  proof (cases h)
    case (UpdateFile path move_path chunks)
    then have "\<And>dest. move_path = Some dest \<Longrightarrow> path_uri_join L cwd dest \<noteq> Ok v"
      using assms(3) by (auto simp: hunk_targets_def)
    then show ?thesis
      using assms(2) Inr UpdateFile apply_update_frame [OF assms(1) _ u] by (simp add: apply_hunk_def)
  qed (use assms(2) Inr apply_add_frame [OF assms(1) _ u] apply_delete_frame [OF assms(1) _ u] in
      \<open>auto simp: apply_hunk_def\<close>)
qed (use assms(2) in \<open>auto simp: apply_hunk_def\<close>)

lemma apply_hunk_list_frame:
  assumes "frame_laws fs files"
  shows "apply_hunk_list L fs cwd hs a d s = (r, d', s') \<Longrightarrow> Ok v \<notin> set (concat (map (hunk_targets L cwd) hs)) \<Longrightarrow>
    files s' v = files s v"
proof (induction hs arbitrary: a d s)
  case (Cons h hs)
  obtain r1 d1 s1 where step: "apply_hunk L fs cwd h d s = (r1, d1, s1)"
    by (cases "apply_hunk L fs cwd h d s")
  have "files s1 v = files s v"
    using apply_hunk_frame [OF assms step] Cons.prems(2) by simp
  then show ?case
    using Cons step by (auto split: sum.splits)
qed simp

lemma apply_patch_frame:
  assumes "frame_laws fs files" and "apply_patch L fs io_text out err cwd patch s w = (r, s', w')"
    and "parse_patch patch = Ok args" and "Ok v \<notin> set (concat (map (hunk_targets L cwd) (args_hunks args)))"
  shows "files s' v = files s v"
proof -
  obtain r1 d s1 where run: "apply_hunks_to_files L fs cwd (args_hunks args) empty_delta s = (r1, d, s1)"
    by (cases "apply_hunks_to_files L fs cwd (args_hunks args) empty_delta s")
  have "files s1 v = files s v"
    using run apply_hunk_list_frame [OF assms(1) _ assms(4)] by (auto simp: apply_hunks_to_files_def split: if_splits)
  moreover have "s' = s1"
    using assms(2,3) run
    by (auto simp: apply_patch_def apply_hunks_def split: sum.splits prod.splits hunk_failure.splits)
  ultimately show ?thesis by simp
qed

section \<open>Automatic approval\<close>

lemma path_uri_to_abs_path_ok:
  assumes "path_uri_to_abs_path L h u = Ok t"
  shows "abs_path_ok t"
proof -
  have "abs_path_ok t" if "from_absolute_path_checked h p = Ok t" for p
    using that by (auto simp: from_absolute_path_checked_def Let_def absolutize_from_ok split: if_splits)
  then show ?thesis
    using assms
    by (auto simp: path_uri_to_abs_path_def Let_def res_bind_Inr_iff split: if_splits option.splits sum.splits)
qed

lemma normalize_patch_path_id: "abs_path_ok t \<Longrightarrow> normalize_patch_path (path_string t) = t"
  using normalize_path_string [of t]
  by (auto simp: normalize_path_def normalize_patch_path_def abs_path_ok_def Let_def split: if_splits)

lemma is_uri_writable_iff:
  "is_uri_writable L v policy c u \<longleftrightarrow>
     (\<exists>t. path_uri_to_abs_path L (os_host v) u = Ok t \<and> can_write_path_with_cwd v policy (path_string t) (path_string c))"
  using path_uri_to_abs_path_ok [of L "os_host v" u]
  by (auto simp: is_uri_writable_def normalize_patch_path_id split: sum.splits)

lemma change_constrained_paths:
  "change_constrained writable p \<longleftrightarrow> list_all writable (change_paths p)"
  by (cases p rule: change_paths.cases) auto

text \<open>With one hunk for a path, the table has the proposal of every hunk.\<close>

lemma proposals_listed:
  assumes "propose_changes L fs diff cwd hs Map.empty s = Ok changes" and "distinct (map (resolve_path L cwd) hs)"
    and "Ok u \<in> set (concat (map (hunk_targets L cwd) hs))"
  obtains p where "changes (fst p) = Some (snd p)" and "u \<in> set (change_paths p)"
proof -
  obtain ps where ps: "proposals L fs diff cwd s hs ps" "changes = fold (\<lambda>(u, c) m. m(u \<mapsto> c)) ps Map.empty"
    using propose_changes_proposals [OF assms(1)] by blast
  have "map (resolve_path L cwd) hs = map Ok (map fst ps)"
    using ps(1) unfolding proposals_def by (induction rule: list_all2_induct) auto
  then have "distinct (map fst ps)"
    using assms(2) by (metis distinct_map)
  moreover obtain p where p: "p \<in> set ps" "u \<in> set (change_paths p)"
    using assms(3) proposals_targets [OF ps(1)] by auto
  ultimately have "changes (fst p) = Some (snd p)"
    using ps(2) fold_upd_distinct [of ps "fst p" "snd p"] by simp
  with p(2) show ?thesis
    using that by blast
qed

lemma auto_approved_constrained:
  assumes "assess_patch_safety L v entries approval profile policy cwd wse = AutoApprove"
  shows "entries \<noteq> [] \<and> approval \<noteq> UnlessTrusted \<and> is_write_patch_constrained_to_writable_paths L v entries policy cwd"
  using assms by (auto simp: assess_patch_safety_def Let_def split: if_splits)


section \<open>An instance\<close>

text \<open>The proposals of the hunks are one iteration of the table.\<close>

definition listed_proposals ::
  "'u url_lib \<Rightarrow> ('u, 's) executor_fs \<Rightarrow> text_diff \<Rightarrow> 'u \<Rightarrow> 's \<Rightarrow> hunk list \<Rightarrow> ('u \<times> 'u proposed_change) list" where
  "listed_proposals L fs diff cwd s hs =
     map (\<lambda>h. let u = projr (resolve_path L cwd h) in (u, projr (propose_change L fs diff cwd u h s))) hs"

lemma listed_proposals_list_changes:
  assumes "propose_changes L fs diff cwd hs Map.empty s = Ok (action_changes action)"
    and "distinct (map (resolve_path L cwd) hs)"
  shows "lists_changes action (listed_proposals L fs diff cwd s hs)"
proof -
  obtain ps where ps: "proposals L fs diff cwd s hs ps" "action_changes action = fold (\<lambda>(u, c) m. m(u \<mapsto> c)) ps Map.empty"
    using propose_changes_proposals [OF assms(1)] by blast
  have listed: "listed_proposals L fs diff cwd s hs = ps" and "map (resolve_path L cwd) hs = map Ok (map fst ps)"
    using ps(1) unfolding proposals_def listed_proposals_def by (induction rule: list_all2_induct) (auto simp: Let_def)
  then have dist: "distinct (map fst ps)"
    using assms(2) by (metis distinct_map)
  have "map_of ps u = action_changes action u" for u
  proof (cases "map_of ps u")
    case None
    then show ?thesis
      using ps(2) fold_upd_keep [of u ps Map.empty] by (simp add: map_of_eq_None_iff)
  next
    case (Some c)
    then show ?thesis
      using ps(2) fold_upd_distinct [OF dist map_of_SomeD] by metis
  qed
  then show ?thesis
    using dist listed by (auto simp: lists_changes_def)
qed

definition sample_entries :: "(small_url \<times> small_url proposed_change) list" where
  "sample_entries = listed_proposals small_lib mem_fs (\<lambda>_ _ _. ''diff'') sample_cwd sample_files
     (args_hunks (projr (parse_patch sample_patch)))"


text \<open>
  The hypothesis on the hunks is needed. The hidden move is approved automatically under the workspace
  policy of \<^verbatim>\<open>/w\<close>, and the application writes \<^verbatim>\<open>/o\<close>.
\<close>

lemma hidden_move_auto_approved:
  "assess_patch_safety small_lib plain_view [((None, ''w/a''), ProposeAdd (''n'' @ [NL]))] OnRequest
     (Managed ManagedUnrestricted NetRestricted) plain_policy sample_cwd False = AutoApprove \<and>
   is_uri_writable small_lib plain_view plain_policy [RootDir, Normal ''w''] (None, ''o'') = False"
  by code_simp

end
