(* ===== verification/Policy_Transforms.thy ===== *)
theory Policy_Transforms
  imports Sandbox_Changes
begin

text \<open>
  Additional permissions (\<^verbatim>\<open>codex-rs/sandboxing/src/policy_transforms.rs\<close>, with the types of
  \<^verbatim>\<open>protocol/src/models.rs\<close>): normalising a request, intersecting a request with what the user granted,
  merging grants, and the policy that a command with additional permissions runs under. A
  \<^verbatim>\<open>NonZeroUsize\<close> is a natural number; \<open>nonzero\<close> is its constructor.
\<close>

section \<open>Permissions\<close>

record file_system_permissions =
  fp_entries :: "sandbox_entry list"
  fp_glob_scan_max_depth :: "nat option"

record network_permissions =
  np_enabled :: "bool option"

record additional_permission_profile =
  ap_network :: "network_permissions option"
  ap_file_system :: "file_system_permissions option"

definition fs_permissions_empty :: "file_system_permissions \<Rightarrow> bool" where
  "fs_permissions_empty f = (fp_entries f = [])"

definition network_permissions_empty :: "network_permissions \<Rightarrow> bool" where
  "network_permissions_empty n = (np_enabled n = None)"

definition additional_permissions_empty :: "additional_permission_profile \<Rightarrow> bool" where
  "additional_permissions_empty a = (ap_network a = None \<and> ap_file_system a = None)"

definition from_read_write_roots :: "abs_path list option \<Rightarrow> abs_path list option \<Rightarrow> file_system_permissions" where
  "from_read_write_roots read_roots write_roots =
     \<lparr>fp_entries =
        (case read_roots of Some ps \<Rightarrow> map (\<lambda>path. new_entry (FsPath path) Read) ps | None \<Rightarrow> []) @
        (case write_roots of Some ps \<Rightarrow> map (\<lambda>path. new_entry (FsPath path) Write) ps | None \<Rightarrow> []),
      fp_glob_scan_max_depth = None\<rparr>"

text \<open>The read and the write roots that the entries amount to, when the older format can say it.\<close>

fun legacy_roots :: "sandbox_entry list \<Rightarrow> abs_path list \<Rightarrow> abs_path list \<Rightarrow> (abs_path list \<times> abs_path list) option" where
  "legacy_roots [] rs ws = Some (rs, ws)"
| "legacy_roots (e # es) rs ws =
     (case en_path e of
        FsPath path \<Rightarrow>
          (case en_access e of
             Read \<Rightarrow> legacy_roots es (rs @ [path]) ws
           | Write \<Rightarrow> legacy_roots es rs (ws @ [path])
           | Deny \<Rightarrow> None)
      | _ \<Rightarrow> None)"

definition as_legacy_permissions ::
  "file_system_permissions \<Rightarrow> (abs_path list option \<times> abs_path list option) option" where
  "as_legacy_permissions f =
     (if fp_glob_scan_max_depth f \<noteq> None then None
      else map_option (\<lambda>(rs, ws). (if rs = [] then None else Some rs, if ws = [] then None else Some ws))
        (legacy_roots (fp_entries f) [] []))"

definition nonzero :: "nat option \<Rightarrow> nat option" where
  "nonzero d = (case d of Some n \<Rightarrow> if n = 0 then None else Some n | None \<Rightarrow> None)"

section \<open>Normalising a request\<close>

definition normalize_permission_entry :: "os_view \<Rightarrow> sandbox_entry \<Rightarrow> sandbox_entry" where
  "normalize_permission_entry v e =
     e\<lparr>en_path :=
        (case en_path e of
           FsPath path \<Rightarrow>
             FsPath (case Option.bind (res_ok (canonicalize_preserving_symlinks v (path_string path))) (abs_of v) of
                       Some p \<Rightarrow> p
                     | None \<Rightarrow> path)
         | p \<Rightarrow> p)\<rparr>"

fun normalize_permission_entries ::
  "os_view \<Rightarrow> sandbox_entry list \<Rightarrow> sandbox_entry list \<Rightarrow> (string, sandbox_entry list) result" where
  "normalize_permission_entries v [] entries = Ok entries"
| "normalize_permission_entries v (e # es) entries =
     (if (case en_path e of GlobPattern _ \<Rightarrow> True | _ \<Rightarrow> False) \<and> en_access e \<noteq> Deny
      then Err ''glob file system permissions only support deny-read entries''
      else normalize_permission_entries v es (push_missing_entries [normalize_permission_entry v e] entries))"

definition filter_opt :: "('a \<Rightarrow> bool) \<Rightarrow> 'a option \<Rightarrow> 'a option" where
  "filter_opt f x = (case x of Some a \<Rightarrow> if f a then Some a else None | None \<Rightarrow> None)"

definition normalize_additional_permissions ::
  "os_view \<Rightarrow> additional_permission_profile \<Rightarrow> (string, additional_permission_profile) result" where
  "normalize_additional_permissions v a =
     (let network = filter_opt (\<lambda>n. \<not> network_permissions_empty n) (ap_network a)
      in res_bind
           (case ap_file_system a of
              Some f \<Rightarrow>
                res_bind (normalize_permission_entries v (fp_entries f) []) (\<lambda>entries.
                  Ok (filter_opt (\<lambda>f. \<not> fs_permissions_empty f)
                        (Some \<lparr>fp_entries = entries, fp_glob_scan_max_depth = fp_glob_scan_max_depth f\<rparr>)))
            | None \<Rightarrow> Ok None)
           (\<lambda>file_system. Ok \<lparr>ap_network = network, ap_file_system = file_system\<rparr>))"

section \<open>Merging\<close>

datatype glob_scan_depth = Bounded nat | Unbounded

definition effective_glob_scan_depth :: "sandbox_entry list \<Rightarrow> nat option \<Rightarrow> glob_scan_depth option" where
  "effective_glob_scan_depth entries depth =
     (if list_ex (\<lambda>e. en_access e = Deny \<and> (case en_path e of GlobPattern _ \<Rightarrow> True | _ \<Rightarrow> False)) entries
      then Some (case depth of Some n \<Rightarrow> Bounded n | None \<Rightarrow> Unbounded)
      else None)"

definition merge_glob_scan_max_depth ::
  "sandbox_entry list \<Rightarrow> nat option \<Rightarrow> sandbox_entry list \<Rightarrow> nat option \<Rightarrow> nat option" where
  "merge_glob_scan_max_depth left_entries left_depth right_entries right_depth =
     (case (effective_glob_scan_depth left_entries left_depth, effective_glob_scan_depth right_entries right_depth) of
        (Some Unbounded, _) \<Rightarrow> None
      | (_, Some Unbounded) \<Rightarrow> None
      | (Some (Bounded l), Some (Bounded r)) \<Rightarrow> Some (max l r)
      | (Some (Bounded depth), None) \<Rightarrow> Some depth
      | (None, Some (Bounded depth)) \<Rightarrow> Some depth
      | (None, None) \<Rightarrow> None)"

definition merge_permission_entries :: "sandbox_entry list \<Rightarrow> sandbox_entry list \<Rightarrow> sandbox_entry list" where
  "merge_permission_entries base permissions = push_missing_entries (base @ permissions) []"

definition merge_permission_profiles ::
  "additional_permission_profile option \<Rightarrow> additional_permission_profile option \<Rightarrow>
   additional_permission_profile option" where
  "merge_permission_profiles base permissions =
     (case permissions of
        None \<Rightarrow> base
      | Some p \<Rightarrow>
          (case base of
             None \<Rightarrow> filter_opt (\<lambda>a. \<not> additional_permissions_empty a) (Some p)
           | Some b \<Rightarrow>
               let on = Some \<lparr>np_enabled = Some True\<rparr>;
                   network = (if ap_network b = on \<or> ap_network p = on then on else None);
                   file_system =
                     (case (ap_file_system b, ap_file_system p) of
                        (Some bf, Some pf) \<Rightarrow>
                          filter_opt (\<lambda>f. \<not> fs_permissions_empty f)
                            (Some \<lparr>fp_entries = merge_permission_entries (fp_entries bf) (fp_entries pf),
                                   fp_glob_scan_max_depth = nonzero (merge_glob_scan_max_depth
                                     (fp_entries bf) (fp_glob_scan_max_depth bf)
                                     (fp_entries pf) (fp_glob_scan_max_depth pf))\<rparr>)
                      | (Some bf, None) \<Rightarrow> Some bf
                      | (None, Some pf) \<Rightarrow> Some pf
                      | (None, None) \<Rightarrow> None)
               in filter_opt (\<lambda>a. \<not> additional_permissions_empty a)
                    (Some \<lparr>ap_network = network, ap_file_system = file_system\<rparr>)))"

section \<open>Intersecting a request with a grant\<close>

definition resolve_permission_path :: "os_view \<Rightarrow> fs_path \<Rightarrow> string \<Rightarrow> abs_path option" where
  "resolve_permission_path v path cwd =
     (case path of
        FsPath p \<Rightarrow> Some p
      | GlobPattern _ \<Rightarrow> None
      | Special value \<Rightarrow>
          (case value of
             RootPath \<Rightarrow> abs_of v (if is_absolute cwd then ''/'' else [])
           | ProjectRoots subpath \<Rightarrow>
               map_option (\<lambda>c. case subpath of
                   Some s \<Rightarrow> resolve_path_against_base (os_host v) s (path_string c)
                 | None \<Rightarrow> c) (abs_of v cwd)
           | Tmpdir \<Rightarrow>
               (case os_tmpdir v of
                  None \<Rightarrow> None
                | Some t \<Rightarrow> if t = [] then None else abs_of v t)
           | SlashTmp \<Rightarrow> filter_opt (\<lambda>p. os_is_dir v (path_string p)) (abs_of v ''/tmp'')
           | _ \<Rightarrow> None))"

definition access_covers :: "access_mode \<Rightarrow> access_mode \<Rightarrow> bool" where
  "access_covers requested granted =
     (case granted of Read \<Rightarrow> can_read requested | Write \<Rightarrow> can_write requested | Deny \<Rightarrow> False)"

definition materialize_cwd_dependent_entry :: "os_view \<Rightarrow> sandbox_entry \<Rightarrow> string \<Rightarrow> sandbox_entry" where
  "materialize_cwd_dependent_entry v e cwd =
     (case en_path e of
        Special (ProjectRoots _) \<Rightarrow>
          (case resolve_permission_path v (en_path e) cwd of
             Some path \<Rightarrow> e\<lparr>en_path := FsPath path\<rparr>
           | None \<Rightarrow> e)
      | GlobPattern pattern \<Rightarrow>
          e\<lparr>en_path := GlobPattern (path_string (resolve_path_against_base (os_host v) pattern cwd))\<rparr>
      | _ \<Rightarrow> e)"

definition granted_file_system_entry_within_request ::
  "os_view \<Rightarrow> file_system_permissions \<Rightarrow> fs_sandbox_policy \<Rightarrow> read_deny_matcher option \<Rightarrow> string \<Rightarrow> sandbox_entry \<Rightarrow> bool" where
  "granted_file_system_entry_within_request v requested requested_policy matcher cwd granted =
     (if \<not> can_read (en_access granted) then False
      else case resolve_permission_path v (en_path granted) cwd of
          Some path \<Rightarrow>
            (if (case matcher of Some m \<Rightarrow> is_read_denied v m (path_string path) | None \<Rightarrow> False) then False
             else access_covers (resolve_access_with_cwd v requested_policy (path_string path) cwd) (en_access granted))
        | None \<Rightarrow>
            list_ex (\<lambda>r. access_covers (en_access r) (en_access granted) \<and> en_path r = en_path granted)
              (fp_entries requested))"

definition paths_overlap :: "abs_path \<Rightarrow> abs_path \<Rightarrow> bool" where
  "paths_overlap left right = (prefix right left \<or> prefix left right)"

text \<open>The part of a pattern before the first special character, up to its last separator.\<close>

definition glob_static_prefix_path :: "os_view \<Rightarrow> string \<Rightarrow> string \<Rightarrow> abs_path option" where
  "glob_static_prefix_path v pattern cwd =
     (let resolved_pattern = path_string (resolve_path_against_base (os_host v) pattern cwd);
          static = takeWhile (\<lambda>c. c \<notin> set ''*?[]'') resolved_pattern
      in if static = resolved_pattern then abs_of v resolved_pattern
         else if static = [] then None
         else if last static = CHR ''/'' \<or> last static = CHR 0x5C then abs_of v static
         else if components static = [] \<or> last (components static) = RootDir then None
         else abs_of v (path_string (butlast (components static))))"

definition deny_entry_constrains_accepted_grant ::
  "os_view \<Rightarrow> sandbox_entry \<Rightarrow> sandbox_entry list \<Rightarrow> string \<Rightarrow> bool" where
  "deny_entry_constrains_accepted_grant v deny accepted cwd =
     list_ex (\<lambda>e. case resolve_permission_path v (en_path e) cwd of
          None \<Rightarrow> False
        | Some grant_path \<Rightarrow>
            (case en_path deny of
               GlobPattern pattern \<Rightarrow>
                 (case glob_static_prefix_path v pattern cwd of
                    Some p \<Rightarrow> paths_overlap p grant_path
                  | None \<Rightarrow> False)
             | _ \<Rightarrow>
                 (case resolve_permission_path v (en_path deny) cwd of
                    Some deny_path \<Rightarrow> paths_overlap deny_path grant_path
                  | None \<Rightarrow> False)))
       (filter (\<lambda>e. can_read (en_access e)) accepted)"

text \<open>The retained entries, in order; the output gains those that it does not have.\<close>

definition retained_deny_entries ::
  "os_view \<Rightarrow> sandbox_entry list \<Rightarrow> sandbox_entry list \<Rightarrow> string \<Rightarrow> sandbox_entry list" where
  "retained_deny_entries v source_entries accepted cwd =
     map (\<lambda>e. materialize_cwd_dependent_entry v e cwd)
       (filter (\<lambda>e. en_access e = Deny \<and> deny_entry_constrains_accepted_grant v e accepted cwd) source_entries)"

definition retain_constraining_deny_entries ::
  "os_view \<Rightarrow> sandbox_entry list \<Rightarrow> sandbox_entry list \<Rightarrow> string \<Rightarrow> sandbox_entry list \<Rightarrow>
   sandbox_entry list \<times> sandbox_entry list" where
  "retain_constraining_deny_entries v source_entries accepted cwd output =
     (let retained = retained_deny_entries v source_entries accepted cwd
      in (retained, push_missing_entries retained output))"

definition intersect_file_system ::
  "os_view \<Rightarrow> glob_builder \<Rightarrow> file_system_permissions \<Rightarrow> file_system_permissions option \<Rightarrow> string \<Rightarrow>
   file_system_permissions option" where
  "intersect_file_system v globs requested granted cwd =
     (let granted_fs = (case granted of Some g \<Rightarrow> g | None \<Rightarrow> \<lparr>fp_entries = [], fp_glob_scan_max_depth = None\<rparr>);
          requested_policy = restricted (fp_entries requested)
      in Option.bind (new_matcher v globs requested_policy cwd) (\<lambda>matcher.
           let accepted = push_missing_entries
                 (map (\<lambda>e. materialize_cwd_dependent_entry v e cwd)
                   (filter (granted_file_system_entry_within_request v requested requested_policy matcher cwd)
                     (fp_entries granted_fs))) [];
               (requested_retained, entries1) = retain_constraining_deny_entries v (fp_entries requested) accepted cwd accepted;
               (granted_retained, entries) = retain_constraining_deny_entries v (fp_entries granted_fs) accepted cwd entries1
           in Some \<lparr>fp_entries = entries,
                fp_glob_scan_max_depth = nonzero (merge_glob_scan_max_depth
                  requested_retained (fp_glob_scan_max_depth requested)
                  granted_retained (fp_glob_scan_max_depth granted_fs))\<rparr>))"

text \<open>\<open>None\<close> is the panic of the matcher, which is never reached.\<close>

definition intersect_permission_profiles ::
  "os_view \<Rightarrow> glob_builder \<Rightarrow> additional_permission_profile \<Rightarrow> additional_permission_profile \<Rightarrow> string \<Rightarrow>
   additional_permission_profile option" where
  "intersect_permission_profiles v globs requested granted cwd =
     (let on = Some \<lparr>np_enabled = Some True\<rparr>;
          network = (if ap_network requested = on \<and> ap_network granted = on then on else None)
      in case ap_file_system requested of
           None \<Rightarrow> Some \<lparr>ap_network = network, ap_file_system = None\<rparr>
         | Some f \<Rightarrow>
             map_option (\<lambda>fs. \<lparr>ap_network = network, ap_file_system = filter_opt (\<lambda>f. \<not> fs_permissions_empty f) (Some fs)\<rparr>)
               (intersect_file_system v globs f (ap_file_system granted) cwd))"

section \<open>Effective policies\<close>

definition merge_file_system_policy_with_additional_permissions ::
  "fs_sandbox_policy \<Rightarrow> file_system_permissions \<Rightarrow> fs_sandbox_policy" where
  "merge_file_system_policy_with_additional_permissions p additional =
     (case fs_kind p of
        Restricted \<Rightarrow>
          p\<lparr>fs_glob_scan_max_depth := merge_glob_scan_max_depth (fs_entries p) (fs_glob_scan_max_depth p)
               (fp_entries additional) (fp_glob_scan_max_depth additional),
            fs_entries := push_missing_entries (fp_entries additional) (fs_entries p)\<rparr>
      | _ \<Rightarrow> p)"

definition effective_file_system_sandbox_policy ::
  "fs_sandbox_policy \<Rightarrow> additional_permission_profile option \<Rightarrow> fs_sandbox_policy" where
  "effective_file_system_sandbox_policy p additional =
     (case Option.bind additional ap_file_system of
        None \<Rightarrow> p
      | Some f \<Rightarrow> if fs_permissions_empty f then p else merge_file_system_policy_with_additional_permissions p f)"

definition merge_network_access :: "bool \<Rightarrow> additional_permission_profile \<Rightarrow> bool" where
  "merge_network_access base additional =
     (base \<or> (case Option.bind (ap_network additional) np_enabled of Some b \<Rightarrow> b | None \<Rightarrow> False))"

definition effective_network_sandbox_policy ::
  "network_sandbox_policy \<Rightarrow> additional_permission_profile option \<Rightarrow> network_sandbox_policy" where
  "effective_network_sandbox_policy net additional =
     (if (case additional of Some a \<Rightarrow> merge_network_access (net = NetEnabled) a | None \<Rightarrow> False) then NetEnabled
      else if additional \<noteq> None then NetRestricted
      else net)"

fun enforcement :: "permission_profile \<Rightarrow> sandbox_enforcement" where
  "enforcement (Managed _ _) = EnforceManaged"
| "enforcement Disabled = EnforceDisabled"
| "enforcement (External _) = EnforceExternal"

definition effective_permission_profile ::
  "permission_profile \<Rightarrow> additional_permission_profile option \<Rightarrow> permission_profile option" where
  "effective_permission_profile profile additional =
     from_runtime_permissions_with_enforcement (enforcement profile)
       (effective_file_system_sandbox_policy (file_system_sandbox_policy profile) additional)
       (effective_network_sandbox_policy (network_sandbox_policy_of profile) additional)"

definition should_require_platform_sandbox :: "fs_sandbox_policy \<Rightarrow> network_sandbox_policy \<Rightarrow> bool \<Rightarrow> bool" where
  "should_require_platform_sandbox p net has_managed_network_requirements =
     (if has_managed_network_requirements then True
      else if net \<noteq> NetEnabled then fs_kind p \<noteq> ExternalSandbox
      else case fs_kind p of
          Restricted \<Rightarrow> \<not> has_full_disk_write_access p
        | _ \<Rightarrow> False)"

section \<open>What an intersection allows\<close>

definition permission_entries :: "additional_permission_profile \<Rightarrow> sandbox_entry list" where
  "permission_entries a = (case ap_file_system a of Some f \<Rightarrow> fp_entries f | None \<Rightarrow> [])"

text \<open>What the entries of a profile say of a path by themselves, seen from a working directory.\<close>

definition permitted_access :: "os_view \<Rightarrow> additional_permission_profile \<Rightarrow> abs_path \<Rightarrow> abs_path \<Rightarrow> access_mode" where
  "permitted_access v a c t = resolve_access_with_cwd v (restricted (permission_entries a)) (path_string t) (path_string c)"

lemma permission_path:
  assumes "abs_path_ok c"
  shows "resolve_permission_path v p (path_string c) = resolve_entry_path v p (Some c)"
proof -
  have "abs_of v ''/'' = Some [RootDir]"
    using abs_of_path_string [OF root_ok, of v] by (simp add: path_string_def)
  then show ?thesis
    using assms last_ancestor [OF assms] normalize_path_string [OF root_ok]
    by (auto simp: resolve_permission_path_def resolve_entry_path_def resolve_file_system_path_def
        resolve_file_system_special_path_def absolute_root_path_for_cwd_def is_absolute_path_string filter_opt_def
        split: fs_path.splits special_path.splits option.splits)
qed

abbreviation rights :: "os_view \<Rightarrow> abs_path \<Rightarrow> sandbox_entry list \<Rightarrow> resolved_entry list" where
  "rights v c es \<equiv> resolved_entries_with_cwd v (restricted es) (path_string c)"

lemma in_rights:
  assumes "abs_path_ok c"
  shows "r \<in> set (rights v c es) \<longleftrightarrow>
    (\<exists>e \<in> set es. resolve_permission_path v (en_path e) (path_string c) = Some (re_path r) \<and> en_access e = re_access r)"
  using assms
  by (cases r) (force simp: resolved_entries_with_cwd_def restricted_def in_set_filter_map permission_path)

lemma materialized_permission_path [simp]:
  assumes "abs_path_ok c"
  shows "resolve_permission_path v (en_path (materialize_cwd_dependent_entry v e (path_string c))) (path_string c) =
      resolve_permission_path v (en_path e) (path_string c)"
    and "en_access (materialize_cwd_dependent_entry v e cwd) = en_access e"
  by (auto simp: materialize_cwd_dependent_entry_def resolve_permission_path_def
      split: fs_path.splits special_path.splits option.splits)

lemma new_matcher_total: "\<exists>matcher. new_matcher v globs p cwd = Some matcher"
  using build_matchers_closed [of globs "get_unreadable_globs_with_cwd v p cwd" "[]" False]
  by (auto simp: new_matcher_def matcher_build_def res_ok_def)

text \<open>The entries of the grant that are accepted, and the entries of the result.\<close>

definition accepted_grants ::
  "os_view \<Rightarrow> glob_builder \<Rightarrow> file_system_permissions \<Rightarrow> sandbox_entry list \<Rightarrow> string \<Rightarrow> sandbox_entry list" where
  "accepted_grants v globs requested grants cwd =
     filter (granted_file_system_entry_within_request v requested (restricted (fp_entries requested))
       (the (new_matcher v globs (restricted (fp_entries requested)) cwd)) cwd) grants"

lemma intersect_entries:
  assumes "grants = (case granted of Some g \<Rightarrow> fp_entries g | None \<Rightarrow> [])"
  obtains f ac where "intersect_file_system v globs requested granted cwd = Some f"
    and "set ac = (\<lambda>e. materialize_cwd_dependent_entry v e cwd) ` set (accepted_grants v globs requested grants cwd)"
    and "set (fp_entries f) = set ac \<union> set (retained_deny_entries v (fp_entries requested) ac cwd) \<union>
      set (retained_deny_entries v grants ac cwd)"
proof -
  obtain matcher where m: "new_matcher v globs (restricted (fp_entries requested)) cwd = Some matcher"
    using new_matcher_total by blast
  show thesis
    by (rule that [where ac = "push_missing_entries (map (\<lambda>e. materialize_cwd_dependent_entry v e cwd)
          (accepted_grants v globs requested grants cwd)) []" and f = "the (intersect_file_system v globs requested granted cwd)"])
      (simp_all add: intersect_file_system_def m accepted_grants_def Let_def set_push_missing
        retain_constraining_deny_entries_def assms Un_ac split: option.splits)
qed

lemma access_order [simp]: "\<not> Deny \<le> Read" "\<not> Deny \<le> Write" "\<not> Write \<le> Read"
  by (simp_all add: less_eq_access_mode_def)

lemma glob_unresolved [simp]: "resolve_permission_path v (GlobPattern pattern) cwd = None"
  by (simp add: resolve_permission_path_def)

lemma overlapping_deny_constrains:
  assumes "x \<in> set ac" and "can_read (en_access x)" and "resolve_permission_path v (en_path x) cwd = Some p"
    and "resolve_permission_path v (en_path d) cwd = Some q" and "paths_overlap q p"
  shows "deny_entry_constrains_accepted_grant v d ac cwd"
  unfolding deny_entry_constrains_accepted_grant_def list_ex_iff
  by (rule bexI [of _ x]) (use assms in \<open>cases "en_path d"; simp\<close>)+

lemma decided_entry_granted:
  assumes "abs_path_ok c" and "grants = (case granted of Some g \<Rightarrow> fp_entries g | None \<Rightarrow> [])"
    and "intersect_file_system v globs requested granted (path_string c) = Some f"
    and "decides e (rights v c (fp_entries f)) t" and "can_read (re_access e)"
  shows "\<exists>g \<in> set (accepted_grants v globs requested grants (path_string c)).
      resolve_permission_path v (en_path g) (path_string c) = Some (re_path e) \<and> en_access g = re_access e"
    and "d \<in> set (fp_entries requested) \<union> set grants \<Longrightarrow> en_access d = Deny \<Longrightarrow>
      resolve_permission_path v (en_path d) (path_string c) = Some q \<Longrightarrow> prefix q t \<Longrightarrow> length q < length (re_path e)"
proof -
  let ?cwd = "path_string c"
  obtain ac where ac: "set ac = (\<lambda>e. materialize_cwd_dependent_entry v e ?cwd) ` set (accepted_grants v globs requested grants ?cwd)"
    and f: "set (fp_entries f) = set ac \<union> set (retained_deny_entries v (fp_entries requested) ac ?cwd) \<union>
      set (retained_deny_entries v grants ac ?cwd)"
    by (rule intersect_entries [OF assms(2), of v globs requested ?cwd]) (use assms(3) in auto)
  obtain x where x: "x \<in> set (fp_entries f)" "resolve_permission_path v (en_path x) ?cwd = Some (re_path e)"
    "en_access x = re_access e"
    using assms(4) in_rights [OF assms(1)] by (auto simp: decides_def)
  have "x \<in> set ac"
    using x f assms(5) by (auto simp: retained_deny_entries_def can_read_def materialized_permission_path(2) [OF assms(1)])
  then show granted: "\<exists>g \<in> set (accepted_grants v globs requested grants ?cwd).
      resolve_permission_path v (en_path g) ?cwd = Some (re_path e) \<and> en_access g = re_access e"
    using ac x(2,3) materialized_permission_path [OF assms(1)] by auto
  assume d: "d \<in> set (fp_entries requested) \<union> set grants" "en_access d = Deny"
    "resolve_permission_path v (en_path d) ?cwd = Some q" "prefix q t"
  have "paths_overlap q (re_path e)"
    using d(4) assms(4) prefix_same_cases by (auto simp: paths_overlap_def decides_def)
  then have "deny_entry_constrains_accepted_grant v d ac ?cwd"
    using overlapping_deny_constrains [OF \<open>x \<in> set ac\<close> _ x(2) d(3)] x(3) assms(5) by simp
  then have "materialize_cwd_dependent_entry v d ?cwd \<in> set (fp_entries f)"
    using d(1,2) f by (auto simp: retained_deny_entries_def)
  then have "\<lparr>re_path = q, re_access = Deny\<rparr> \<in> set (rights v c (fp_entries f))"
    unfolding in_rights [OF assms(1)]
    by (rule bexI [rotated]) (simp add: materialized_permission_path [OF assms(1)] d(2,3))
  then show "length q < length (re_path e)"
    using assms(4,5) d(4) unfolding decides_def
    by (cases "re_access e") (auto simp: can_read_def dest!: bspec)
qed

lemma rights_access:
  assumes "abs_path_ok t"
  shows "resolve_access_with_cwd v (restricted es) (path_string t) (path_string c) = a \<longleftrightarrow>
    (\<exists>e. decides e (rights v c es) t \<and> re_access e = a) \<or> a = Deny \<and> \<not> covered (rights v c es) t"
proof (cases "covered (rights v c es) t")
  case True
  then obtain e where e: "decides e (rights v c es) t"
    by (rule deciding_entry)
  then have "resolve_access_with_cwd v (restricted es) (path_string t) (path_string c) = re_access e"
    by (intro resolve_access_decided) (simp_all add: restricted_def assms)
  moreover have "(\<exists>d. decides d (rights v c es) t \<and> re_access d = a) \<longleftrightarrow> re_access e = a"
    using decides_unique [OF e] e by metis
  ultimately show ?thesis
    using True by simp
next
  case False
  then show ?thesis
    using resolve_access_uncovered [of "restricted es" v "path_string t" "path_string c" t] assms
    by (auto simp: restricted_def covered_def decides_def)
qed

lemma readable_decided:
  assumes "abs_path_ok t" and "can_read (resolve_access_with_cwd v (restricted es) (path_string t) (path_string c))"
  obtains e where "decides e (rights v c es) t" and "can_read (re_access e)"
    and "re_access e = resolve_access_with_cwd v (restricted es) (path_string t) (path_string c)"
  using rights_access [OF assms(1), of v es c "resolve_access_with_cwd v (restricted es) (path_string t) (path_string c)"]
    assms(2) by (auto simp: can_read_def)

text \<open>An entry that covers a path and decides above it is not beaten by one that is shorter than the path itself.\<close>

lemma decides_shorter:
  assumes "decides r es q" and "decides d es t" and "prefix q t" and "length (re_path d) \<le> length q"
  shows "re_access d = re_access r \<and> re_path d = re_path r"
proof -
  have "prefix (re_path d) q"
    using assms by (auto simp: decides_def intro: prefix_length_prefix)
  then have "decides d es q"
    using assms(2,3) by (auto simp: decides_def dest: prefix_order.trans)
  then show ?thesis
    using decides_unique [OF assms(1)] by auto
qed

lemma intersect_unfolded:
  assumes "intersect_permission_profiles v globs requested granted cwd = Some result"
    and "permission_entries result \<noteq> []"
  obtains rf f where "ap_file_system requested = Some rf" and "permission_entries requested = fp_entries rf"
    and "intersect_file_system v globs rf (ap_file_system granted) cwd = Some f" and "permission_entries result = fp_entries f"
  using assms
  by (auto simp: intersect_permission_profiles_def permission_entries_def filter_opt_def Let_def
      split: option.splits if_splits)

lemma accepted_grant:
  assumes "g \<in> set (accepted_grants v globs rf grants cwd)" and "resolve_permission_path v (en_path g) cwd = Some q"
  shows "g \<in> set grants" and "can_read (en_access g)"
    and "access_covers (resolve_access_with_cwd v (restricted (fp_entries rf)) (path_string q) cwd) (en_access g)"
    and "new_matcher v globs (restricted (fp_entries rf)) cwd = Some (Some m) \<Longrightarrow> \<not> is_read_denied v m (path_string q)"
  using assms by (auto simp: accepted_grants_def granted_file_system_entry_within_request_def split: if_splits option.splits)

lemma accepted_grantI:
  assumes "g \<in> set grants" and "resolve_permission_path v (en_path g) cwd = Some q"
    and "access_covers (resolve_access_with_cwd v (restricted (fp_entries rf)) (path_string q) cwd) (en_access g)"
    and "\<And>m. new_matcher v globs (restricted (fp_entries rf)) cwd = Some (Some m) \<Longrightarrow> \<not> is_read_denied v m (path_string q)"
  shows "g \<in> set (accepted_grants v globs rf grants cwd)"
  using assms new_matcher_total [of v globs "restricted (fp_entries rf)" cwd]
  by (auto simp: accepted_grants_def granted_file_system_entry_within_request_def access_covers_def can_read_def
      split: option.splits access_mode.splits)

text \<open>
  The request at a path that the result lets be read: the entry that decides about it for the path of
  the accepted grant decides about the whole path, unless it is one that allows something.
\<close>

lemma request_allows:
  assumes ok: "abs_path_ok c" "abs_path_ok t" "abs_path_ok (re_path e)"
    and grants: "grants = (case granted of Some g \<Rightarrow> fp_entries g | None \<Rightarrow> [])"
    and run: "intersect_file_system v globs rf granted (path_string c) = Some f"
    and e: "decides e (rights v c (fp_entries f)) u" "can_read (re_access e)" and t: "prefix (re_path e) t" "prefix t u"
  shows "\<exists>d. decides d (rights v c (fp_entries rf)) t \<and> can_read (re_access d) \<and>
    (re_access e = Write \<longrightarrow> re_access d = Write \<or> length (re_path e) < length (re_path d))"
proof -
  obtain g where g: "g \<in> set (accepted_grants v globs rf grants (path_string c))"
    "resolve_permission_path v (en_path g) (path_string c) = Some (re_path e)" "en_access g = re_access e"
    using decided_entry_granted(1) [OF ok(1) grants run e] by blast
  have cov: "access_covers (resolve_access_with_cwd v (restricted (fp_entries rf)) (path_string (re_path e)) (path_string c))
      (re_access e)"
    using accepted_grant(3) [OF g(1,2)] g(3) by simp
  then have "can_read (resolve_access_with_cwd v (restricted (fp_entries rf)) (path_string (re_path e)) (path_string c))"
    by (auto simp: access_covers_def can_read_def can_write_def split: access_mode.splits)
  then obtain r where r: "decides r (rights v c (fp_entries rf)) (re_path e)" "can_read (re_access r)"
    "re_access r = resolve_access_with_cwd v (restricted (fp_entries rf)) (path_string (re_path e)) (path_string c)"
    by (rule readable_decided [OF ok(3)])
  have "covered (rights v c (fp_entries rf)) t"
    using r(1) t(1) prefix_order.trans by (auto simp: covered_def decides_def)
  then obtain d where d: "decides d (rights v c (fp_entries rf)) t"
    by (rule deciding_entry)
  obtain x where x: "x \<in> set (fp_entries rf)" "resolve_permission_path v (en_path x) (path_string c) = Some (re_path d)"
    "en_access x = re_access d"
    using d in_rights [OF ok(1)] by (auto simp: decides_def)
  have short: "re_access d = re_access r" if "length (re_path d) \<le> length (re_path e)"
    using decides_shorter [OF r(1) d t(1) that] by simp
  have "can_read (re_access d)"
  proof (rule ccontr)
    assume "\<not> can_read (re_access d)"
    then have "length (re_path d) < length (re_path e)"
      using decided_entry_granted(2) [OF ok(1) grants run e, of x "re_path d"] x d t(2) prefix_order.trans
      by (auto simp: decides_def can_read_def)
    then show False
      using short r(2) \<open>\<not> can_read (re_access d)\<close> by simp
  qed
  moreover have "re_access d = Write \<or> length (re_path e) < length (re_path d)" if "re_access e = Write"
    using short r(3) cov that by (cases "length (re_path d) \<le> length (re_path e)") (auto simp: access_covers_def can_write_def)
  ultimately show ?thesis
    using d by blast
qed

text \<open>Without deny patterns and links, a path is denied to reads because of an entry at or above it.\<close>

definition no_deny_globs :: "sandbox_entry list \<Rightarrow> bool" where
  "no_deny_globs es \<longleftrightarrow> list_all (\<lambda>e. case en_path e of GlobPattern _ \<Rightarrow> en_access e \<noteq> Deny | _ \<Rightarrow> True) es"

lemma candidates_no_links:
  assumes "no_links v" and "abs_path_ok p"
  shows "components ` set (normalized_and_canonical_candidates v (path_string p)) = {p}"
  using assms
  by (auto simp: normalized_and_canonical_candidates_def push_unique_def no_links_def components_path_string Let_def
      split: option.splits)

lemma no_globs_matcher:
  assumes "no_deny_globs es" and "new_matcher v globs (restricted es) cwd = Some (Some m)"
  shows "denied_candidates m = map (\<lambda>path. normalized_and_canonical_candidates v (path_string path))
      (get_unreadable_roots_with_cwd v (restricted es) cwd)"
    and "deny_read_matchers m = []" and "\<not> invalid_pattern m"
proof -
  have "filter_map (\<lambda>e. case en_path e of
        GlobPattern pattern \<Rightarrow> Some (path_string (resolve_path_against_base (os_host v) pattern cwd))
      | _ \<Rightarrow> None) (filter (\<lambda>e. en_access e = Deny) es) = []"
    using assms(1) by (auto simp: no_deny_globs_def list_all_iff filter_map_eq_Nil split: fs_path.splits)
  then have none: "get_unreadable_globs_with_cwd v (restricted es) cwd = []"
    by (simp add: get_unreadable_globs_with_cwd_def restricted_def)
  show "denied_candidates m = map (\<lambda>path. normalized_and_canonical_candidates v (path_string path))
      (get_unreadable_roots_with_cwd v (restricted es) cwd)"
    and "deny_read_matchers m = []" and "\<not> invalid_pattern m"
    using assms(2) by (auto simp: new_matcher_def matcher_build_def res_ok_def none split: if_splits)
qed

lemma unreadable_root_denied:
  assumes "view_ok v" and "no_links v" and "abs_path_ok c" and "entries_ok (restricted es)"
    and "r \<in> set (get_unreadable_roots_with_cwd v (restricted es) (path_string c))"
  shows "abs_path_ok r \<and> (\<exists>x \<in> set es. en_access x = Deny \<and> resolve_permission_path v (en_path x) (path_string c) = Some r)"
proof -
  have ok: "abs_path_ok (re_path e)" if "e \<in> set (rights v c es)" for e
    using resolved_entries_ok [OF assms(1,3,4) that] .
  obtain e where e: "e \<in> set (rights v c es)" "re_access e = Deny" "r = normalize_effective_absolute_path v (re_path e)"
    using assms(5) by (auto simp: get_unreadable_roots_with_cwd_def restricted_def dedup_absolute_paths_def set_dedup Let_def)
  then have "r = re_path e"
    using effective_path_id [OF assms(2) ok [OF e(1)]] by simp
  then show ?thesis
    using e(1,2) ok [OF e(1)] in_rights [OF assms(3), of e v es] by auto
qed

lemma read_denied_iff:
  assumes "view_ok v" and "no_links v" and "abs_path_ok c" and "entries_ok (restricted es)" and "no_deny_globs es"
    and "new_matcher v globs (restricted es) (path_string c) = Some (Some m)" and "abs_path_ok q"
  shows "is_read_denied v m (path_string q) \<longleftrightarrow>
    (\<exists>r \<in> set (get_unreadable_roots_with_cwd v (restricted es) (path_string c)). prefix r q)"
proof -
  let ?roots = "get_unreadable_roots_with_cwd v (restricted es) (path_string c)"
  have covers: "(\<exists>s \<in> set (normalized_and_canonical_candidates v (path_string q)).
      \<exists>d \<in> set (normalized_and_canonical_candidates v (path_string r)). prefix (components d) (components s)) \<longleftrightarrow> prefix r q"
    if "r \<in> set ?roots" for r
  proof -
    have "abs_path_ok r"
      using unreadable_root_denied [OF assms(1-4) that] by simp
    then have "(\<exists>x \<in> components ` set (normalized_and_canonical_candidates v (path_string q)).
        \<exists>y \<in> components ` set (normalized_and_canonical_candidates v (path_string r)). prefix y x) \<longleftrightarrow> prefix r q"
      by (simp only: candidates_no_links [OF assms(2)] assms(7)) simp
    then show ?thesis
      by simp
  qed
  show ?thesis
    using no_globs_matcher [OF assms(5,6)] covers
    by (simp add: is_read_denied_def Let_def list_ex_iff)
qed

lemma grant_allows:
  assumes ok: "abs_path_ok c" "abs_path_ok t"
    and grants: "grants = (case granted of Some g \<Rightarrow> fp_entries g | None \<Rightarrow> [])"
    and run: "intersect_file_system v globs rf granted (path_string c) = Some f"
    and e: "decides e (rights v c (fp_entries f)) t" "can_read (re_access e)"
  shows "\<exists>d. decides d (rights v c grants) t \<and> can_read (re_access d) \<and>
    (re_access e = Write \<longrightarrow> re_access d = Write \<or> length (re_path e) < length (re_path d))"
proof -
  obtain g where g: "g \<in> set grants" "resolve_permission_path v (en_path g) (path_string c) = Some (re_path e)"
    "en_access g = re_access e"
    using decided_entry_granted(1) [OF ok(1) grants run e] accepted_grant(1) by blast
  then have eg: "e \<in> set (rights v c grants)"
    using in_rights [OF ok(1)] by blast
  then have "covered (rights v c grants) t"
    using e(1) by (auto simp: covered_def decides_def)
  then obtain d where d: "decides d (rights v c grants) t"
    by (rule deciding_entry)
  obtain x where x: "x \<in> set grants" "resolve_permission_path v (en_path x) (path_string c) = Some (re_path d)"
    "en_access x = re_access d"
    using d in_rights [OF ok(1)] by (auto simp: decides_def)
  have longer: "length (re_path e) < length (re_path d) \<or> re_path e = re_path d \<and> re_access e \<le> re_access d"
    using d eg e(1) by (simp add: decides_def)
  have readable: "can_read (re_access d)"
  proof (rule ccontr)
    assume "\<not> can_read (re_access d)"
    then have "length (re_path d) < length (re_path e)"
      using decided_entry_granted(2) [OF ok(1) grants run e, of x "re_path d"] x d by (auto simp: decides_def can_read_def)
    then show False
      using longer by auto
  qed
  moreover have "re_access d = Write" if "re_access e = Write" "re_path e = re_path d" "re_access e \<le> re_access d"
    using that readable by (cases "re_access d") (auto simp: can_read_def)
  ultimately show ?thesis
    using d longer by blast
qed

lemma accepted_in_result:
  assumes "abs_path_ok c" and "grants = (case granted of Some g \<Rightarrow> fp_entries g | None \<Rightarrow> [])"
    and "intersect_file_system v globs rf granted (path_string c) = Some f"
    and "g \<in> set (accepted_grants v globs rf grants (path_string c))"
    and "resolve_permission_path v (en_path g) (path_string c) = Some q"
  shows "\<lparr>re_path = q, re_access = en_access g\<rparr> \<in> set (rights v c (fp_entries f))"
proof -
  have "materialize_cwd_dependent_entry v g (path_string c) \<in> set (fp_entries f)"
    by (rule intersect_entries [OF assms(2), of v globs rf "path_string c"]) (use assms(3,4) in auto)
  then show ?thesis
    unfolding in_rights [OF assms(1)]
    by (rule bexI [rotated]) (simp add: materialized_permission_path [OF assms(1)] assms(5))
qed

lemma grant_allows_write:
  assumes "view_ok v" and "no_links v" and rf: "entries_ok (restricted (fp_entries rf))" "no_deny_globs (fp_entries rf)"
    and gr: "entries_ok (restricted grants)" and ok: "abs_path_ok c" "abs_path_ok t"
    and grants: "grants = (case granted of Some g \<Rightarrow> fp_entries g | None \<Rightarrow> [])"
    and run: "intersect_file_system v globs rf granted (path_string c) = Some f"
    and e: "decides e (rights v c (fp_entries f)) t" "re_access e = Write"
  shows "\<exists>d. decides d (rights v c grants) t \<and> re_access d = Write"
proof -
  let ?cwd = "path_string c"
  have er: "can_read (re_access e)"
    using e(2) by (simp add: can_read_def)
  obtain d where d: "decides d (rights v c grants) t" "can_read (re_access d)"
    "re_access d = Write \<or> length (re_path e) < length (re_path d)"
    using grant_allows [OF ok grants run e(1) er] e(2) by blast
  obtain g where g: "g \<in> set (accepted_grants v globs rf grants ?cwd)"
    "resolve_permission_path v (en_path g) ?cwd = Some (re_path e)" "en_access g = re_access e"
    using decided_entry_granted(1) [OF ok(1) grants run e(1) er] by blast
  obtain x where x: "x \<in> set grants" "resolve_permission_path v (en_path x) ?cwd = Some (re_path d)"
    "en_access x = re_access d"
    using d(1) in_rights [OF ok(1)] by (auto simp: decides_def)
  have okd: "abs_path_ok (re_path d)" "abs_path_ok (re_path e)"
    using entry_path_ok [OF assms(1) ok(1) gr] x(1,2) g(2) accepted_grant(1) [OF g(1,2)]
    by (auto simp: permission_path [OF ok(1)] restricted_def)
  have "False" if longer: "length (re_path e) < length (re_path d)" and "re_access d \<noteq> Write"
  proof -
    have "re_access d = Read"
      using that(2) d(2) by (cases "re_access d") (auto simp: can_read_def)
    have below: "prefix (re_path e) (re_path d)" "prefix (re_path d) t"
      using longer d(1) e(1) by (auto simp: decides_def intro: prefix_length_prefix)
    obtain r where r: "decides r (rights v c (fp_entries rf)) (re_path d)" "can_read (re_access r)"
      using request_allows [OF ok(1) okd(1,2) grants run e(1) er below] by blast
    have "resolve_access_with_cwd v (restricted (fp_entries rf)) (path_string (re_path d)) ?cwd = re_access r"
      using rights_access [OF okd(1), of v "fp_entries rf" c "re_access r"] r(1) by blast
    then have "access_covers (resolve_access_with_cwd v (restricted (fp_entries rf)) (path_string (re_path d)) ?cwd) (en_access x)"
      using r(2) x(3) \<open>re_access d = Read\<close> by (simp add: access_covers_def)
    moreover have "\<not> is_read_denied v m (path_string (re_path d))"
      if m: "new_matcher v globs (restricted (fp_entries rf)) ?cwd = Some (Some m)" for m
    proof
      note iff = read_denied_iff [OF assms(1,2) ok(1) rf m]
      assume "is_read_denied v m (path_string (re_path d))"
      then obtain r where r: "r \<in> set (get_unreadable_roots_with_cwd v (restricted (fp_entries rf)) ?cwd)" "prefix r (re_path d)"
        using iff [OF okd(1)] by blast
      then obtain y where "y \<in> set (fp_entries rf)" "en_access y = Deny" "resolve_permission_path v (en_path y) ?cwd = Some r"
        using unreadable_root_denied [OF assms(1,2) ok(1) rf(1)] by blast
      then have "length r < length (re_path e)"
        using decided_entry_granted(2) [OF ok(1) grants run e(1) er] r(2) below(2) prefix_order.trans by blast
      then have "prefix r (re_path e)"
        using r(2) below(1) by (auto intro: prefix_length_prefix)
      then show False
        using iff [OF okd(2)] r(1) accepted_grant(4) [OF g(1,2) m] by blast
    qed
    ultimately have "x \<in> set (accepted_grants v globs rf grants ?cwd)"
      by (rule accepted_grantI [OF x(1,2)])
    from accepted_in_result [OF ok(1) grants run this x(2)] show False
      using e(1) longer below(2) by (auto simp: decides_def)
  qed
  then show ?thesis
    using d by blast
qed

lemma intersect_total: "\<exists>result. intersect_permission_profiles v globs requested granted cwd = Some result"
proof (cases "ap_file_system requested")
  case (Some rf)
  obtain f where "intersect_file_system v globs rf (ap_file_system granted) cwd = Some f"
    by (rule intersect_entries [OF refl])
  then show ?thesis
    using Some by (simp add: intersect_permission_profiles_def Let_def)
qed (simp add: intersect_permission_profiles_def Let_def)

lemma permitted_decided:
  assumes "abs_path_ok t" and "can_read (permitted_access v a c t)"
  obtains e where "decides e (rights v c (permission_entries a)) t" and "can_read (re_access e)"
    and "re_access e = permitted_access v a c t"
  using readable_decided [OF assms(1), of v "permission_entries a" c] assms(2) unfolding permitted_access_def by blast

lemma permittedI:
  "abs_path_ok t \<Longrightarrow> decides e (rights v c (permission_entries a)) t \<Longrightarrow> permitted_access v a c t = re_access e"
  unfolding permitted_access_def by (subst rights_access) auto

lemma intersect_allows:
  assumes "intersect_permission_profiles v globs requested granted (path_string c) = Some result"
    and "view_ok v" and "abs_path_ok c" and "abs_path_ok t"
    and "entries_ok (restricted (permission_entries requested))" and "entries_ok (restricted (permission_entries granted))"
    and "can_read (permitted_access v result c t)"
  shows "can_read (permitted_access v requested c t)" and "can_read (permitted_access v granted c t)"
    and "permitted_access v result c t = Write \<Longrightarrow> no_links v \<Longrightarrow> no_deny_globs (permission_entries requested) \<Longrightarrow>
      permitted_access v granted c t = Write"
    and "permitted_access v result c t = Write \<Longrightarrow> list_all (\<lambda>e. en_access e \<noteq> Read) (permission_entries requested) \<Longrightarrow>
      permitted_access v requested c t = Write"
proof -
  obtain e where e: "decides e (rights v c (permission_entries result)) t" "can_read (re_access e)"
    "re_access e = permitted_access v result c t"
    using permitted_decided [OF assms(4,7)] by blast
  then have "permission_entries result \<noteq> []"
    by (auto simp: decides_def resolved_entries_with_cwd_def restricted_def)
  then obtain rf f where rf: "permission_entries requested = fp_entries rf" "permission_entries result = fp_entries f"
    and run: "intersect_file_system v globs rf (ap_file_system granted) (path_string c) = Some f"
    using intersect_unfolded [OF assms(1)] by metis
  have grants: "permission_entries granted = (case ap_file_system granted of Some g \<Rightarrow> fp_entries g | None \<Rightarrow> [])"
    by (simp add: permission_entries_def)
  note d = e(1) [unfolded rf(2)]
  have "e \<in> set (rights v c (permission_entries granted))"
    using decided_entry_granted(1) [OF assms(3) grants run d e(2)] accepted_grant(1) in_rights [OF assms(3)] by blast
  then have ok: "abs_path_ok (re_path e)"
    using resolved_entries_ok [OF assms(2,3,6)] by blast
  have below: "prefix (re_path e) t"
    using e(1) by (simp add: decides_def)
  obtain q where q: "decides q (rights v c (permission_entries requested)) t" "can_read (re_access q)"
    "re_access e = Write \<longrightarrow> re_access q = Write \<or> length (re_path e) < length (re_path q)"
    using request_allows [OF assms(3,4) ok grants run d e(2) below prefix_order.refl] rf(1) by auto
  then show "can_read (permitted_access v requested c t)"
    using permittedI [OF assms(4)] by simp
  obtain g where g: "decides g (rights v c (permission_entries granted)) t" "can_read (re_access g)"
    using grant_allows [OF assms(3,4) grants run d e(2)] by auto
  then show "can_read (permitted_access v granted c t)"
    using permittedI [OF assms(4)] by simp
  show "permitted_access v granted c t = Write"
    if "permitted_access v result c t = Write" "no_links v" "no_deny_globs (permission_entries requested)"
    using grant_allows_write [OF assms(2) that(2) _ _ assms(6,3,4) grants run d] that e(3) assms(5) rf(1) permittedI [OF assms(4)]
    by metis
  show "permitted_access v requested c t = Write" if "list_all (\<lambda>e. en_access e \<noteq> Read) (permission_entries requested)"
  proof -
    have "re_access q \<noteq> Read"
      using q(1) that in_rights [OF assms(3), of q v "permission_entries requested"] by (auto simp: decides_def list_all_iff)
    then show ?thesis
      using q permittedI [OF assms(4) q(1)] by (cases "re_access q") (auto simp: can_read_def)
  qed
qed

text \<open>
  C9: The permissions that a command gets are within what it asked for and within what the user granted.
  Intersecting the two never fails. A path that the result lets be read is readable under the request
  and under the grant. A path that it lets be written is writable under the grant, when the request has
  no deny patterns and there are no links, and under the request, when the request has no read-only
  entries. The network is opened only when both open it.
\<close>

theorem intersection_within_request_and_grant:
  assumes "view_ok v" and "abs_path_ok c" and "abs_path_ok t"
    and "entries_ok (restricted (permission_entries requested))" and "entries_ok (restricted (permission_entries granted))"
  shows "\<exists>result. intersect_permission_profiles v globs requested granted (path_string c) = Some result \<and>
    (can_read (permitted_access v result c t) \<longrightarrow>
       can_read (permitted_access v requested c t) \<and> can_read (permitted_access v granted c t)) \<and>
    (permitted_access v result c t = Write \<and> no_links v \<and> no_deny_globs (permission_entries requested) \<longrightarrow>
       permitted_access v granted c t = Write) \<and>
    (permitted_access v result c t = Write \<and> list_all (\<lambda>e. en_access e \<noteq> Read) (permission_entries requested) \<longrightarrow>
       permitted_access v requested c t = Write) \<and>
    (ap_network result \<noteq> None \<longrightarrow>
       ap_network requested = Some \<lparr>np_enabled = Some True\<rparr> \<and> ap_network granted = Some \<lparr>np_enabled = Some True\<rparr>)"
proof -
  obtain result where r: "intersect_permission_profiles v globs requested granted (path_string c) = Some result"
    using intersect_total by blast
  have "ap_network requested = Some \<lparr>np_enabled = Some True\<rparr> \<and> ap_network granted = Some \<lparr>np_enabled = Some True\<rparr>"
    if "ap_network result \<noteq> None"
    using r that by (auto simp: intersect_permission_profiles_def Let_def split: option.splits if_splits)
  moreover have "can_read Write"
    by (simp add: can_read_def)
  ultimately show ?thesis
    using r intersect_allows [OF r assms] by metis
qed

definition sample_permissions :: "sandbox_entry list \<Rightarrow> additional_permission_profile" where
  "sample_permissions es =
     \<lparr>ap_network = None, ap_file_system = Some \<lparr>fp_entries = es, fp_glob_scan_max_depth = None\<rparr>\<rparr>"

theorem intersection_within_request_and_grant_witness:
  "\<exists>result. intersect_permission_profiles plain_view (\<lambda>_. Err []) (sample_permissions [new_entry (Special (ProjectRoots None)) Write])
       (sample_permissions [new_entry (FsPath [RootDir, Normal ''w'']) Write]) ''/w'' = Some result \<and>
     permitted_access plain_view result [RootDir, Normal ''w''] [RootDir, Normal ''w'', Normal ''a''] = Write \<and>
     permitted_access plain_view (sample_permissions [new_entry (Special (ProjectRoots None)) Write])
       [RootDir, Normal ''w''] [RootDir, Normal ''w'', Normal ''a''] = Write"
proof -
  let ?r = "sample_permissions [new_entry (Special (ProjectRoots None)) Write]"
  let ?g = "sample_permissions [new_entry (FsPath [RootDir, Normal ''w'']) Write]"
  have "abs_path_ok [RootDir, Normal ''w'', Normal ''a''] \<and> entries_ok (restricted (permission_entries ?r)) \<and>
      entries_ok (restricted (permission_entries ?g)) \<and>
      list_all (\<lambda>e. en_access e \<noteq> Read) (permission_entries ?r) \<and>
      (case intersect_permission_profiles plain_view (\<lambda>_. Err []) ?r ?g ''/w'' of
         Some result \<Rightarrow> permitted_access plain_view result [RootDir, Normal ''w''] [RootDir, Normal ''w'', Normal ''a''] = Write
       | None \<Rightarrow> False)"
    by code_simp
  then show ?thesis
    using intersection_within_request_and_grant [OF plain_view_ok plain_cwd(1), of "[RootDir, Normal ''w'', Normal ''a'']" ?r ?g
        "\<lambda>_. Err []"] plain_cwd(2) by auto
qed

text \<open>
  Both conditions on writes are needed. A read-only entry below a writable one in the request is lost,
  and the result may write there. And a deny pattern of the request for a directory that the grant has
  read-only makes the read-only entry disappear, so that the result may write below it.
\<close>

lemma read_carveout_of_request_lost:
  "let a = [RootDir, Normal ''a'']; request = sample_permissions [new_entry (FsPath a) Write, new_entry (FsPath (a @ [Normal ''c''])) Read];
       x = a @ [Normal ''c'', Normal ''x'']
   in permitted_access plain_view request a x = Read \<and>
      (case intersect_permission_profiles plain_view (\<lambda>_. Err []) request (sample_permissions [new_entry (FsPath a) Write]) ''/a'' of
         Some result \<Rightarrow> permitted_access plain_view result a x = Write
       | None \<Rightarrow> False)"
  by code_simp

lemma deny_pattern_exceeds_grant:
  "let a = [RootDir, Normal ''a'']; request = sample_permissions [new_entry (FsPath a) Write, new_entry (GlobPattern ''/a/c'') Deny];
       grant = sample_permissions [new_entry (FsPath a) Write, new_entry (FsPath (a @ [Normal ''c''])) Read];
       x = a @ [Normal ''c'', Normal ''x'']
   in permitted_access plain_view grant a x = Read \<and>
      (case intersect_permission_profiles plain_view (\<lambda>pattern. Ok (\<lambda>path. path = pattern)) request grant ''/a'' of
         Some result \<Rightarrow> permitted_access plain_view result a x = Write
       | None \<Rightarrow> False)"
  by code_simp

section \<open>What additional permissions add\<close>

lemma effective_policy_entries:
  assumes "fs_kind p = Restricted"
  shows "fs_kind (effective_file_system_sandbox_policy p (Some a)) = Restricted"
    and "set (resolved_entries_with_cwd v (effective_file_system_sandbox_policy p (Some a)) cwd) =
      set (resolved_entries_with_cwd v p cwd) \<union> set (resolved_entries_with_cwd v (restricted (permission_entries a)) cwd)"
proof -
  have eff: "set (fs_entries (effective_file_system_sandbox_policy p (Some a))) = set (fs_entries p) \<union> set (permission_entries a)"
    and kind: "fs_kind (effective_file_system_sandbox_policy p (Some a)) = Restricted"
    using assms
    by (auto simp: effective_file_system_sandbox_policy_def merge_file_system_policy_with_additional_permissions_def
        permission_entries_def fs_permissions_empty_def set_push_missing split: option.splits)
  show "fs_kind (effective_file_system_sandbox_policy p (Some a)) = Restricted"
    by (rule kind)
  show "set (resolved_entries_with_cwd v (effective_file_system_sandbox_policy p (Some a)) cwd) =
      set (resolved_entries_with_cwd v p cwd) \<union> set (resolved_entries_with_cwd v (restricted (permission_entries a)) cwd)"
    unfolding resolved_entries_with_cwd_def set_eq_iff Un_iff in_set_filter_map eff bex_Un by (simp add: restricted_def)
qed

lemma decides_subset:
  "decides e es t \<Longrightarrow> e \<in> set fs \<Longrightarrow> set fs \<subseteq> set es \<Longrightarrow> decides e fs t"
  unfolding decides_def by blast

text \<open>
  C24: Additional permissions change a restricted policy only where one of their entries is the most
  specific one: a path that is readable or writable under the effective policy and was not so before is
  covered by an entry of the additional permissions that allows it and that is at least as specific as
  every entry of the policy for the path, and a denial for a path at least as specific as the entries of
  the additional permissions stays. A path that none of them covers keeps its access.
\<close>

theorem additional_permissions_local:
  assumes "fs_kind p = Restricted" and "resolve_candidate_path v path cwd = Some t"
  shows "let eff = effective_file_system_sandbox_policy p (Some a);
             added = resolved_entries_with_cwd v (restricted (permission_entries a)) cwd
         in (\<not> covered added t \<longrightarrow> resolve_access_with_cwd v eff path cwd = resolve_access_with_cwd v p path cwd) \<and>
            (resolve_access_with_cwd v eff path cwd \<noteq> resolve_access_with_cwd v p path cwd \<longrightarrow>
               (\<exists>e. decides e added t \<and> re_access e = resolve_access_with_cwd v eff path cwd \<and>
                  (\<forall>d \<in> set (resolved_entries_with_cwd v p cwd). prefix (re_path d) t \<longrightarrow>
                     length (re_path d) < length (re_path e) \<or> re_path d = re_path e \<and> re_access d \<noteq> Deny)))"
proof -
  let ?eff = "effective_file_system_sandbox_policy p (Some a)"
  let ?added = "resolved_entries_with_cwd v (restricted (permission_entries a)) cwd"
  let ?old = "resolved_entries_with_cwd v p cwd" and ?new = "resolved_entries_with_cwd v ?eff cwd"
  have new: "set ?new = set ?old \<union> set ?added" and kind: "fs_kind ?eff = Restricted"
    using effective_policy_entries [OF assms(1)] by auto
  show ?thesis
  proof (cases "covered ?new t")
    case False
    then have "\<not> covered ?old t"
      using new by (auto simp: covered_def)
    then show ?thesis
      using False resolve_access_uncovered [OF kind assms(2)] resolve_access_uncovered [OF assms(1,2)] by (simp add: Let_def)
  next
    case True
    then obtain e where e: "decides e ?new t"
      by (rule deciding_entry)
    have eff: "resolve_access_with_cwd v ?eff path cwd = re_access e"
      by (rule resolve_access_decided [OF kind assms(2) e])
    have old: "resolve_access_with_cwd v p path cwd = re_access e" if "e \<in> set ?old"
      using decides_subset [OF e that] new by (intro resolve_access_decided [OF assms(1,2)]) auto
    have added: "decides e ?added t" if "e \<notin> set ?old"
      using decides_subset [OF e] e that new by (auto simp: decides_def)
    have beats: "length (re_path d) < length (re_path e) \<or> re_path d = re_path e \<and> re_access d \<noteq> Deny"
      if "d \<in> set ?old" "prefix (re_path d) t" "resolve_access_with_cwd v p path cwd \<noteq> re_access e" for d
    proof -
      have "length (re_path d) < length (re_path e) \<or> re_path d = re_path e \<and> re_access d \<le> re_access e"
        using e that(1,2) new by (auto simp: decides_def)
      moreover have False if eq: "re_path d = re_path e" "re_access d = Deny" "re_access d \<le> re_access e"
      proof -
        have "re_access e = Deny"
          using eq(2,3) by (cases "re_access e") auto
        then have "d = e"
          using eq by simp
        then show False
          using old \<open>d \<in> set ?old\<close> \<open>resolve_access_with_cwd v p path cwd \<noteq> re_access e\<close> by simp
      qed
      ultimately show ?thesis
        by blast
    qed
    have "e \<in> set ?old" if "\<not> covered ?added t"
      using that e new by (auto simp: decides_def covered_def)
    moreover have "decides e ?added t \<and> re_access e = resolve_access_with_cwd v ?eff path cwd \<and>
        (\<forall>d \<in> set ?old. prefix (re_path d) t \<longrightarrow>
           length (re_path d) < length (re_path e) \<or> re_path d = re_path e \<and> re_access d \<noteq> Deny)"
      if "resolve_access_with_cwd v ?eff path cwd \<noteq> resolve_access_with_cwd v p path cwd"
      using that eff old added beats by metis
    ultimately show ?thesis
      using eff old unfolding Let_def by metis
  qed
qed

theorem additional_permissions_local_witness:
  "resolve_access_with_cwd plain_view (effective_file_system_sandbox_policy plain_policy
       (Some (sample_permissions [new_entry (FsPath [RootDir, Normal ''o'']) Write]))) ''/w/.git'' ''/w'' =
     resolve_access_with_cwd plain_view plain_policy ''/w/.git'' ''/w''"
proof -
  have "resolve_candidate_path plain_view ''/w/.git'' ''/w'' = Some [RootDir, Normal ''w'', Normal ''.git''] \<and>
    \<not> covered (resolved_entries_with_cwd plain_view
        (restricted (permission_entries (sample_permissions [new_entry (FsPath [RootDir, Normal ''o'']) Write]))) ''/w'')
      [RootDir, Normal ''w'', Normal ''.git'']"
    unfolding covered_def by code_simp
  then show ?thesis
    using additional_permissions_local [OF plain_policy_facts(1), of plain_view "''/w/.git''" "''/w''"
        "[RootDir, Normal ''w'', Normal ''.git'']"] by (simp add: Let_def)
qed

text \<open>
  Additional permissions do not only widen. A read entry inside a directory that the policy lets be
  written is the more specific one, and the directory becomes read-only for the command.
\<close>

lemma additional_read_narrows:
  "resolve_access_with_cwd plain_view plain_policy ''/w/a'' ''/w'' = Write \<and>
   resolve_access_with_cwd plain_view (effective_file_system_sandbox_policy plain_policy
     (Some (sample_permissions [new_entry (FsPath [RootDir, Normal ''w'', Normal ''a'']) Read]))) ''/w/a'' ''/w'' = Read"
  by code_simp

end
