(* ===== verification/Turn_Diff.thy ===== *)
theory Turn_Diff
  imports Patch_Fs "HOL-Library.AList" "HOL-Library.List_Lexorder" "HOL-Library.Char_ord"
begin

text \<open>
  The net diff of a turn (\<^verbatim>\<open>codex-rs/core/src/turn_diff_tracker.rs\<close>), computed from the deltas of the
  applied patches without reading the files again. A hash map is an association list without double
  keys, in the order of its iteration. The text of a unified diff (the package \<^verbatim>\<open>similar\<close>) and the
  hexadecimal SHA-1 digest are the functions of \<open>diff_lib\<close>. A revision is a natural number: a turn does not
  track \<^verbatim>\<open>2^64\<close> contents.
\<close>

section \<open>The tracker\<close>

definition ZERO_OID :: string where
  "ZERO_OID = replicate 40 (CHR ''0'')"

definition DEV_NULL :: string where
  "DEV_NULL = ''/dev/null''"

definition REGULAR_FILE_MODE :: string where
  "REGULAR_FILE_MODE = ''100644''"

record tracked_content =
  tc_content :: string
  tc_revision :: nat

type_synonym 'u tracked_path = "string \<times> 'u"

record 'u diff_cache_key =
  key_left_path :: "'u tracked_path"
  key_left_revision :: "nat option"
  key_right_path :: "'u tracked_path"
  key_right_revision :: "nat option"

record 'u turn_diff_tracker =
  trk_valid :: bool
  trk_display_roots :: "(string \<times> 'u) list"
  trk_baseline :: "('u tracked_path \<times> tracked_content) list"
  trk_current :: "('u tracked_path \<times> tracked_content) list"
  trk_origin :: "('u tracked_path \<times> 'u tracked_path) list"
  trk_next_revision :: nat
  trk_rendered_diffs :: "('u diff_cache_key \<times> string option) list"
  trk_unified_diff :: "string option"

definition new_tracker :: "'u turn_diff_tracker" where
  "new_tracker =
     \<lparr>trk_valid = True, trk_display_roots = [], trk_baseline = [], trk_current = [], trk_origin = [],
      trk_next_revision = 0, trk_rendered_diffs = [], trk_unified_diff = None\<rparr>"

definition with_environment_display_roots :: "(string \<times> 'u) list \<Rightarrow> 'u turn_diff_tracker" where
  "with_environment_display_roots roots =
     new_tracker\<lparr>trk_display_roots := fold (\<lambda>(env, root). AList.update env root) roots []\<rparr>"

subsection \<open>Changes\<close>

definition track_content :: "string \<Rightarrow> 'u turn_diff_tracker \<Rightarrow> tracked_content \<times> 'u turn_diff_tracker" where
  "track_content content t =
     (\<lparr>tc_content = content, tc_revision = trk_next_revision t\<rparr>, t\<lparr>trk_next_revision := trk_next_revision t + 1\<rparr>)"

definition contains_key :: "('k \<times> 'v) list \<Rightarrow> 'k \<Rightarrow> bool" where
  "contains_key m k = (map_of m k \<noteq> None)"

definition insert_baseline :: "'u tracked_path \<Rightarrow> string \<Rightarrow> 'u turn_diff_tracker \<Rightarrow> 'u turn_diff_tracker" where
  "insert_baseline path content t =
     (let (tc, t1) = track_content content t in t1\<lparr>trk_baseline := AList.update path tc (trk_baseline t1)\<rparr>)"

definition insert_current :: "'u tracked_path \<Rightarrow> string \<Rightarrow> 'u turn_diff_tracker \<Rightarrow> 'u turn_diff_tracker" where
  "insert_current path content t =
     (let (tc, t1) = track_content content t in t1\<lparr>trk_current := AList.update path tc (trk_current t1)\<rparr>)"

definition untracked :: "'u turn_diff_tracker \<Rightarrow> 'u tracked_path \<Rightarrow> bool" where
  "untracked t path = (\<not> contains_key (trk_current t) path \<and> \<not> contains_key (trk_baseline t) path)"

text \<open>The contents that a change replaces become the baseline of a path that is not tracked yet.\<close>

definition note_overwritten :: "'u tracked_path \<Rightarrow> string option \<Rightarrow> 'u turn_diff_tracker \<Rightarrow> 'u turn_diff_tracker" where
  "note_overwritten path overwritten t =
     (if untracked t path then (case overwritten of Some content \<Rightarrow> insert_baseline path content t | None \<Rightarrow> t) else t)"

definition tracker_add :: "'u tracked_path \<Rightarrow> string \<Rightarrow> string option \<Rightarrow> 'u turn_diff_tracker \<Rightarrow> 'u turn_diff_tracker" where
  "tracker_add path content overwritten_content t =
     insert_current path content
       (note_overwritten path overwritten_content (t\<lparr>trk_origin := AList.delete path (trk_origin t)\<rparr>))"

definition tracker_delete :: "'u tracked_path \<Rightarrow> string \<Rightarrow> 'u turn_diff_tracker \<Rightarrow> 'u turn_diff_tracker" where
  "tracker_delete path content t =
     (let t1 = note_overwritten path (Some content) t;
          t2 = t1\<lparr>trk_current := AList.delete path (trk_current t1)\<rparr>
      in t2\<lparr>trk_origin := AList.delete path (trk_origin t2)\<rparr>)"

definition move_origin ::
  "'u tracked_path \<Rightarrow> 'u tracked_path \<Rightarrow> ('u tracked_path \<times> 'u tracked_path) list \<Rightarrow>
   ('u tracked_path \<times> 'u tracked_path) list" where
  "move_origin source_path dest_path origins =
     (let origin = (case map_of origins source_path of Some first \<Rightarrow> first | None \<Rightarrow> source_path);
          rest = AList.delete dest_path (AList.delete source_path origins)
      in if dest_path \<noteq> origin then AList.update dest_path origin rest else rest)"

definition tracker_update ::
  "'u tracked_path \<Rightarrow> 'u tracked_path option \<Rightarrow> string \<Rightarrow> string option \<Rightarrow> string \<Rightarrow> 'u turn_diff_tracker \<Rightarrow>
   'u turn_diff_tracker" where
  "tracker_update source_path move_path old_content overwritten_move_content new_content t =
     (let t1 = note_overwritten source_path (Some old_content) t
      in case move_path of
           Some dest_path \<Rightarrow>
             let t2 = note_overwritten dest_path overwritten_move_content t1;
                 t3 = insert_current dest_path new_content
                        (t2\<lparr>trk_current := AList.delete source_path (trk_current t2)\<rparr>)
             in t3\<lparr>trk_origin := move_origin source_path dest_path (trk_origin t3)\<rparr>
         | None \<Rightarrow> insert_current source_path new_content t1)"

fun apply_change :: "string \<Rightarrow> 'u \<times> 'u file_change \<Rightarrow> 'u turn_diff_tracker \<Rightarrow> 'u turn_diff_tracker" where
  "apply_change env (path, ChangeAdd content overwritten) t = tracker_add (env, path) content overwritten t"
| "apply_change env (path, ChangeDelete content) t = tracker_delete (env, path) content t"
| "apply_change env (path, ChangeUpdate move_path old overwritten new) t =
     tracker_update (env, path) (map_option (Pair env) move_path) old overwritten new t"

subsection \<open>Rendering\<close>

record diff_lib =
  sha1_hex :: "string \<Rightarrow> string"
  unified_text :: "string \<Rightarrow> string \<Rightarrow> string \<Rightarrow> string \<Rightarrow> string"

definition git_blob_oid :: "diff_lib \<Rightarrow> string \<Rightarrow> string" where
  "git_blob_oid D data = sha1_hex D (''blob '' @ nat_text (length data) @ [CHR 0x00] @ data)"

definition display_path :: "'u url_lib \<Rightarrow> 'u turn_diff_tracker \<Rightarrow> 'u tracked_path \<Rightarrow> string" where
  "display_path L t path =
     (let display =
            (case Option.bind (map_of (trk_display_roots t) (fst path)) (\<lambda>root. relative_path_from L (snd path) root) of
               Some d \<Rightarrow> d
             | None \<Rightarrow> inferred_native_path_string L (snd path))
      in if 1 < length (trk_display_roots t) \<and> fst path \<noteq> [] then fst path @ ''/'' @ display else display)"

definition git_display :: "'u url_lib \<Rightarrow> 'u turn_diff_tracker \<Rightarrow> 'u tracked_path \<Rightarrow> string" where
  "git_display L t path = map (\<lambda>c. if c = BSLASH then SLASH else c) (display_path L t path)"

definition render_diff ::
  "'u url_lib \<Rightarrow> diff_lib \<Rightarrow> 'u turn_diff_tracker \<Rightarrow> 'u tracked_path \<Rightarrow> string option \<Rightarrow> 'u tracked_path \<Rightarrow>
   string option \<Rightarrow> string option" where
  "render_diff L D t left_path left_content right_path right_content =
     (if left_content = right_content then None
      else
        let left_display = git_display L t left_path;
            right_display = git_display L t right_path;
            oid = (\<lambda>content. case content of None \<Rightarrow> ZERO_OID | Some c \<Rightarrow> git_blob_oid D c);
            mode = (case (left_content, right_content) of
                      (None, Some _) \<Rightarrow> Some (''new file mode '' @ REGULAR_FILE_MODE @ [NL])
                    | (Some _, None) \<Rightarrow> Some (''deleted file mode '' @ REGULAR_FILE_MODE @ [NL])
                    | (Some _, Some _) \<Rightarrow> Some []
                    | (None, None) \<Rightarrow> None);
            old_header = (if left_content \<noteq> None then ''a/'' @ left_display else DEV_NULL);
            new_header = (if right_content \<noteq> None then ''b/'' @ right_display else DEV_NULL);
            or_empty = (\<lambda>content. case content of Some c \<Rightarrow> c | None \<Rightarrow> [])
        in map_option (\<lambda>m. ''diff --git a/'' @ left_display @ '' b/'' @ right_display @ [NL] @ m @
               ''index '' @ oid left_content @ ''..'' @ oid right_content @ [NL] @
               unified_text D old_header new_header (or_empty left_content) (or_empty right_content)) mode)"

definition rename_pairs :: "'u turn_diff_tracker \<Rightarrow> ('u tracked_path \<times> 'u tracked_path) list" where
  "rename_pairs t =
     fold (\<lambda>(origin, dest). AList.update origin dest)
       (filter_map (\<lambda>(dest, origin).
            if dest = origin \<or> contains_key (trk_current t) origin \<or> \<not> contains_key (trk_current t) dest \<or>
               \<not> contains_key (trk_baseline t) origin \<or> contains_key (trk_baseline t) dest
            then None else Some (origin, dest)) (trk_origin t)) []"

definition append_diff :: "string option \<Rightarrow> string \<Rightarrow> string" where
  "append_diff rendered aggregated =
     (case rendered of
        None \<Rightarrow> aggregated
      | Some diff \<Rightarrow>
          let a = aggregated @ diff in if a \<noteq> [] \<and> last a = NL then a else a @ [NL])"

fun refresh_paths ::
  "'u url_lib \<Rightarrow> diff_lib \<Rightarrow> 'u turn_diff_tracker \<Rightarrow> ('u tracked_path \<times> 'u tracked_path) list \<Rightarrow> 'u tracked_path list \<Rightarrow>
   'u tracked_path list \<Rightarrow> ('u diff_cache_key \<times> string option) list \<Rightarrow> ('u diff_cache_key \<times> string option) list \<Rightarrow>
   string \<Rightarrow> ('u diff_cache_key \<times> string option) list \<times> string" where
  "refresh_paths L D t pairs [] handled previous rendered aggregated = (rendered, aggregated)"
| "refresh_paths L D t pairs (path # paths) handled previous rendered aggregated =
     (if path \<in> set handled then refresh_paths L D t pairs paths handled previous rendered aggregated
      else if path \<in> snd ` set pairs then refresh_paths L D t pairs paths (path # handled) previous rendered aggregated
      else
        let (right, handled1) =
              (case map_of pairs path of Some dest \<Rightarrow> (dest, dest # path # handled) | None \<Rightarrow> (path, path # handled));
            left_content = map_of (trk_baseline t) path;
            right_content = map_of (trk_current t) right;
            key = \<lparr>key_left_path = path, key_left_revision = map_option tc_revision left_content,
                   key_right_path = right, key_right_revision = map_option tc_revision right_content\<rparr>;
            diff = (case map_of previous key of
                      Some r \<Rightarrow> r
                    | None \<Rightarrow> render_diff L D t path (map_option tc_content left_content)
                                right (map_option tc_content right_content))
        in refresh_paths L D t pairs paths handled1 (AList.delete key previous) (AList.update key diff rendered)
             (append_diff diff aggregated))"

definition tracked_paths :: "'u url_lib \<Rightarrow> 'u turn_diff_tracker \<Rightarrow> 'u tracked_path list" where
  "tracked_paths L t =
     remdups_adj (sort_key (display_path L t) (map fst (trk_baseline t) @ map fst (trk_current t)))"

definition refresh_unified_diff :: "'u url_lib \<Rightarrow> diff_lib \<Rightarrow> 'u turn_diff_tracker \<Rightarrow> 'u turn_diff_tracker" where
  "refresh_unified_diff L D t =
     (let (rendered, aggregated) =
            refresh_paths L D t (rename_pairs t) (tracked_paths L t) [] (trk_rendered_diffs t) [] []
      in t\<lparr>trk_rendered_diffs := rendered,
           trk_unified_diff := (if aggregated \<noteq> [] then Some aggregated else None)\<rparr>)"

subsection \<open>Deltas\<close>

definition invalidate :: "'u turn_diff_tracker \<Rightarrow> 'u turn_diff_tracker" where
  "invalidate t = t\<lparr>trk_valid := False, trk_rendered_diffs := [], trk_unified_diff := None\<rparr>"

definition track_delta ::
  "'u url_lib \<Rightarrow> diff_lib \<Rightarrow> string \<Rightarrow> 'u applied_delta \<Rightarrow> 'u turn_diff_tracker \<Rightarrow> 'u turn_diff_tracker" where
  "track_delta L D env delta t =
     (if \<not> trk_valid t then t
      else if \<not> delta_exact delta then invalidate t
      else refresh_unified_diff L D (fold (apply_change env) (delta_changes delta) t))"

definition get_unified_diff :: "'u turn_diff_tracker \<Rightarrow> string option" where
  "get_unified_diff t = trk_unified_diff t"

section \<open>Baseline and current contents\<close>

definition baseline_content :: "'u turn_diff_tracker \<Rightarrow> 'u tracked_path \<Rightarrow> string option" where
  "baseline_content t k = map_option tc_content (map_of (trk_baseline t) k)"

definition current_content :: "'u turn_diff_tracker \<Rightarrow> 'u tracked_path \<Rightarrow> string option" where
  "current_content t k = map_option tc_content (map_of (trk_current t) k)"

lemma insert_contents [simp]:
  "baseline_content (insert_baseline k c t) = (baseline_content t)(k \<mapsto> c)"
  "current_content (insert_baseline k c t) = current_content t"
  "baseline_content (insert_current k c t) = baseline_content t"
  "current_content (insert_current k c t) = (current_content t)(k \<mapsto> c)"
  by (auto simp: fun_eq_iff baseline_content_def current_content_def insert_baseline_def insert_current_def
      track_content_def update_conv')

lemma update_contents [simp]:
  "baseline_content (t\<lparr>trk_origin := x\<rparr>) = baseline_content t"
  "current_content (t\<lparr>trk_origin := x\<rparr>) = current_content t"
  "baseline_content (t\<lparr>trk_current := AList.delete k (trk_current t)\<rparr>) = baseline_content t"
  "current_content (t\<lparr>trk_current := AList.delete k (trk_current t)\<rparr>) = (current_content t)(k := None)"
  by (auto simp: fun_eq_iff baseline_content_def current_content_def delete_conv')

lemma untracked_iff: "untracked t k \<longleftrightarrow> baseline_content t k = None \<and> current_content t k = None"
  by (auto simp: untracked_def contains_key_def baseline_content_def current_content_def)

text \<open>The two tables after a change, by what the change says of the files.\<close>

definition note_baseline :: "('k \<rightharpoonup> string) \<Rightarrow> ('k \<rightharpoonup> string) \<Rightarrow> 'k \<Rightarrow> string option \<Rightarrow> ('k \<rightharpoonup> string)" where
  "note_baseline b c k old = (if b k = None \<and> c k = None then b(k := old) else b)"

lemma note_overwritten_contents [simp]:
  "baseline_content (note_overwritten k ow t) = note_baseline (baseline_content t) (current_content t) k ow"
  "current_content (note_overwritten k ow t) = current_content t"
  by (auto simp: note_overwritten_def note_baseline_def untracked_iff fun_eq_iff split: option.splits)

lemma tracker_contents:
  "baseline_content (tracker_add k content ow t) = note_baseline (baseline_content t) (current_content t) k ow"
  "current_content (tracker_add k content ow t) = (current_content t)(k \<mapsto> content)"
  "baseline_content (tracker_delete k content t) = note_baseline (baseline_content t) (current_content t) k (Some content)"
  "current_content (tracker_delete k content t) = (current_content t)(k := None)"
  "baseline_content (tracker_update k None old ow new t) = note_baseline (baseline_content t) (current_content t) k (Some old)"
  "current_content (tracker_update k None old ow new t) = (current_content t)(k \<mapsto> new)"
  "baseline_content (tracker_update k (Some dest) old ow new t) =
     note_baseline (note_baseline (baseline_content t) (current_content t) k (Some old)) (current_content t) dest ow"
  "current_content (tracker_update k (Some dest) old ow new t) = (current_content t)(k := None, dest \<mapsto> new)"
  by (simp_all add: tracker_add_def tracker_delete_def tracker_update_def Let_def)

text \<open>
  The tables describe the way from the first files to the present ones: a tracked path had its baseline
  contents first and has its current contents now, and a path that is not tracked is as it was.
\<close>

definition net_at :: "string option \<Rightarrow> string option \<Rightarrow> string option \<Rightarrow> string option \<Rightarrow> bool" where
  "net_at b c old new \<longleftrightarrow> (if b = None \<and> c = None then new = old else old = b \<and> new = c)"

definition net_ok :: "'u turn_diff_tracker \<Rightarrow> (string \<Rightarrow> 'u files) \<Rightarrow> (string \<Rightarrow> 'u files) \<Rightarrow> bool" where
  "net_ok t m0 m \<longleftrightarrow>
     (\<forall>env p. net_at (baseline_content t (env, p)) (current_content t (env, p)) (m0 env p) (m env p))"

lemma undone_add: "undo_change (u, ChangeAdd content ow) (redo_change (u, ChangeAdd content ow) m) = m \<Longrightarrow> m u = ow"
  by (drule fun_cong [of _ _ u]) simp

lemma undone_delete: "undo_change (u, ChangeDelete content) (redo_change (u, ChangeDelete content) m) = m \<Longrightarrow> m u = Some content"
  by (drule fun_cong [of _ _ u]) simp

lemma undone_update:
  "undo_change (u, ChangeUpdate mv old ow new) (redo_change (u, ChangeUpdate mv old ow new) m) = m \<Longrightarrow> m u = Some old"
  by (cases mv; drule fun_cong [of _ _ u]) simp_all

lemma undone_move:
  "undo_change (u, ChangeUpdate (Some dest) old ow new) (redo_change (u, ChangeUpdate (Some dest) old ow new) m) = m \<Longrightarrow>
   dest \<noteq> u \<Longrightarrow> m dest = ow"
  by (drule fun_cong [of _ _ dest]) simp

lemma net_change:
  assumes net: "net_ok t m0 m" and valid: "undo_change x (redo_change x (m env)) = m env"
  shows "net_ok (apply_change env x t) m0 (m(env := redo_change x (m env)))"
  unfolding net_ok_def
proof (intro allI)
  fix e p
  have at: "net_at (baseline_content t (e, p)) (current_content t (e, p)) (m0 e p) (m e p)"
    using net by (simp add: net_ok_def)
  obtain u c where x: "x = (u, c)"
    by (cases x)
  show "net_at (baseline_content (apply_change env x t) (e, p)) (current_content (apply_change env x t) (e, p))
      (m0 e p) ((m(env := redo_change x (m env))) e p)"
  proof (cases c)
    case (ChangeAdd content ow)
    then show ?thesis
      using at undone_add [OF valid [unfolded x ChangeAdd]]
      by (cases "e = env \<and> p = u") (auto simp: x net_at_def tracker_contents note_baseline_def split: if_splits)
  next
    case (ChangeDelete content)
    then show ?thesis
      using at undone_delete [OF valid [unfolded x ChangeDelete]]
      by (cases "e = env \<and> p = u") (auto simp: x net_at_def tracker_contents note_baseline_def split: if_splits)
  next
    case (ChangeUpdate mv old ow new)
    note old = undone_update [OF valid [unfolded x ChangeUpdate]]
    show ?thesis
    proof (cases mv)
      case None
      then show ?thesis
        using at old by (cases "e = env \<and> p = u") (auto simp: x ChangeUpdate net_at_def tracker_contents note_baseline_def split: if_splits)
    next
      case (Some dest)
      note dest = undone_move [OF valid [unfolded x ChangeUpdate Some]]
      show ?thesis
        using at old dest
        by (cases "e = env \<and> p = dest"; cases "e = env \<and> p = u"; cases "dest = u")
          (auto simp: x ChangeUpdate Some net_at_def tracker_contents note_baseline_def split: if_splits)
    qed
  qed
qed

lemma net_changes:
  "net_ok t m0 m \<Longrightarrow> recorded (m env) cs m' \<Longrightarrow> net_ok (fold (apply_change env) cs t) m0 (m(env := m'))"
proof (induction cs arbitrary: t m)
  case (Cons x cs)
  let ?m = "m(env := redo_change x (m env))"
  have "net_ok (fold (apply_change env) cs (apply_change env x t)) m0 (?m(env := m'))"
    using net_change [OF Cons.prems(1), of x env] Cons.prems(2)
      Cons.IH [of "apply_change env x t" ?m] by (simp del: fun_upd_apply) (simp only: fun_upd_same)
  then show ?case
    by (simp only: fold_simps comp_apply fun_upd_upd)
qed (simp del: fun_upd_apply)

section \<open>The cache\<close>

text \<open>The pairs of paths that the diff compares, in order, and the diff without a cache.\<close>

fun diff_pairs :: "('k \<times> 'k) list \<Rightarrow> 'k list \<Rightarrow> 'k list \<Rightarrow> ('k \<times> 'k) list" where
  "diff_pairs pairs [] handled = []"
| "diff_pairs pairs (path # paths) handled =
     (if path \<in> set handled then diff_pairs pairs paths handled
      else if path \<in> snd ` set pairs then diff_pairs pairs paths (path # handled)
      else case map_of pairs path of
          Some dest \<Rightarrow> (path, dest) # diff_pairs pairs paths (dest # path # handled)
        | None \<Rightarrow> (path, path) # diff_pairs pairs paths (path # handled))"

definition render_pair :: "'u url_lib \<Rightarrow> diff_lib \<Rightarrow> 'u turn_diff_tracker \<Rightarrow> 'u tracked_path \<times> 'u tracked_path \<Rightarrow> string option" where
  "render_pair L D t p = render_diff L D t (fst p) (baseline_content t (fst p)) (snd p) (current_content t (snd p))"

definition compared_pairs :: "'u url_lib \<Rightarrow> 'u turn_diff_tracker \<Rightarrow> ('u tracked_path \<times> 'u tracked_path) list" where
  "compared_pairs L t = diff_pairs (rename_pairs t) (tracked_paths L t) []"

definition net_diff :: "'u url_lib \<Rightarrow> diff_lib \<Rightarrow> 'u turn_diff_tracker \<Rightarrow> string option" where
  "net_diff L D t =
     (let aggregated = fold (\<lambda>p. append_diff (render_pair L D t p)) (compared_pairs L t) []
      in if aggregated \<noteq> [] then Some aggregated else None)"

text \<open>A key that matches the present revisions of its paths.\<close>

definition key_of :: "'u turn_diff_tracker \<Rightarrow> 'u tracked_path \<times> 'u tracked_path \<Rightarrow> 'u diff_cache_key" where
  "key_of t p =
     \<lparr>key_left_path = fst p, key_left_revision = map_option tc_revision (map_of (trk_baseline t) (fst p)),
      key_right_path = snd p, key_right_revision = map_option tc_revision (map_of (trk_current t) (snd p))\<rparr>"

definition hits_ok ::
  "'u url_lib \<Rightarrow> diff_lib \<Rightarrow> 'u turn_diff_tracker \<Rightarrow> ('u diff_cache_key \<times> string option) list \<Rightarrow> bool" where
  "hits_ok L D t previous \<longleftrightarrow> (\<forall>p r. map_of previous (key_of t p) = Some r \<longrightarrow> r = render_pair L D t p)"

lemma hits_ok_delete: "hits_ok L D t previous \<Longrightarrow> hits_ok L D t (AList.delete key previous)"
  by (auto simp: hits_ok_def delete_conv' split: if_splits)

lemma refresh_paths_eq:
  assumes "hits_ok L D t previous"
  shows "refresh_paths L D t pairs paths handled previous rendered aggregated =
    (fold (\<lambda>p. AList.update (key_of t p) (render_pair L D t p)) (diff_pairs pairs paths handled) rendered,
     fold (\<lambda>p. append_diff (render_pair L D t p)) (diff_pairs pairs paths handled) aggregated)"
  using assms
proof (induction paths arbitrary: handled previous rendered aggregated)
  case (Cons path paths)
  define right where "right = (case map_of pairs path of Some dest \<Rightarrow> dest | None \<Rightarrow> path)"
  have diff: "(case map_of previous (key_of t (path, right)) of Some r \<Rightarrow> r
      | None \<Rightarrow> render_diff L D t path (map_option tc_content (map_of (trk_baseline t) path))
                  right (map_option tc_content (map_of (trk_current t) right))) = render_pair L D t (path, right)"
    using Cons.prems [unfolded hits_ok_def, rule_format, of "(path, right)"]
    by (cases "map_of previous (key_of t (path, right))") (simp_all add: render_pair_def baseline_content_def current_content_def)
  note IH = Cons.IH [OF hits_ok_delete [OF Cons.prems]] Cons.IH [OF Cons.prems]
  show ?case
  proof (cases "map_of pairs path")
    case None
    then have right: "right = path"
      by (simp add: right_def)
    show ?thesis
      using IH None diff [unfolded right key_of_def] by (simp add: key_of_def Let_def)
  next
    case (Some dest)
    then have right: "right = dest"
      by (simp add: right_def)
    show ?thesis
      using IH Some diff [unfolded right key_of_def] by (simp add: key_of_def Let_def)
  qed
qed simp

text \<open>
  The contents that a cached diff was rendered from: present or absent as the revision of the key says,
  and the contents of the table as long as it has that revision.
\<close>

definition side_ok :: "('u tracked_path \<times> tracked_content) list \<Rightarrow> nat \<Rightarrow> 'u tracked_path \<Rightarrow> nat option \<Rightarrow> string option \<Rightarrow> bool" where
  "side_ok entries next path revision content \<longleftrightarrow>
     (revision = None \<longleftrightarrow> content = None) \<and>
     (\<forall>n. revision = Some n \<longrightarrow> n < next) \<and>
     (\<forall>tc. map_of entries path = Some tc \<and> revision = Some (tc_revision tc) \<longrightarrow> content = Some (tc_content tc))"

definition cache_ok :: "'u url_lib \<Rightarrow> diff_lib \<Rightarrow> 'u turn_diff_tracker \<Rightarrow> bool" where
  "cache_ok L D t \<longleftrightarrow>
     (\<forall>key r. map_of (trk_rendered_diffs t) key = Some r \<longrightarrow>
        (\<exists>l c. r = render_diff L D t (key_left_path key) l (key_right_path key) c \<and>
           side_ok (trk_baseline t) (trk_next_revision t) (key_left_path key) (key_left_revision key) l \<and>
           side_ok (trk_current t) (trk_next_revision t) (key_right_path key) (key_right_revision key) c))"

definition revisions_ok :: "'u turn_diff_tracker \<Rightarrow> bool" where
  "revisions_ok t \<longleftrightarrow>
     (\<forall>k tc. map_of (trk_baseline t) k = Some tc \<or> map_of (trk_current t) k = Some tc \<longrightarrow> tc_revision tc < trk_next_revision t)"

lemma revisions_okD:
  assumes "revisions_ok t"
  shows "map_of (trk_baseline t) k = Some tc \<Longrightarrow> tc_revision tc < trk_next_revision t"
    and "map_of (trk_current t) k = Some tc \<Longrightarrow> tc_revision tc < trk_next_revision t"
  using assms unfolding revisions_ok_def by blast+

lemma side_ok_mono:
  assumes "side_ok entries next path revision content" and "next \<le> next'"
    and "\<And>tc. map_of entries' path = Some tc \<Longrightarrow> map_of entries path = Some tc \<or> next \<le> tc_revision tc"
  shows "side_ok entries' next' path revision content"
  using assms by (fastforce simp: side_ok_def)

lemma render_diff_cong:
  assumes "trk_display_roots t' = trk_display_roots t"
  shows "render_diff L D t' = render_diff L D t"
  by (simp add: fun_eq_iff render_diff_def git_display_def display_path_def assms)

text \<open>A step that gives fresh revisions to what it puts into the tables keeps the cache right.\<close>

definition fresh_step :: "'u turn_diff_tracker \<Rightarrow> 'u turn_diff_tracker \<Rightarrow> bool" where
  "fresh_step t t' \<longleftrightarrow>
     trk_display_roots t' = trk_display_roots t \<and> trk_rendered_diffs t' = trk_rendered_diffs t \<and> trk_valid t' = trk_valid t \<and>
     trk_next_revision t \<le> trk_next_revision t' \<and>
     (\<forall>k tc. map_of (trk_baseline t') k = Some tc \<longrightarrow> map_of (trk_baseline t) k = Some tc \<or>
        trk_next_revision t \<le> tc_revision tc \<and> tc_revision tc < trk_next_revision t') \<and>
     (\<forall>k tc. map_of (trk_current t') k = Some tc \<longrightarrow> map_of (trk_current t) k = Some tc \<or>
        trk_next_revision t \<le> tc_revision tc \<and> tc_revision tc < trk_next_revision t')"

lemma fresh_step_sides:
  assumes "fresh_step t t'"
  shows "side_ok (trk_baseline t) (trk_next_revision t) path revision content \<Longrightarrow>
      side_ok (trk_baseline t') (trk_next_revision t') path revision content"
    and "side_ok (trk_current t) (trk_next_revision t) path revision content \<Longrightarrow>
      side_ok (trk_current t') (trk_next_revision t') path revision content"
proof -
  have le: "trk_next_revision t \<le> trk_next_revision t'"
    and tables: "\<And>tc. map_of (trk_baseline t') path = Some tc \<Longrightarrow>
        map_of (trk_baseline t) path = Some tc \<or> trk_next_revision t \<le> tc_revision tc"
      "\<And>tc. map_of (trk_current t') path = Some tc \<Longrightarrow>
        map_of (trk_current t) path = Some tc \<or> trk_next_revision t \<le> tc_revision tc"
    using assms unfolding fresh_step_def by blast+
  show "side_ok (trk_baseline t) (trk_next_revision t) path revision content \<Longrightarrow>
      side_ok (trk_baseline t') (trk_next_revision t') path revision content"
    by (rule side_ok_mono [OF _ le tables(1)])
  show "side_ok (trk_current t) (trk_next_revision t) path revision content \<Longrightarrow>
      side_ok (trk_current t') (trk_next_revision t') path revision content"
    by (rule side_ok_mono [OF _ le tables(2)])
qed

lemma fresh_step_cache:
  assumes "fresh_step t t'" and cache: "cache_ok L D t"
  shows "cache_ok L D t'"
  unfolding cache_ok_def
proof (intro allI impI)
  fix key r
  assume "map_of (trk_rendered_diffs t') key = Some r"
  then have old: "map_of (trk_rendered_diffs t) key = Some r" and same: "render_diff L D t' = render_diff L D t"
    using assms(1) render_diff_cong [of t' t L D] unfolding fresh_step_def by auto
  then obtain l c where r: "r = render_diff L D t (key_left_path key) l (key_right_path key) c"
    "side_ok (trk_baseline t) (trk_next_revision t) (key_left_path key) (key_left_revision key) l"
    "side_ok (trk_current t) (trk_next_revision t) (key_right_path key) (key_right_revision key) c"
    using cache [unfolded cache_ok_def, rule_format, OF old] by blast
  then show "\<exists>l c. r = render_diff L D t' (key_left_path key) l (key_right_path key) c \<and>
      side_ok (trk_baseline t') (trk_next_revision t') (key_left_path key) (key_left_revision key) l \<and>
      side_ok (trk_current t') (trk_next_revision t') (key_right_path key) (key_right_revision key) c"
    using fresh_step_sides [OF assms(1)] by (intro exI [of _ l] exI [of _ c]) (simp add: same)
qed

lemma fresh_step_revisions:
  assumes "fresh_step t t'" and "revisions_ok t"
  shows "revisions_ok t'"
  using assms unfolding revisions_ok_def fresh_step_def by (meson order_less_le_trans)

lemma fresh_step_refl [simp, intro]: "fresh_step t t"
  by (simp add: fresh_step_def)

lemma fresh_step_trans [trans]:
  assumes "fresh_step t t1" and "fresh_step t1 t2"
  shows "fresh_step t t2"
  using assms unfolding fresh_step_def by (smt (verit) order_less_le_trans order_trans)

lemma fresh_step_origin: "fresh_step t (t\<lparr>trk_origin := x\<rparr>)"
  by (simp add: fresh_step_def)

lemma fresh_step_delete: "fresh_step t (t\<lparr>trk_current := AList.delete k (trk_current t)\<rparr>)"
  by (auto simp: fresh_step_def delete_conv' split: if_splits)

lemma fresh_step_insert: "fresh_step t (insert_baseline k c t)" "fresh_step t (insert_current k c t)"
  by (auto simp: fresh_step_def insert_baseline_def insert_current_def track_content_def update_conv' split: if_splits)

lemma fresh_step_note: "fresh_step t (note_overwritten k ow t)"
  by (auto simp: note_overwritten_def fresh_step_insert split: option.splits)

lemmas fresh_steps = fresh_step_origin [THEN [2] fresh_step_trans] fresh_step_delete [THEN [2] fresh_step_trans]
  fresh_step_insert [THEN [2] fresh_step_trans] fresh_step_note [THEN [2] fresh_step_trans]

lemma fresh_step_change: "fresh_step t (apply_change env x t)"
proof (cases "(env, x, t)" rule: apply_change.cases)
  case (1 env' path content ow t')
  then show ?thesis
    by (auto simp: tracker_add_def intro!: fresh_steps)
next
  case (2 env' path content t')
  then show ?thesis
    by (auto simp: tracker_delete_def Let_def intro!: fresh_steps)
next
  case (3 env' path mv old ow new t')
  then show ?thesis
    by (auto simp: tracker_update_def Let_def intro!: fresh_steps split: option.splits)
qed

lemma fresh_step_changes: "fresh_step t (fold (apply_change env) cs t)"
  by (induction cs arbitrary: t) (auto intro: fresh_step_trans fresh_step_change)

lemma side_ok_present:
  assumes "side_ok entries next path (map_option tc_revision (map_of entries path)) content"
  shows "content = map_option tc_content (map_of entries path)"
  using assms by (cases "map_of entries path") (auto simp: side_ok_def)

lemma present_side_ok:
  assumes "\<And>tc. map_of entries path = Some tc \<Longrightarrow> tc_revision tc < next"
  shows "side_ok entries next path (map_option tc_revision (map_of entries path)) (map_option tc_content (map_of entries path))"
  using assms by (cases "map_of entries path") (auto simp: side_ok_def)

lemma cache_hits:
  assumes "cache_ok L D t"
  shows "hits_ok L D t (trk_rendered_diffs t)"
  unfolding hits_ok_def
proof (intro allI impI)
  fix p r
  assume "map_of (trk_rendered_diffs t) (key_of t p) = Some r"
  then obtain l c where r: "r = render_diff L D t (fst p) l (snd p) c"
    and "side_ok (trk_baseline t) (trk_next_revision t) (fst p) (map_option tc_revision (map_of (trk_baseline t) (fst p))) l"
    and "side_ok (trk_current t) (trk_next_revision t) (snd p) (map_option tc_revision (map_of (trk_current t) (snd p))) c"
    using assms [unfolded cache_ok_def, rule_format, of "key_of t p" r] by (auto simp: key_of_def)
  then show "r = render_pair L D t p"
    by (auto simp: render_pair_def baseline_content_def current_content_def dest!: side_ok_present)
qed

lemma map_of_fold_update:
  "map_of (fold (\<lambda>p. AList.update (f p) (g p)) ps m) key = Some r \<Longrightarrow>
   map_of m key = Some r \<or> (\<exists>p \<in> set ps. key = f p \<and> r = g p)"
proof (induction ps arbitrary: m)
  case (Cons p ps)
  then show ?case
    using Cons.IH [of "AList.update (f p) (g p) m"] by (auto simp: update_conv' split: if_splits)
qed simp

lemma net_diff_cong:
  assumes "trk_display_roots t' = trk_display_roots t" and "trk_baseline t' = trk_baseline t"
    and "trk_current t' = trk_current t" and "trk_origin t' = trk_origin t"
  shows "net_diff L D t' = net_diff L D t"
proof -
  have "render_pair L D t' = render_pair L D t"
    using render_diff_cong [OF assms(1), of L D] assms(2,3)
    by (simp add: fun_eq_iff render_pair_def baseline_content_def current_content_def)
  moreover have "display_path L t' = display_path L t"
    by (simp add: fun_eq_iff display_path_def assms(1))
  then have "compared_pairs L t' = compared_pairs L t"
    by (simp add: compared_pairs_def rename_pairs_def tracked_paths_def assms(2-4))
  ultimately show ?thesis
    by (simp add: net_diff_def)
qed

lemma refresh_fields [simp]:
  "trk_display_roots (refresh_unified_diff L D t) = trk_display_roots t"
  "trk_baseline (refresh_unified_diff L D t) = trk_baseline t"
  "trk_current (refresh_unified_diff L D t) = trk_current t"
  "trk_origin (refresh_unified_diff L D t) = trk_origin t"
  "trk_next_revision (refresh_unified_diff L D t) = trk_next_revision t"
  "trk_valid (refresh_unified_diff L D t) = trk_valid t"
  by (simp_all add: refresh_unified_diff_def split: prod.splits)

lemma refresh_eq:
  assumes "cache_ok L D t"
  shows "trk_unified_diff (refresh_unified_diff L D t) = net_diff L D t"
    and "trk_rendered_diffs (refresh_unified_diff L D t) =
      fold (\<lambda>p. AList.update (key_of t p) (render_pair L D t p)) (compared_pairs L t) []"
  by (simp_all add: refresh_unified_diff_def refresh_paths_eq [OF cache_hits [OF assms]] net_diff_def compared_pairs_def Let_def)

lemma refresh_cache:
  assumes "cache_ok L D t" and "revisions_ok t"
  shows "cache_ok L D (refresh_unified_diff L D t)"
  unfolding cache_ok_def
proof (intro allI impI)
  let ?t = "refresh_unified_diff L D t"
  fix key r
  assume "map_of (trk_rendered_diffs ?t) key = Some r"
  then obtain p where p: "key = key_of t p" "r = render_pair L D t p"
    using map_of_fold_update [of "key_of t" "render_pair L D t"] by (fastforce simp: refresh_eq(2) [OF assms(1)])
  have "render_diff L D ?t = render_diff L D t"
    by (rule render_diff_cong) simp
  then have "r = render_diff L D ?t (key_left_path key) (baseline_content t (fst p)) (key_right_path key) (current_content t (snd p))"
    by (simp add: p key_of_def render_pair_def)
  moreover have "side_ok (trk_baseline ?t) (trk_next_revision ?t) (key_left_path key) (key_left_revision key) (baseline_content t (fst p))"
    and "side_ok (trk_current ?t) (trk_next_revision ?t) (key_right_path key) (key_right_revision key) (current_content t (snd p))"
    using present_side_ok [OF revisions_okD(1) [OF assms(2)]] present_side_ok [OF revisions_okD(2) [OF assms(2)]]
    by (simp_all add: p key_of_def baseline_content_def current_content_def)
  ultimately show "\<exists>l c. r = render_diff L D ?t (key_left_path key) l (key_right_path key) c \<and>
      side_ok (trk_baseline ?t) (trk_next_revision ?t) (key_left_path key) (key_left_revision key) l \<and>
      side_ok (trk_current ?t) (trk_next_revision ?t) (key_right_path key) (key_right_revision key) c"
    by blast
qed

section \<open>The tracker of a turn\<close>

text \<open>The trackers of a turn: it starts empty, takes the deltas of patches, and may be invalidated.\<close>

inductive tracker_reachable :: "'u url_lib \<Rightarrow> diff_lib \<Rightarrow> 'u turn_diff_tracker \<Rightarrow> bool" for L D where
  start: "tracker_reachable L D (with_environment_display_roots roots)"
| delta: "tracker_reachable L D t \<Longrightarrow> tracker_reachable L D (track_delta L D env d t)"
| invalid: "tracker_reachable L D t \<Longrightarrow> tracker_reachable L D (invalidate t)"

definition tracker_ok :: "'u url_lib \<Rightarrow> diff_lib \<Rightarrow> 'u turn_diff_tracker \<Rightarrow> bool" where
  "tracker_ok L D t \<longleftrightarrow>
     trk_unified_diff t = (if trk_valid t then net_diff L D t else None) \<and> cache_ok L D t \<and> revisions_ok t"

lemma tracker_ok_start: "tracker_ok L D (with_environment_display_roots roots)"
  by (simp add: tracker_ok_def with_environment_display_roots_def new_tracker_def cache_ok_def revisions_ok_def
      net_diff_def compared_pairs_def tracked_paths_def)

lemma tracker_ok_delta:
  assumes "tracker_ok L D t"
  shows "tracker_ok L D (track_delta L D env d t)"
proof (cases "trk_valid t \<and> delta_exact d")
  case True
  let ?t = "fold (apply_change env) (delta_changes d) t"
  have "cache_ok L D ?t" "revisions_ok ?t"
    using assms by (simp_all add: tracker_ok_def fresh_step_cache [OF fresh_step_changes] fresh_step_revisions [OF fresh_step_changes])
  moreover have "net_diff L D (refresh_unified_diff L D ?t) = net_diff L D ?t"
    by (rule net_diff_cong) simp_all
  moreover have "trk_valid ?t"
    using True fresh_step_changes [of t env "delta_changes d"] by (simp add: fresh_step_def)
  ultimately show ?thesis
    using True by (simp add: tracker_ok_def track_delta_def refresh_eq(1) refresh_cache) (simp add: revisions_ok_def)
next
  case False
  then show ?thesis
    using assms by (auto simp: tracker_ok_def track_delta_def invalidate_def cache_ok_def revisions_ok_def)
qed

lemma reachable_tracker_ok: "tracker_reachable L D t \<Longrightarrow> tracker_ok L D t"
proof (induction rule: tracker_reachable.induct)
  case (invalid t)
  then show ?case
    by (auto simp: tracker_ok_def invalidate_def cache_ok_def revisions_ok_def)
qed (simp_all add: tracker_ok_start tracker_ok_delta)

text \<open>
  C10: The cache of rendered diffs does not show. After any sequence of deltas, the diff that a valid tracker
  reports is the one computed from its tables without the cache: a diff that was rendered for other
  contents of a path is never used again. An invalidated tracker reports nothing.
\<close>

theorem cached_diff_is_fresh:
  assumes "tracker_reachable L D t"
  shows "get_unified_diff t = (if trk_valid t then net_diff L D t else None)"
  using reachable_tracker_ok [OF assms] by (simp add: get_unified_diff_def tracker_ok_def)

text \<open>
  A turn in which files change only through patches: each environment has its file system and its state,
  a patch is applied in one of them, whatever comes of it, and the tracker gets the delta. No update
  moves a file to its own path.
\<close>

inductive patch_turn ::
  "'u url_lib \<Rightarrow> diff_lib \<Rightarrow> (string \<Rightarrow> ('u, 's) executor_fs) \<Rightarrow> 'u turn_diff_tracker \<Rightarrow> (string \<Rightarrow> 's) \<Rightarrow> (string \<Rightarrow> 's) \<Rightarrow> bool"
  for L D fs where
  start: "patch_turn L D fs (with_environment_display_roots roots) \<sigma> \<sigma>"
| patch: "patch_turn L D fs t \<sigma>0 \<sigma> \<Longrightarrow> list_all (moves_elsewhere L cwd) hunks \<Longrightarrow>
    apply_hunks_to_files L (fs env) cwd hunks empty_delta (\<sigma> env) = (r, d, s') \<Longrightarrow>
    patch_turn L D fs (track_delta L D env d t) \<sigma>0 (\<sigma>(env := s'))"

lemma patch_turn_reachable: "patch_turn L D fs t \<sigma>0 \<sigma> \<Longrightarrow> tracker_reachable L D t"
  by (induction rule: patch_turn.induct) (auto intro: tracker_reachable.intros)

lemma net_ok_start: "net_ok (with_environment_display_roots roots) m m"
  by (simp add: net_ok_def net_at_def baseline_content_def current_content_def with_environment_display_roots_def new_tracker_def)

lemma net_ok_refresh: "net_ok (refresh_unified_diff L D t) = net_ok t"
  by (simp add: fun_eq_iff net_ok_def baseline_content_def current_content_def)

lemma patch_turn_net:
  assumes "patch_turn L D fs t \<sigma>0 \<sigma>" and laws: "\<And>env. fs_laws (fs env) files"
  shows "trk_valid t \<Longrightarrow> net_ok t (\<lambda>env. files (\<sigma>0 env)) (\<lambda>env. files (\<sigma> env))"
  using assms(1)
proof (induction rule: patch_turn.induct)
  case (start roots \<sigma>)
  show ?case
    by (rule net_ok_start)
next
  case (patch t \<sigma>0 \<sigma> cwd hunks env r d s')
  show ?case
  proof (cases "trk_valid t \<and> delta_exact d")
    case True
    have "recorded (files (\<sigma> env)) (delta_changes d) (files s')"
      using exact_delta_recorded [OF laws patch.hyps(2,3)] True by simp
    then have "net_ok (fold (apply_change env) (delta_changes d) t) (\<lambda>env. files (\<sigma>0 env)) ((\<lambda>env. files (\<sigma> env))(env := files s'))"
      using patch.IH True by (intro net_changes) auto
    moreover have "(\<lambda>e. files ((\<sigma>(env := s')) e)) = (\<lambda>env. files (\<sigma> env))(env := files s')"
      by auto
    ultimately show ?thesis
      using True by (simp add: track_delta_def net_ok_refresh del: fun_upd_apply)
  next
    case False
    then show ?thesis
      using patch.prems by (auto simp: track_delta_def invalidate_def split: if_splits)
  qed
qed

section \<open>What the diff compares\<close>

lemma set_fold_update: "set (fold (\<lambda>(k, v). AList.update k v) ps m) \<subseteq> set ps \<union> set m"
proof (induction ps arbitrary: m)
  case (Cons p ps)
  have "set (AList.update k v m) \<subseteq> insert (k, v) (set m)" for k v
    by (induction m) auto
  then show ?case
    using Cons [of "AList.update (fst p) (snd p) m"] by (cases p) fastforce
qed simp

lemma distinct_fold_update: "distinct (map fst m) \<Longrightarrow> distinct (map fst (fold (\<lambda>(k, v). AList.update k v) ps m))"
  by (induction ps arbitrary: m) (auto intro: distinct_update)

lemma rename_pairs_cases:
  assumes "(source, dest) \<in> set (rename_pairs t)"
  shows "current_content t source = None" and "baseline_content t source \<noteq> None"
    and "current_content t dest \<noteq> None" and "baseline_content t dest = None"
  using assms set_fold_update [THEN subsetD, OF assms [unfolded rename_pairs_def]]
  by (auto simp: in_set_filter_map contains_key_def baseline_content_def current_content_def split: if_splits)

lemma rename_pairs_map_of: "(source, dest) \<in> set (rename_pairs t) \<Longrightarrow> map_of (rename_pairs t) source = Some dest"
  by (rule map_of_is_SomeI) (simp_all add: rename_pairs_def distinct_fold_update)

lemma diff_pairs_covers:
  "p \<in> set paths \<Longrightarrow> p \<notin> set handled \<Longrightarrow> p \<notin> snd ` set pairs \<Longrightarrow>
   (p, case map_of pairs p of Some dest \<Rightarrow> dest | None \<Rightarrow> p) \<in> set (diff_pairs pairs paths handled)"
proof (induction paths arbitrary: handled)
  case (Cons path paths)
  have dest: "dest \<in> snd ` set pairs" if "map_of pairs path = Some dest" for dest
    using map_of_SomeD [OF that] by force
  show ?case
  proof (cases "path = p")
    case True
    then show ?thesis
      using Cons.prems by (auto split: option.splits)
  next
    case False
    then have "p \<in> set paths" "\<And>dest. map_of pairs path = Some dest \<Longrightarrow> p \<noteq> dest"
      using Cons.prems dest by auto
    then show ?thesis
      using Cons.IH Cons.prems(2,3) False by (cases "map_of pairs path") simp_all
  qed
qed simp

lemma diff_pairs_cases:
  "(l, r) \<in> set (diff_pairs pairs paths handled) \<Longrightarrow> l \<in> set paths \<and> (r = l \<or> map_of pairs l = Some r)"
  by (induction pairs paths handled rule: diff_pairs.induct) (auto split: if_splits option.splits)

lemma set_tracked_paths:
  "k \<in> set (tracked_paths L t) \<longleftrightarrow> baseline_content t k \<noteq> None \<or> current_content t k \<noteq> None"
proof -
  have "k \<in> fst ` set m \<longleftrightarrow> map_of m k \<noteq> None" for m :: "('a tracked_path \<times> tracked_content) list"
    using map_of_eq_None_iff [of m k] by auto
  then show ?thesis
    by (simp add: tracked_paths_def baseline_content_def current_content_def)
qed

lemma tracked_is_compared:
  assumes "baseline_content t k \<noteq> None \<or> current_content t k \<noteq> None"
  shows "\<exists>(l, r) \<in> set (compared_pairs L t). k = l \<or> k = r"
proof (cases "k \<in> snd ` set (rename_pairs t)")
  case True
  then obtain source where source: "(source, k) \<in> set (rename_pairs t)"
    by auto
  have "source \<notin> snd ` set (rename_pairs t)"
    using rename_pairs_cases [OF source] rename_pairs_cases(3) by fastforce
  moreover have "source \<in> set (tracked_paths L t)"
    using rename_pairs_cases(2) [OF source] set_tracked_paths by blast
  ultimately have "(source, k) \<in> set (compared_pairs L t)"
    using diff_pairs_covers [of source "tracked_paths L t" "[]" "rename_pairs t"] rename_pairs_map_of [OF source]
    by (simp add: compared_pairs_def)
  then show ?thesis
    by blast
next
  case False
  then show ?thesis
    using diff_pairs_covers [of k "tracked_paths L t" "[]" "rename_pairs t"] assms set_tracked_paths [of k L t]
    unfolding compared_pairs_def by fastforce
qed

lemma compared_pairs_tracked:
  assumes "(l, r) \<in> set (compared_pairs L t)"
  shows "baseline_content t l \<noteq> None \<or> current_content t l \<noteq> None"
    and "baseline_content t r \<noteq> None \<or> current_content t r \<noteq> None"
    and "l \<noteq> r \<Longrightarrow> (l, r) \<in> set (rename_pairs t)"
proof -
  note cases = diff_pairs_cases [OF assms [unfolded compared_pairs_def]]
  show l: "baseline_content t l \<noteq> None \<or> current_content t l \<noteq> None"
    using cases set_tracked_paths by blast
  show "(l, r) \<in> set (rename_pairs t)" if "l \<noteq> r"
    using cases that map_of_SomeD by metis
  then show "baseline_content t r \<noteq> None \<or> current_content t r \<noteq> None"
    using l rename_pairs_cases(3) [of l r t] by (cases "l = r") auto
qed

lemma append_diff_Nil: "append_diff r a = [] \<longleftrightarrow> r = None \<and> a = []"
  by (auto simp: append_diff_def Let_def split: option.splits)

lemma fold_append_Nil: "fold (\<lambda>p. append_diff (f p)) ps a = [] \<longleftrightarrow> a = [] \<and> (\<forall>p \<in> set ps. f p = None)"
  by (induction ps arbitrary: a) (auto simp: append_diff_Nil)

lemma render_diff_None: "render_diff L D t l lc r rc = None \<longleftrightarrow> lc = rc"
  by (auto simp: render_diff_def Let_def split: option.splits)

text \<open>The contents of a tracked path in the states of the environments.\<close>

definition file_at :: "('s \<Rightarrow> 'u files) \<Rightarrow> (string \<Rightarrow> 's) \<Rightarrow> 'u tracked_path \<Rightarrow> string option" where
  "file_at files \<sigma> k = files (\<sigma> (fst k)) (snd k)"

lemma net_ok_at:
  assumes "net_ok t (\<lambda>env. files (\<sigma>0 env)) (\<lambda>env. files (\<sigma> env))"
  shows "net_at (baseline_content t k) (current_content t k) (file_at files \<sigma>0 k) (file_at files \<sigma> k)"
  using assms by (cases k) (simp add: net_ok_def file_at_def)

lemma patch_turn_compared:
  assumes "patch_turn L D fs t \<sigma>0 \<sigma>" and "\<And>env. fs_laws (fs env) files" and "trk_valid t"
  shows "(l, r) \<in> set (compared_pairs L t) \<Longrightarrow> baseline_content t l = file_at files \<sigma>0 l"
    and "(l, r) \<in> set (compared_pairs L t) \<Longrightarrow> current_content t r = file_at files \<sigma> r"
    and "file_at files \<sigma>0 k \<noteq> file_at files \<sigma> k \<Longrightarrow> \<exists>(l, r) \<in> set (compared_pairs L t). k = l \<or> k = r"
proof -
  note net = net_ok_at [OF patch_turn_net [OF assms]]
  show "(l, r) \<in> set (compared_pairs L t) \<Longrightarrow> baseline_content t l = file_at files \<sigma>0 l"
    using net [of l] compared_pairs_tracked(1) [of l r L t] by (auto simp: net_at_def split: if_splits)
  show "(l, r) \<in> set (compared_pairs L t) \<Longrightarrow> current_content t r = file_at files \<sigma> r"
    using net [of r] compared_pairs_tracked(2) [of l r L t] by (auto simp: net_at_def split: if_splits)
  show "\<exists>(l, r) \<in> set (compared_pairs L t). k = l \<or> k = r" if "file_at files \<sigma>0 k \<noteq> file_at files \<sigma> k"
  proof (rule tracked_is_compared)
    show "baseline_content t k \<noteq> None \<or> current_content t k \<noteq> None"
      using net [of k] that by (auto simp: net_at_def split: if_splits)
  qed
qed


text \<open>
  When a valid tracker reports no diff, no contents were added, lost or changed by the patches of the
  turn: a file that differs was moved as it is, to a path that had no file before or from a path that
  has no file now.
\<close>

theorem silent_turn_only_moves:
  assumes "patch_turn L D fs t \<sigma>0 \<sigma>" and "\<And>env. fs_laws (fs env) files" and "trk_valid t"
    and "get_unified_diff t = None" and "file_at files \<sigma>0 k \<noteq> file_at files \<sigma> k"
  shows "\<exists>source dest content. (k = source \<or> k = dest) \<and>
    file_at files \<sigma>0 source = Some content \<and> file_at files \<sigma> source = None \<and>
    file_at files \<sigma>0 dest = None \<and> file_at files \<sigma> dest = Some content"
proof -
  note net = net_ok_at [OF patch_turn_net [OF assms(1-3)]]
  obtain l r where lr: "(l, r) \<in> set (compared_pairs L t)" "k = l \<or> k = r"
    using patch_turn_compared(3) [OF assms(1-3,5)] by blast
  have "net_diff L D t = None"
    using reachable_tracker_ok [OF patch_turn_reachable [OF assms(1)]] assms(3,4)
    by (simp add: tracker_ok_def get_unified_diff_def)
  then have "render_pair L D t (l, r) = None"
    using lr(1) by (auto simp: net_diff_def Let_def fold_append_Nil split: if_splits)
  then have same: "file_at files \<sigma>0 l = file_at files \<sigma> r"
    using patch_turn_compared(1,2) [OF assms(1-3) lr(1)] by (simp add: render_pair_def render_diff_None)
  then have "l \<noteq> r"
    using lr(2) assms(5) by auto
  note pair = rename_pairs_cases [OF compared_pairs_tracked(3) [OF lr(1) this]]
  then show ?thesis
    using lr(2) same net [of l] net [of r]
    by (intro exI [of _ l] exI [of _ r] exI [of _ "the (file_at files \<sigma>0 l)"]) (auto simp: net_at_def)
qed

section \<open>An instance\<close>

definition plain_diff :: diff_lib where
  "plain_diff = \<lparr>sha1_hex = (\<lambda>s. ''oid''), unified_text = (\<lambda>old new l r. old @ new @ l @ r)\<rparr>"

definition sample_turn ::
  "hunk list \<Rightarrow> small_url turn_diff_tracker \<times> (string \<Rightarrow> small_url files)" where
  "sample_turn hunks =
     (let (r, d, s') = apply_hunks_to_files small_lib mem_fs sample_cwd hunks empty_delta sample_files
      in (track_delta small_lib plain_diff [] d (with_environment_display_roots [([], sample_cwd)]), (\<lambda>_. sample_files)([] := s')))"

lemma sample_turn_patches:
  assumes "list_all (moves_elsewhere small_lib sample_cwd) hunks"
  shows "patch_turn small_lib plain_diff (\<lambda>_. mem_fs) (fst (sample_turn hunks)) (\<lambda>_. sample_files) (snd (sample_turn hunks))"
proof -
  obtain r d s' where run: "apply_hunks_to_files small_lib mem_fs sample_cwd hunks empty_delta sample_files = (r, d, s')"
    by (cases "apply_hunks_to_files small_lib mem_fs sample_cwd hunks empty_delta sample_files")
  then show ?thesis
    using patch_turn.patch [OF patch_turn.start assms, of "\<lambda>_. mem_fs" "[]" "\<lambda>_. sample_files" r d s' plain_diff "[([], sample_cwd)]"]
    by (simp add: sample_turn_def del: fun_upd_apply)
qed

theorem cached_diff_is_fresh_witness:
  "\<exists>t. tracker_reachable small_lib plain_diff t \<and> get_unified_diff t = net_diff small_lib plain_diff t \<and> net_diff small_lib plain_diff t \<noteq> None"
proof -
  have facts: "list_all (moves_elsewhere small_lib sample_cwd) sample_hunk_list \<and> trk_valid (fst (sample_turn sample_hunk_list)) \<and>
      net_diff small_lib plain_diff (fst (sample_turn sample_hunk_list)) \<noteq> None"
    by code_simp
  then have reach: "tracker_reachable small_lib plain_diff (fst (sample_turn sample_hunk_list))"
    using patch_turn_reachable sample_turn_patches by blast
  then show ?thesis
    using cached_diff_is_fresh [OF reach] facts by (intro exI [of _ "fst (sample_turn sample_hunk_list)"]) simp
qed


definition rename_only :: "hunk list" where
  "rename_only = [UpdateFile ''a'' (Some ''c'')
     [\<lparr>change_context = None, old_lines = [''x''], new_lines = [''x''], is_end_of_file = False\<rparr>]]"

theorem silent_turn_only_moves_witness:
  "get_unified_diff (fst (sample_turn rename_only)) = None \<and>
   (\<exists>source dest content. (([], None, ''w/a'') = source \<or> ([], None, ''w/a'') = dest) \<and>
      file_at (\<lambda>m. m) (\<lambda>_. sample_files) source = Some content \<and> file_at (\<lambda>m. m) (snd (sample_turn rename_only)) source = None \<and>
      file_at (\<lambda>m. m) (\<lambda>_. sample_files) dest = None \<and> file_at (\<lambda>m. m) (snd (sample_turn rename_only)) dest = Some content)"
proof -
  let ?t = "fst (sample_turn rename_only)" and ?k = "([], None, ''w/a'') :: small_url tracked_path"
  have facts: "list_all (moves_elsewhere small_lib sample_cwd) rename_only \<and> trk_valid ?t \<and> get_unified_diff ?t = None \<and>
      file_at (\<lambda>m. m) (\<lambda>_. sample_files) ?k \<noteq> file_at (\<lambda>m. m) (snd (sample_turn rename_only)) ?k"
    by code_simp
  then show ?thesis
    using silent_turn_only_moves [OF sample_turn_patches mem_fs_laws, of rename_only ?k] by blast
qed

end
