(* ===== verification/Stream_Text.thy ===== *)
theory Stream_Text
  imports Path_Render
begin

text \<open>
  Incremental parsers of streamed text (\<^verbatim>\<open>utils/stream-parser/src/stream_text.rs\<close>) and the adapter that
  feeds them from raw bytes (\<^verbatim>\<open>utf8_stream.rs\<close>). The trait \<^verbatim>\<open>StreamTextParser\<close> is the locale
  \<open>stream_parser\<close>: its laws say that a parser cannot tell how the text was cut into chunks. The
  adapter is a client of the locale.
\<close>

section \<open>Definitions\<close>

subsection \<open>Chunks\<close>

record 'x text_chunk =
  visible_text :: string
  extracted :: "'x list"

definition default_chunk :: "'x text_chunk" where
  "default_chunk = \<lparr>visible_text = [], extracted = []\<rparr>"

definition chunk_is_empty :: "'x text_chunk \<Rightarrow> bool" where
  "chunk_is_empty c \<longleftrightarrow> visible_text c = [] \<and> extracted c = []"

text \<open>The output of a later call, added to the output of the calls before.\<close>

definition append_chunk :: "'x text_chunk \<Rightarrow> 'x text_chunk \<Rightarrow> 'x text_chunk" where
  "append_chunk out tail =
     \<lparr>visible_text = visible_text out @ visible_text tail, extracted = extracted out @ extracted tail\<rparr>"

text \<open>\<^verbatim>\<open>push_str\<close>: the output and the parser afterwards; \<^const>\<open>None\<close> when the call does not return.\<close>

type_synonym ('s, 'x) push_str = "'s \<Rightarrow> string \<Rightarrow> ('x text_chunk \<times> 's) option"

text \<open>A stream of chunks, one call for each of them.\<close>

fun feed :: "('s, 'x) push_str \<Rightarrow> 's \<Rightarrow> string list \<Rightarrow> ('x text_chunk \<times> 's) option" where
  "feed push s [] = Some (default_chunk, s)"
| "feed push s (chunk # chunks) =
     (case push s chunk of
        None \<Rightarrow> None
      | Some (out, s') \<Rightarrow> map_option (\<lambda>(rest, t). (append_chunk out rest, t)) (feed push s' chunks))"

subsection \<open>Code points\<close>

text \<open>
  The standard library reads UTF-8 code point by code point: the next one is complete, is wrong within
  so many bytes, or goes on behind the end.
\<close>

datatype code_point_read = CodePoint nat | Malformed nat | Truncated

fun read_code_point :: "string \<Rightarrow> code_point_read" where
  "read_code_point [] = Truncated"
| "read_code_point (a # s) =
     (if byte_of a < 128 then CodePoint 1
      else if byte_of a < 194 \<or> 244 < byte_of a then Malformed 1
      else case s of
          [] \<Rightarrow> Truncated
        | b # s' \<Rightarrow>
            if byte_of a < 224 then (if continuation b then CodePoint 2 else Malformed 1)
            else if \<not> second_byte_ok a b then Malformed 1
            else (case s' of
                [] \<Rightarrow> Truncated
              | c # s'' \<Rightarrow>
                  if \<not> continuation c then Malformed 2
                  else if byte_of a < 240 then CodePoint 3
                  else (case s'' of
                      [] \<Rightarrow> Truncated
                    | d # _ \<Rightarrow> if continuation d then CodePoint 4 else Malformed 3)))"

lemma read_code_point_width: "read_code_point s = CodePoint w \<Longrightarrow> 0 < w \<and> w \<le> length s"
  by (cases s) (auto split: if_splits list.splits)

text \<open>\<^verbatim>\<open>str::from_utf8\<close>: where an error is, and its length unless the text only ends too early.\<close>

type_synonym utf8_error = "nat \<times> nat option"

function from_utf8_at :: "nat \<Rightarrow> string \<Rightarrow> (utf8_error, unit) result" where
  "from_utf8_at n s =
     (if s = [] then Ok ()
      else case read_code_point s of
          CodePoint w \<Rightarrow> from_utf8_at (n + w) (drop w s)
        | Malformed k \<Rightarrow> Err (n, Some k)
        | Truncated \<Rightarrow> Err (n, None))"
  by pat_completeness auto
termination
  by (relation "measure (\<lambda>(n, s). length s)") (auto dest: read_code_point_width)

declare from_utf8_at.simps [simp del]

definition from_utf8 :: "string \<Rightarrow> (utf8_error, unit) result" where
  "from_utf8 s = from_utf8_at 0 s"

text \<open>\<^verbatim>\<open>str::chars\<close>: the code points of a text, each by its bytes.\<close>

definition char_width :: "string \<Rightarrow> nat" where
  "char_width s = (case read_code_point s of CodePoint w \<Rightarrow> w | _ \<Rightarrow> 1)"

function utf8_chars :: "string \<Rightarrow> string list" where
  "utf8_chars s = (if s = [] then [] else take (char_width s) s # utf8_chars (drop (char_width s) s))"
  by pat_completeness auto
termination
  by (relation "measure length")
    (auto simp: char_width_def dest: read_code_point_width split: code_point_read.splits)

declare utf8_chars.simps [simp del]

subsection \<open>Byte streams\<close>

datatype utf8_stream_error = InvalidUtf8 nat nat | IncompleteUtf8AtEof

record 's utf8_stream =
  us_inner :: 's
  us_pending :: string

definition new_utf8_stream :: "'s \<Rightarrow> 's utf8_stream" where
  "new_utf8_stream inner = \<lparr>us_inner = inner, us_pending = []\<rparr>"

definition push_bytes ::
  "('s, 'x) push_str \<Rightarrow> 's utf8_stream \<Rightarrow> string \<Rightarrow>
   ((utf8_stream_error, 'x text_chunk) result \<times> 's utf8_stream) option" where
  "push_bytes push p chunk =
     (let old_len = length (us_pending p); buf = us_pending p @ chunk
      in case from_utf8 buf of
           Inr _ \<Rightarrow>
             map_option (\<lambda>(out, s). (Ok out, \<lparr>us_inner = s, us_pending = []\<rparr>)) (push (us_inner p) buf)
         | Inl (valid_up_to, Some error_len) \<Rightarrow>
             Some (Err (InvalidUtf8 valid_up_to error_len), p\<lparr>us_pending := take old_len buf\<rparr>)
         | Inl (valid_up_to, None) \<Rightarrow>
             if valid_up_to = 0 then Some (Ok default_chunk, p\<lparr>us_pending := buf\<rparr>)
             else (case from_utf8 (take valid_up_to buf) of
                 Inl (prefix_up_to, prefix_len) \<Rightarrow>
                   Some (Err (InvalidUtf8 prefix_up_to (case prefix_len of Some n \<Rightarrow> n | None \<Rightarrow> 0)),
                     p\<lparr>us_pending := take old_len buf\<rparr>)
               | Inr _ \<Rightarrow>
                   map_option (\<lambda>(out, s). (Ok out, \<lparr>us_inner = s, us_pending = drop valid_up_to buf\<rparr>))
                     (push (us_inner p) (take valid_up_to buf))))"

text \<open>The error for bytes that are left over, in \<^verbatim>\<open>finish\<close> and in \<^verbatim>\<open>into_inner\<close>.\<close>

fun leftover_error :: "utf8_error \<Rightarrow> utf8_stream_error" where
  "leftover_error (valid_up_to, Some error_len) = InvalidUtf8 valid_up_to error_len"
| "leftover_error (valid_up_to, None) = IncompleteUtf8AtEof"

definition finish_bytes ::
  "('s, 'x) push_str \<Rightarrow> ('s \<Rightarrow> 'x text_chunk \<times> 's) \<Rightarrow> 's utf8_stream \<Rightarrow>
   ((utf8_stream_error, 'x text_chunk) result \<times> 's utf8_stream) option" where
  "finish_bytes push finish p =
     (if us_pending p = [] then
        (let (tail, s) = finish (us_inner p) in Some (Ok (append_chunk default_chunk tail), p\<lparr>us_inner := s\<rparr>))
      else case from_utf8 (us_pending p) of
          Inl e \<Rightarrow> Some (Err (leftover_error e), p)
        | Inr _ \<Rightarrow>
            map_option (\<lambda>(out, s). let (tail, s') = finish s
              in (Ok (append_chunk out tail), \<lparr>us_inner = s', us_pending = []\<rparr>))
              (push (us_inner p) (us_pending p)))"

definition into_inner :: "'s utf8_stream \<Rightarrow> (utf8_stream_error, 's) result" where
  "into_inner p =
     (if us_pending p = [] then Ok (us_inner p)
      else case from_utf8 (us_pending p) of Inr _ \<Rightarrow> Ok (us_inner p) | Inl e \<Rightarrow> Err (leftover_error e))"

definition into_inner_lossy :: "'s utf8_stream \<Rightarrow> 's" where
  "into_inner_lossy p = us_inner p"

text \<open>A stream of byte chunks, up to the first one that is refused.\<close>

fun feed_bytes ::
  "('s, 'x) push_str \<Rightarrow> 's utf8_stream \<Rightarrow> string list \<Rightarrow>
   ((utf8_stream_error, 'x text_chunk) result \<times> 's utf8_stream) option" where
  "feed_bytes push p [] = Some (Ok default_chunk, p)"
| "feed_bytes push p (chunk # chunks) =
     (case push_bytes push p chunk of
        None \<Rightarrow> None
      | Some (Inl e, p') \<Rightarrow> Some (Inl e, p')
      | Some (Inr out, p') \<Rightarrow>
          map_option (\<lambda>(r, q). (map_sum id (append_chunk out) r, q)) (feed_bytes push p' chunks))"

section \<open>Code points\<close>

lemma append_chunk_sel [simp]:
  "visible_text (append_chunk a b) = visible_text a @ visible_text b"
  "extracted (append_chunk a b) = extracted a @ extracted b"
  "visible_text default_chunk = []" "extracted default_chunk = []"
  by (simp_all add: append_chunk_def default_chunk_def)

lemma append_chunk_default [simp]: "append_chunk default_chunk a = a" "append_chunk a default_chunk = a"
  by (simp_all add: append_chunk_def default_chunk_def)

lemma read_code_point_append:
  "read_code_point p = CodePoint w \<Longrightarrow> read_code_point (p @ q) = CodePoint w"
  "read_code_point p = Malformed k \<Longrightarrow> read_code_point (p @ q) = Malformed k"
  by (cases p; auto split: if_splits list.splits)+

lemma read_code_point_cut:
  "read_code_point (p @ q) = CodePoint w \<Longrightarrow>
     read_code_point p = (if w \<le> length p then CodePoint w else Truncated)"
  by (cases p) (auto simp: Suc_le_eq dest: read_code_point_width split: if_splits list.splits)

lemma valid_utf8_read:
  "s \<noteq> [] \<Longrightarrow> valid_utf8 s \<longleftrightarrow> (\<exists>w. read_code_point s = CodePoint w \<and> valid_utf8 (drop w s))"
  by (cases s rule: valid_utf8.cases)
    (auto simp: second_byte_ok_def not_less split: if_splits list.splits)


lemma utf8_induct [consumes 1, case_names Nil code_point]:
  assumes "valid_utf8 s" and "P []"
    and "\<And>c s. read_code_point (c @ s) = CodePoint (length c) \<Longrightarrow> c \<noteq> [] \<Longrightarrow> valid_utf8 s \<Longrightarrow> P s \<Longrightarrow> P (c @ s)"
  shows "P s"
  using assms(1)
proof (induction s rule: length_induct)
  case (1 s)
  show ?case
  proof (cases "s = []")
    case False
    then obtain w where w: "read_code_point s = CodePoint w" "valid_utf8 (drop w s)"
      using 1(2) valid_utf8_read by blast
    have "0 < w" "w \<le> length s"
      using read_code_point_width [OF w(1)] by auto
    moreover from this have "P (drop w s)"
      using 1(1) w(2) by simp
    ultimately show ?thesis
      using assms(3) [of "take w s" "drop w s"] w False by auto
  qed (simp add: assms(2))
qed

lemma valid_utf8_append: "valid_utf8 p \<Longrightarrow> valid_utf8 (p @ q) \<longleftrightarrow> valid_utf8 q"
proof (induction p rule: utf8_induct)
  case (code_point c s)
  have "read_code_point (c @ s @ q) = CodePoint (length c)"
    using read_code_point_append(1) [OF code_point(1), of q] by simp
  then show ?case
    using code_point by (simp add: valid_utf8_read [of "c @ _"])
qed simp

lemma valid_utf8_concat: "list_all valid_utf8 chunks \<Longrightarrow> valid_utf8 (concat chunks)"
  by (induction chunks) (auto simp: valid_utf8_append)

lemma from_utf8_at_Ok: "from_utf8_at n s = Ok u \<longleftrightarrow> valid_utf8 s"
proof (induction n s rule: from_utf8_at.induct)
  case (1 n s)
  show ?case
  proof (cases "s = []")
    case False
    then show ?thesis
      using 1 by (cases "read_code_point s") (simp_all add: from_utf8_at.simps [of n s] valid_utf8_read)
  qed (simp add: from_utf8_at.simps)
qed

lemma from_utf8_at_Err:
  "from_utf8_at n s = Err (m, e) \<Longrightarrow>
     \<exists>u v. s = u @ v \<and> m = n + length u \<and> valid_utf8 u \<and> v \<noteq> [] \<and>
       read_code_point v = (case e of None \<Rightarrow> Truncated | Some k \<Rightarrow> Malformed k)"
proof (induction n s rule: from_utf8_at.induct)
  case (1 n s)
  have s: "s \<noteq> []"
    using 1(2) by (auto simp: from_utf8_at.simps)
  show ?case
  proof (cases "read_code_point s")
    case (CodePoint w)
    then have "from_utf8_at (n + w) (drop w s) = Err (m, e)"
      using 1(2) s by (simp add: from_utf8_at.simps [of n s])
    then obtain u v where uv: "drop w s = u @ v" "m = n + w + length u" "valid_utf8 u" "v \<noteq> []"
      "read_code_point v = (case e of None \<Rightarrow> Truncated | Some k \<Rightarrow> Malformed k)"
      using 1(1) [OF s CodePoint] by blast
    have w: "0 < w" "w \<le> length s"
      using read_code_point_width [OF CodePoint] by auto
    have eq: "s = (take w s @ u) @ v"
      using uv(1) append_take_drop_id [of w s] by simp
    have "read_code_point (take w s @ u) = CodePoint w"
      using read_code_point_cut [of "take w s @ u" v w] CodePoint w eq by simp
    then have "valid_utf8 (take w s @ u)"
      using uv(3) w s by (simp add: valid_utf8_read)
    then show ?thesis
      using eq uv w by (intro exI [of _ "take w s @ u"] exI [of _ v]) auto
  next
    case (Malformed k)
    then show ?thesis
      using 1(2) s by (intro exI [of _ "[]"] exI [of _ s]) (auto simp: from_utf8_at.simps)
  next
    case Truncated
    then show ?thesis
      using 1(2) s by (intro exI [of _ "[]"] exI [of _ s]) (auto simp: from_utf8_at.simps)
  qed
qed

lemmas from_utf8_Ok = from_utf8_at_Ok [of 0, folded from_utf8_def]

lemma from_utf8_ErrE:
  assumes "from_utf8 s = Err (m, e)"
  obtains u v where "s = u @ v" and "m = length u" and "valid_utf8 u" and "v \<noteq> []"
    and "read_code_point v = (case e of None \<Rightarrow> Truncated | Some k \<Rightarrow> Malformed k)"
  using from_utf8_at_Err [OF assms [unfolded from_utf8_def]] by auto

text \<open>A code point that is cut off can be completed.\<close>

lemma truncated_completes:
  assumes "read_code_point v = Truncated"
  shows "\<exists>q. valid_utf8 (v @ q)"
proof (cases v)
  case (Cons a s)
  let ?second = "if byte_of a = 224 then CHR 0xA0 else if byte_of a = 240 then CHR 0x90 else CHR 0x80"
  let ?more = "CHR 0x80"
  have second: "second_byte_ok a ?second" "continuation ?second" "continuation ?more"
    by (auto simp: second_byte_ok_def continuation_def byte_of_def)
  have "\<exists>q. read_code_point (v @ q) = CodePoint (length (v @ q))"
  proof -
    consider "s = []" | b where "s = [b]" | b c where "s = [b, c]"
      using assms Cons by (auto split: if_splits list.splits)
    then show ?thesis
    proof cases
      case 1
      then show ?thesis
        using assms second Cons
        by (intro exI [of _ "?second # (if byte_of a < 224 then [] else if byte_of a < 240 then [?more] else [?more, ?more])"])
          (simp split: if_splits)
    next
      case 2
      then show ?thesis
        using assms second Cons
        by (intro exI [of _ "if byte_of a < 240 then [?more] else [?more, ?more]"]) (simp split: if_splits)
    next
      case 3
      then show ?thesis
        using assms second Cons by (intro exI [of _ "[?more]"]) (simp split: if_splits)
    qed
  qed
  then obtain q where "read_code_point (v @ q) = CodePoint (length (v @ q))"
    by blast
  then show ?thesis
    using Cons by (intro exI [of _ q]) (simp add: valid_utf8_read del: read_code_point.simps)
qed (auto intro: exI [of _ "[]"])

text \<open>The check calls a text malformed exactly when nothing that may follow makes it valid.\<close>

lemma from_utf8_extensible: "(\<exists>q. valid_utf8 (p @ q)) \<longleftrightarrow> \<not> (\<exists>m k. from_utf8 p = Err (m, Some k))"
proof (cases "from_utf8 p")
  case (Inl x)
  then obtain m e where err: "from_utf8 p = Err (m, e)"
    by (cases x) auto
  then obtain u v where uv: "p = u @ v" "valid_utf8 u" "v \<noteq> []"
    "read_code_point v = (case e of None \<Rightarrow> Truncated | Some k \<Rightarrow> Malformed k)"
    by (rule from_utf8_ErrE)
  show ?thesis
  proof (cases e)
    case None
    then show ?thesis
      using err truncated_completes [of v] uv by (auto simp: valid_utf8_append)
  next
    case (Some k)
    then have "\<not> valid_utf8 (v @ q)" for q
      using read_code_point_append(2) [of v k q] uv(3,4) by (simp add: valid_utf8_read)
    then show ?thesis
      using err Some uv by (auto simp: valid_utf8_append)
  qed
next
  case (Inr x)
  then have "valid_utf8 (p @ [])"
    by (simp add: from_utf8_Ok)
  then have "\<exists>q. valid_utf8 (p @ q)" ..
  then show ?thesis
    using Inr by simp
qed

lemma from_utf8_part:
  assumes "valid_utf8 (p @ q)"
  obtains "from_utf8 p = Ok ()" and "valid_utf8 p"
  | u v where "from_utf8 p = Err (length u, None)" and "p = u @ v" and "valid_utf8 u" and "read_code_point v = Truncated" and "v \<noteq> []"
proof (cases "from_utf8 p")
  case (Inl x)
  then obtain m where err: "from_utf8 p = Err (m, None)"
    using assms from_utf8_extensible [of p] by (cases x; cases "snd x") auto
  then show ?thesis
    by (rule from_utf8_ErrE) (use err that(2) in auto)
next
  case (Inr x)
  then show ?thesis
    using that(1) by (simp add: from_utf8_Ok)
qed

lemma concat_utf8_chars [simp]: "concat (utf8_chars s) = s"
  by (induction s rule: utf8_chars.induct) (subst utf8_chars.simps, simp)

lemma utf8_chars_Nil [simp]: "utf8_chars [] = []"
  by (simp add: utf8_chars.simps)

lemma utf8_chars_code_point:
  "read_code_point (c @ s) = CodePoint (length c) \<Longrightarrow> c \<noteq> [] \<Longrightarrow> utf8_chars (c @ s) = c # utf8_chars s"
  by (simp add: utf8_chars.simps [of "c @ s"] char_width_def)

lemma utf8_chars_append: "valid_utf8 p \<Longrightarrow> utf8_chars (p @ q) = utf8_chars p @ utf8_chars q"
proof (induction p rule: utf8_induct)
  case (code_point c s)
  then show ?case
    using read_code_point_append(1) [OF code_point(1), of q] by (simp add: utf8_chars_code_point)
qed simp

section \<open>Parsers that do not see the cuts\<close>

definition same_output :: "('x list \<Rightarrow> 'x list) \<Rightarrow> 'x text_chunk \<Rightarrow> 'x text_chunk \<Rightarrow> bool" where
  "same_output norm c d \<longleftrightarrow> visible_text c = visible_text d \<and> norm (extracted c) = norm (extracted d)"

text \<open>
  What a \<^verbatim>\<open>StreamTextParser\<close> promises on the states \<open>ok\<close>: a call returns, a call without text does
  nothing, and two calls do what one call with the whole text does. The parts that are extracted are
  compared up to \<open>norm\<close>, because a parser may hand out one stretch of text in several pieces.
\<close>

locale stream_parser =
  fixes push :: "('s, 'x) push_str"
    and ok :: "'s \<Rightarrow> bool"
    and norm :: "'x list \<Rightarrow> 'x list"
  assumes push_total: "ok s \<Longrightarrow> valid_utf8 a \<Longrightarrow> \<exists>c s'. push s a = Some (c, s') \<and> ok s'"
    and push_nothing: "ok s \<Longrightarrow> push s [] = Some (default_chunk, s)"
    and push_append: "ok s \<Longrightarrow> valid_utf8 a \<Longrightarrow> valid_utf8 b \<Longrightarrow> push s a = Some (c1, s1) \<Longrightarrow> push s1 b = Some (c2, s2) \<Longrightarrow>
      \<exists>c. push s (a @ b) = Some (c, s2) \<and> visible_text c = visible_text c1 @ visible_text c2 \<and>
        norm (extracted c) = norm (extracted c1 @ extracted c2)"
    and norm_left: "norm (norm xs @ ys) = norm (xs @ ys)"
    and norm_right: "norm (xs @ norm ys) = norm (xs @ ys)"
begin

lemma norm_cong: "norm xs = norm xs' \<Longrightarrow> norm ys = norm ys' \<Longrightarrow> norm (xs @ ys) = norm (xs' @ ys')"
  by (metis norm_left norm_right)

lemma same_output_append: "same_output norm a b \<Longrightarrow> same_output norm c d \<Longrightarrow> same_output norm (append_chunk a c) (append_chunk b d)"
  unfolding same_output_def by (auto intro: norm_cong)

lemma push_two:
  assumes "ok s" and "valid_utf8 a" and "valid_utf8 b" and "push s a = Some (c1, s1)" and "push s1 b = Some (c2, s2)"
  obtains c where "push s (a @ b) = Some (c, s2)" and "same_output norm (append_chunk c1 c2) c"
  using push_append [OF assms] by (auto simp: same_output_def)

lemma feed_concat:
  assumes "ok s" and "list_all valid_utf8 chunks"
  shows "\<exists>c d s'. feed push s chunks = Some (c, s') \<and> push s (concat chunks) = Some (d, s') \<and> same_output norm c d \<and> ok s'"
  using assms
proof (induction chunks arbitrary: s)
  case Nil
  then show ?case
    by (simp add: push_nothing same_output_def)
next
  case (Cons a chunks)
  obtain c1 s1 where p: "push s a = Some (c1, s1)" "ok s1"
    using push_total [of s a] Cons.prems by auto
  obtain c d s' where r: "feed push s1 chunks = Some (c, s')" "push s1 (concat chunks) = Some (d, s')" "same_output norm c d" "ok s'"
    using Cons.IH [OF p(2)] Cons.prems by auto
  obtain e where "push s (a @ concat chunks) = Some (e, s')" "same_output norm (append_chunk c1 d) e"
    using push_two [OF _ _ valid_utf8_concat p(1) r(2)] Cons.prems by auto
  moreover have "same_output norm (append_chunk c1 c) (append_chunk c1 d)"
    using r(3) by (intro same_output_append) (simp_all add: same_output_def)
  ultimately show ?case
    using p r by (auto simp: same_output_def)
qed

text \<open>
  The adapter for bytes: a stream that is valid UTF-8 as a whole, cut anywhere, is taken like the text
  that it encodes.
\<close>

lemma feed_bytes_concat:
  assumes "ok s" and "valid_utf8 (r @ concat chunks)" and "r = [] \<or> read_code_point r = Truncated"
  shows "\<exists>c d s'. feed_bytes push \<lparr>us_inner = s, us_pending = r\<rparr> chunks = Some (Ok c, new_utf8_stream s') \<and>
    push s (r @ concat chunks) = Some (d, s') \<and> same_output norm c d \<and> ok s'"
  using assms
proof (induction chunks arbitrary: s r)
  case Nil
  then have "r = []"
    using valid_utf8_read [of r] by (cases "r = []") auto
  then show ?case
    using Nil by (simp add: push_nothing same_output_def new_utf8_stream_def)
next
  case (Cons a chunks)
  have valid: "valid_utf8 ((r @ a) @ concat chunks)"
    using Cons.prems(2) by simp
  have step: "\<exists>c d s'. feed_bytes push \<lparr>us_inner = s, us_pending = r\<rparr> (a # chunks) = Some (Ok c, new_utf8_stream s') \<and>
      push s (r @ a @ concat chunks) = Some (d, s') \<and> same_output norm c d \<and> ok s'"
    if "push s u = Some (c1, s1)" and "ok s1" and "valid_utf8 u" and "r @ a = u @ v" and "v = [] \<or> read_code_point v = Truncated"
      and bytes: "push_bytes push \<lparr>us_inner = s, us_pending = r\<rparr> a = Some (Ok c1, \<lparr>us_inner = s1, us_pending = v\<rparr>)"
    for u v c1 s1
  proof -
    note prems = that
    have rest: "valid_utf8 (v @ concat chunks)"
      using valid prems(3,4) by (simp add: valid_utf8_append)
    obtain c d s' where r: "feed_bytes push \<lparr>us_inner = s1, us_pending = v\<rparr> chunks = Some (Ok c, new_utf8_stream s')"
      "push s1 (v @ concat chunks) = Some (d, s')" "same_output norm c d" "ok s'"
      using Cons.IH [OF prems(2) rest prems(5)] by blast
    obtain e where e: "push s (u @ v @ concat chunks) = Some (e, s')" "same_output norm (append_chunk c1 d) e"
      using push_two [OF Cons.prems(1) prems(3) rest prems(1) r(2)] .
    have "same_output norm (append_chunk c1 c) (append_chunk c1 d)"
      using r(3) by (intro same_output_append) (simp_all add: same_output_def)
    then have "same_output norm (append_chunk c1 c) e"
      using e(2) by (simp add: same_output_def)
    moreover have "push s (r @ a @ concat chunks) = Some (e, s')"
      using e(1) arg_cong [OF prems(4), of "\<lambda>x. push s (x @ concat chunks)"] by simp
    moreover have "feed_bytes push \<lparr>us_inner = s, us_pending = r\<rparr> (a # chunks) = Some (Ok (append_chunk c1 c), new_utf8_stream s')"
      using r(1) bytes by simp
    ultimately show ?thesis
      using r(4) by blast
  qed
  show ?case
    using valid
  proof (cases rule: from_utf8_part)
    case 1
    obtain c1 s1 where "push s (r @ a) = Some (c1, s1)" "ok s1"
      using push_total [OF Cons.prems(1) 1(2)] by blast
    then show ?thesis
      using step [of "r @ a" c1 s1 "[]"] 1 by (simp add: push_bytes_def)
  next
    case (2 u v)
    show ?thesis
    proof (cases "u = []")
      case True
      then show ?thesis
        using step [of "[]" default_chunk s v] 2 Cons.prems(1) by (simp add: push_bytes_def push_nothing)
    next
      case False
      obtain c1 s1 where "push s u = Some (c1, s1)" "ok s1"
        using push_total [OF Cons.prems(1) 2(3)] by blast
      moreover have "from_utf8 u = Ok ()"
        using 2(3) by (simp add: from_utf8_Ok)
      ultimately show ?thesis
        using step [of u c1 s1 v] 2 False by (simp add: push_bytes_def)
    qed
  qed
qed

lemma push_bytes_refused:
  assumes "ok (us_inner p)"
  shows "\<exists>r p'. push_bytes push p chunk = Some (r, p') \<and>
    (is_ok r \<longleftrightarrow> (\<exists>q. valid_utf8 (us_pending p @ chunk @ q))) \<and> (\<not> is_ok r \<longrightarrow> p' = p)"
proof (cases "\<exists>q. valid_utf8 (us_pending p @ chunk @ q)")
  case True
  then obtain q where q: "valid_utf8 ((us_pending p @ chunk) @ q)"
    by auto
  then show ?thesis
  proof (cases rule: from_utf8_part)
    case 1
    then show ?thesis
      using push_total [OF assms 1(2)] True by (auto simp: push_bytes_def)
  next
    case (2 u v)
    moreover have "from_utf8 u = Ok ()"
      using 2(3) by (simp add: from_utf8_Ok)
    ultimately show ?thesis
      using push_total [OF assms 2(3)] True by (auto simp: push_bytes_def Let_def)
  qed
next
  case False
  then obtain m k where "from_utf8 (us_pending p @ chunk) = Err (m, Some k)"
    using from_utf8_extensible [of "us_pending p @ chunk"] by auto
  then show ?thesis
    using False by (simp add: push_bytes_def)
qed

end

end
