(* ===== verification/Stream_Inline.thy ===== *)
theory Stream_Inline
  imports Stream_Text
begin

text \<open>
  Hidden inline tags in streamed text (\<^verbatim>\<open>utils/stream-parser/src/inline_hidden_tag.rs\<close>) and the citation
  tags of the assistant (\<^verbatim>\<open>citation.rs\<close>). The text outside the tags is shown as soon as it cannot be the
  beginning of a tag any more, the text inside is collected. Slices of the source are cut before an
  ASCII byte of a delimiter or at the end of the text, so that they never cut a code point.
\<close>

section \<open>Definitions\<close>

subsection \<open>Standard library\<close>

text \<open>\<^verbatim>\<open>str::find\<close> with a text, \<^verbatim>\<open>str::is_char_boundary\<close> and \<^verbatim>\<open>Iterator::min_by\<close>.\<close>

fun str_find :: "string \<Rightarrow> string \<Rightarrow> nat option" where
  "str_find [] pat = (if pat = [] then Some 0 else None)"
| "str_find (c # s) pat = (if prefix pat (c # s) then Some 0 else map_option Suc (str_find s pat))"

definition is_char_boundary :: "string \<Rightarrow> nat \<Rightarrow> bool" where
  "is_char_boundary s k \<longleftrightarrow> k = 0 \<or> k = length s \<or> k < length s \<and> \<not> continuation (s ! k)"

fun min_by :: "('a \<Rightarrow> 'a \<Rightarrow> bool) \<Rightarrow> 'a list \<Rightarrow> 'a option" where
  "min_by lt [] = None"
| "min_by lt (x # xs) = Some (fold (\<lambda>y best. if lt y best then y else best) xs x)"

subsection \<open>The parser\<close>

record 't extracted_inline_tag =
  xt_tag :: 't
  xt_content :: string

record 't inline_tag_spec =
  spec_tag :: 't
  spec_open :: string
  spec_close :: string

record 't active_tag =
  at_tag :: 't
  at_close :: string
  at_content :: string

record 't inline_parser =
  ip_specs :: "'t inline_tag_spec list"
  ip_pending :: string
  ip_active :: "'t active_tag option"

text \<open>The constructor panics without tags and with an empty delimiter.\<close>

definition new_inline_parser :: "'t inline_tag_spec list \<Rightarrow> 't inline_parser option" where
  "new_inline_parser specs =
     (if specs = [] then None
      else if list_ex (\<lambda>spec. spec_open spec = [] \<or> spec_close spec = []) specs then None
      else Some \<lparr>ip_specs = specs, ip_pending = [], ip_active = None\<rparr>)"

fun opens_before :: "nat \<times> nat \<times> nat \<Rightarrow> nat \<times> nat \<times> nat \<Rightarrow> bool" where
  "opens_before (pos_a, len_a, idx_a) (pos_b, len_b, idx_b) \<longleftrightarrow>
     pos_a < pos_b \<or> pos_a = pos_b \<and> (len_b < len_a \<or> len_b = len_a \<and> idx_a < idx_b)"

definition find_next_open :: "'t inline_parser \<Rightarrow> (nat \<times> nat) option" where
  "find_next_open p =
     map_option (\<lambda>(pos, len, idx). (pos, idx))
       (min_by opens_before
         (filter_map (\<lambda>(idx, spec). map_option (\<lambda>pos. (pos, length (spec_open spec), idx)) (str_find (ip_pending p) (spec_open spec)))
           (enumerate 0 (ip_specs p))))"

definition longest_suffix_prefix_len :: "string \<Rightarrow> string \<Rightarrow> nat" where
  "longest_suffix_prefix_len s needle =
     (case find (\<lambda>k. is_char_boundary needle k \<and> ends_with s (take k needle))
        (rev [1..<Suc (min (length s) (length needle - 1))]) of
        Some k \<Rightarrow> k
      | None \<Rightarrow> 0)"

definition max_open_prefix_suffix_len :: "'t inline_parser \<Rightarrow> nat" where
  "max_open_prefix_suffix_len p =
     fold max (map (\<lambda>spec. longest_suffix_prefix_len (ip_pending p) (spec_open spec)) (ip_specs p)) 0"

definition push_visible_prefix :: "string \<Rightarrow> 'x text_chunk \<Rightarrow> 'x text_chunk" where
  "push_visible_prefix s out = out\<lparr>visible_text := visible_text out @ s\<rparr>"

text \<open>One round of the loop of \<^verbatim>\<open>push_str\<close>: whether it continues, the parser and the output.\<close>

definition inline_iter ::
  "'t inline_parser \<Rightarrow> 't extracted_inline_tag text_chunk \<Rightarrow> bool \<times> 't inline_parser \<times> 't extracted_inline_tag text_chunk" where
  "inline_iter p out =
     (let pending = ip_pending p
      in case ip_active p of
           Some active \<Rightarrow>
             (case str_find pending (at_close active) of
                Some close_idx \<Rightarrow>
                  (True,
                   p\<lparr>ip_pending := drop (close_idx + length (at_close active)) pending, ip_active := None\<rparr>,
                   out\<lparr>extracted := extracted out @
                     [\<lparr>xt_tag = at_tag active, xt_content = at_content active @ take close_idx pending\<rparr>]\<rparr>)
              | None \<Rightarrow>
                  let taken = length pending - longest_suffix_prefix_len pending (at_close active)
                  in (False,
                      p\<lparr>ip_pending := drop taken pending,
                        ip_active := Some (active\<lparr>at_content := at_content active @ take taken pending\<rparr>)\<rparr>,
                      out))
         | None \<Rightarrow>
             (case find_next_open p of
                Some (open_idx, spec_idx) \<Rightarrow>
                  let spec = ip_specs p ! spec_idx
                  in (True,
                      p\<lparr>ip_pending := drop (open_idx + length (spec_open spec)) pending,
                        ip_active := Some \<lparr>at_tag = spec_tag spec, at_close = spec_close spec, at_content = []\<rparr>\<rparr>,
                      push_visible_prefix (take open_idx pending) out)
              | None \<Rightarrow>
                  let taken = length pending - max_open_prefix_suffix_len p
                  in (False, p\<lparr>ip_pending := drop taken pending\<rparr>, push_visible_prefix (take taken pending) out)))"

partial_function (option) inline_loop ::
  "'t inline_parser \<Rightarrow> 't extracted_inline_tag text_chunk \<Rightarrow> ('t extracted_inline_tag text_chunk \<times> 't inline_parser) option" where
  "inline_loop p out =
     (let (continue, p', out') = inline_iter p out
      in if continue then inline_loop p' out' else Some (out', p'))"

declare inline_loop.simps [code]

definition push_inline :: "('t inline_parser, 't extracted_inline_tag) push_str" where
  "push_inline p chunk = inline_loop (p\<lparr>ip_pending := ip_pending p @ chunk\<rparr>) default_chunk"

definition finish_inline :: "'t inline_parser \<Rightarrow> 't extracted_inline_tag text_chunk \<times> 't inline_parser" where
  "finish_inline p =
     (case ip_active p of
        Some active \<Rightarrow>
          (default_chunk\<lparr>extracted := [\<lparr>xt_tag = at_tag active, xt_content = at_content active @ ip_pending p\<rparr>]\<rparr>,
           p\<lparr>ip_pending := [], ip_active := None\<rparr>)
      | None \<Rightarrow> (default_chunk\<lparr>visible_text := ip_pending p\<rparr>, p\<lparr>ip_pending := []\<rparr>))"

subsection \<open>Citations\<close>

datatype citation_tag = Citation

definition CITATION_OPEN :: string where
  "CITATION_OPEN = ''<oai-mem-citation>''"

definition CITATION_CLOSE :: string where
  "CITATION_CLOSE = ''</oai-mem-citation>''"

definition citation_specs :: "citation_tag inline_tag_spec list" where
  "citation_specs = [\<lparr>spec_tag = Citation, spec_open = CITATION_OPEN, spec_close = CITATION_CLOSE\<rparr>]"

definition new_citation_parser :: "citation_tag inline_parser option" where
  "new_citation_parser = new_inline_parser citation_specs"

definition citation_bodies :: "citation_tag extracted_inline_tag text_chunk \<Rightarrow> string text_chunk" where
  "citation_bodies inner = \<lparr>visible_text = visible_text inner, extracted = map xt_content (extracted inner)\<rparr>"

definition push_citation :: "(citation_tag inline_parser, string) push_str" where
  "push_citation p chunk = map_option (\<lambda>(inner, p'). (citation_bodies inner, p')) (push_inline p chunk)"

definition finish_citation :: "citation_tag inline_parser \<Rightarrow> string text_chunk \<times> citation_tag inline_parser" where
  "finish_citation p = (let (inner, p') = finish_inline p in (citation_bodies inner, p'))"

definition strip_citations :: "string \<Rightarrow> (string \<times> string list) option" where
  "strip_citations s =
     Option.bind new_citation_parser (\<lambda>p.
     Option.bind (push_citation p s) (\<lambda>(out, p').
       let tail = fst (finish_citation p')
       in Some (visible_text out @ visible_text tail, extracted out @ extracted tail)))"

section \<open>Where a delimiter may begin\<close>

text \<open>
  A text that clashes with a delimiter cannot become an occurrence of it by going on. The first place
  where the text does not clash is where the source finds a delimiter or begins to hold text back.
\<close>

definition clash :: "string \<Rightarrow> string \<Rightarrow> bool" where
  "clash s pat \<longleftrightarrow> \<not> prefix s pat \<and> \<not> prefix pat s"

fun scan :: "string list \<Rightarrow> string \<Rightarrow> nat" where
  "scan pats [] = 0"
| "scan pats (c # s) = (if list_all (clash (c # s)) pats then Suc (scan pats s) else 0)"

lemma clash_append: "clash s pat \<Longrightarrow> clash (s @ t) pat"
  unfolding clash_def by (metis append_prefixD prefix_append prefix_same_cases prefixI)

lemma scan_le: "scan pats s \<le> length s"
  by (induction s) auto

lemma scan_before: "j < scan pats s \<Longrightarrow> pat \<in> set pats \<Longrightarrow> clash (drop j s) pat"
proof (induction s arbitrary: j)
  case (Cons c s)
  then show ?case
    by (cases j) (auto simp: list_all_iff split: if_splits)
qed simp

lemma scan_at: "scan pats s < length s \<Longrightarrow> \<exists>pat \<in> set pats. \<not> clash (drop (scan pats s) s) pat"
  by (induction s) (auto simp: list_all_iff)

lemma scan_eqI:
  assumes "\<And>i pat. i < j \<Longrightarrow> pat \<in> set pats \<Longrightarrow> clash (drop i s) pat" and "j \<le> length s"
    and "j < length s \<Longrightarrow> \<exists>pat \<in> set pats. \<not> clash (drop j s) pat"
  shows "scan pats s = j"
proof (rule antisym)
  show "scan pats s \<le> j"
  proof (rule ccontr)
    assume "\<not> scan pats s \<le> j"
    then have "j < scan pats s" by simp
    then show False
      using scan_before [of j pats s] assms(3) scan_le [of pats s] by auto
  qed
  show "j \<le> scan pats s"
  proof (rule ccontr)
    assume "\<not> j \<le> scan pats s"
    then have "scan pats s < j" by simp
    then show False
      using scan_at [of pats s] assms(1,2) by auto
  qed
qed

lemma scan_append:
  assumes "j = scan pats s" and "\<not> (\<exists>pat \<in> set pats. prefix pat (drop j s))"
  shows "scan pats (s @ t) = j + scan pats (drop j s @ t)"
proof (rule scan_eqI)
  let ?r = "drop j s @ t"
  have j: "j \<le> length s" and split: "drop (j + i) (s @ t) = drop i ?r" for i
    using scan_le [of pats s] assms(1) by (auto simp: add.commute)
  show "j + scan pats ?r \<le> length (s @ t)"
    using scan_le [of pats ?r] j by simp
  show "clash (drop i (s @ t)) pat" if "i < j + scan pats ?r" "pat \<in> set pats" for i pat
  proof (cases "i < j")
    case True
    then show ?thesis
      using clash_append [OF scan_before [of i pats s pat]] that assms(1) j by simp
  next
    case False
    then show ?thesis
      using scan_before [of "i - j" pats ?r pat] split [of "i - j"] that by simp
  qed
  show "\<exists>pat \<in> set pats. \<not> clash (drop (j + scan pats ?r) (s @ t)) pat" if "j + scan pats ?r < length (s @ t)"
    using scan_at [of pats ?r] split that j by simp
qed

lemma scan_append_hit:
  assumes "j = scan pats s" and "pat \<in> set pats" and "prefix pat (drop j s)"
  shows "scan pats (s @ t) = j"
proof (rule scan_eqI)
  have j: "j \<le> length s"
    using scan_le [of pats s] assms(1) by simp
  then show "j \<le> length (s @ t)"
    by simp
  show "clash (drop i (s @ t)) pat" if "i < j" "pat \<in> set pats" for i pat
    using clash_append [OF scan_before [of i pats s pat]] that assms(1) j by simp
  show "\<exists>pat \<in> set pats. \<not> clash (drop j (s @ t)) pat"
    using assms(2,3) j by (auto simp: clash_def intro!: bexI [of _ pat])
qed

section \<open>The searches of the source by the first place\<close>

lemma str_find_short: "length s < length pat \<Longrightarrow> str_find s pat = None"
  by (induction s) (auto dest: prefix_length_le)

lemma str_find_scan: "str_find s pat = (if prefix pat (drop (scan [pat] s) s) then Some (scan [pat] s) else None)"
proof (induction s)
  case (Cons c s)
  show ?case
  proof (cases "clash (c # s) pat")
    case True
    then have "\<not> prefix pat (c # s)"
      by (simp add: clash_def)
    then show ?thesis
      using True Cons.IH by simp
  next
    case False
    show ?thesis
    proof (cases "prefix pat (c # s)")
      case False
      then have "prefix (c # s) pat"
        using \<open>\<not> clash (c # s) pat\<close> by (simp add: clash_def)
      then have "length s < length pat"
        using prefix_length_le by fastforce
      then show ?thesis
        using False \<open>\<not> clash (c # s) pat\<close> str_find_short by simp
    qed (use False in simp)
  qed
qed simp

lemma find_rev_upt:
  "find P (rev [1..<Suc m]) = Some k \<longleftrightarrow> 0 < k \<and> k \<le> m \<and> P k \<and> (\<forall>i. k < i \<and> i \<le> m \<longrightarrow> \<not> P i)"
proof (induction m)
  case (Suc m)
  have "[1..<Suc (Suc m)] = [1..<Suc m] @ [Suc m]"
    by simp
  then show ?case
    using Suc by (auto simp: le_Suc_eq simp del: upt_Suc)
qed auto

lemma find_rev_upt_None: "find P (rev [1..<Suc m]) = None \<longleftrightarrow> (\<forall>i. 0 < i \<and> i \<le> m \<longrightarrow> \<not> P i)"
  by (auto simp: find_None_iff less_Suc_eq_le Suc_le_eq simp del: upt_Suc)

text \<open>The delimiters are in ASCII, so that each of their positions is a boundary.\<close>

definition ascii :: "string \<Rightarrow> bool" where
  "ascii s \<longleftrightarrow> list_all (\<lambda>c. byte_of c < 128) s"

lemma ascii_boundary: "ascii s \<Longrightarrow> k \<le> length s \<Longrightarrow> is_char_boundary s k"
  by (cases "k = length s") (auto simp: ascii_def is_char_boundary_def continuation_def list_all_length dest: spec [of _ k])

lemma suffix_take_iff:
  assumes "k \<le> length s" and "k \<le> length needle"
  shows "ends_with s (take k needle) \<longleftrightarrow> prefix (drop (length s - k) s) needle"
proof -
  have "suffix (take k needle) s \<longleftrightarrow> drop (length s - k) s = take k needle"
    using assms suffix_drop [of "length s - k" s] by (auto simp: suffix_def)
  moreover have "prefix (drop (length s - k) s) needle \<longleftrightarrow> drop (length s - k) s = take k needle"
    using assms take_is_prefix [of k needle] by (auto simp: prefix_def append_eq_conv_conj)
  ultimately show ?thesis
    by (simp add: ends_with_iff)
qed

lemma longest_suffix_prefix_scan:
  assumes "ascii needle" and "needle \<noteq> []" and "\<not> prefix needle (drop (scan [needle] s) s)"
  shows "longest_suffix_prefix_len s needle = length s - scan [needle] s"
proof -
  let ?j = "scan [needle] s" and ?P = "\<lambda>k. is_char_boundary needle k \<and> ends_with s (take k needle)"
  let ?m = "min (length s) (length needle - 1)"
  have j: "?j \<le> length s"
    by (rule scan_le)
  have P: "?P k \<longleftrightarrow> prefix (drop (length s - k) s) needle" if "k \<le> ?m" for k
  proof -
    have "k \<le> length s" "k \<le> length needle"
      using that by linarith+
    then show ?thesis
      using suffix_take_iff [of k s needle] ascii_boundary [OF assms(1), of k] by simp
  qed
  have before: "\<not> ?P k" if "k \<le> ?m" "length s - ?j < k" for k
  proof -
    have "length s - k < ?j"
      using that j by linarith
    then show ?thesis
      using P [OF that(1)] scan_before [of "length s - k" "[needle]" s needle] by (simp add: clash_def)
  qed
  show ?thesis
  proof (cases "?j < length s")
    case True
    then have at: "prefix (drop ?j s) needle"
      using scan_at [of "[needle]" s] assms(3) by (simp add: clash_def)
    then have "drop ?j s \<noteq> needle"
      using assms(3) by auto
    then have "length s - ?j < length needle"
      using at prefix_length_less [of "drop ?j s" needle] by (simp add: strict_prefix_def)
    then have "length s - ?j \<le> ?m"
      by simp
    then have "find ?P (rev [1..<Suc ?m]) = Some (length s - ?j)"
      unfolding find_rev_upt using P [of "length s - ?j"] at before True by (auto simp: less_imp_le)
    then show ?thesis
      by (simp add: longest_suffix_prefix_len_def)
  next
    case False
    then have "find ?P (rev [1..<Suc ?m]) = None"
      unfolding find_rev_upt_None using before by auto
    then show ?thesis
      using False by (simp add: longest_suffix_prefix_len_def)
  qed
qed

text \<open>
  Several tags: no opening delimiter occurs inside another one. Otherwise a parser that sees a part of
  the text may take the inner one.
\<close>

definition delimiter_ok :: "string \<Rightarrow> bool" where
  "delimiter_ok s \<longleftrightarrow> s \<noteq> [] \<and> ascii s"

definition specs_ok :: "'t inline_tag_spec list \<Rightarrow> bool" where
  "specs_ok specs \<longleftrightarrow>
     (\<forall>spec \<in> set specs. delimiter_ok (spec_open spec) \<and> delimiter_ok (spec_close spec)) \<and>
     (\<forall>a \<in> set specs. \<forall>b \<in> set specs. sublist (spec_open a) (spec_open b) \<longrightarrow> spec_open a = spec_open b)"

lemma min_by_mem: "min_by lt xs = Some x \<Longrightarrow> x \<in> set xs"
proof (cases xs)
  case (Cons y ys)
  have "fold (\<lambda>y best. if lt y best then y else best) ys z \<in> insert z (set ys)" for z
    by (induction ys arbitrary: z) auto
  then show "min_by lt xs = Some x \<Longrightarrow> x \<in> set xs"
    using Cons by auto
qed simp

lemma opens_before_trans: "\<not> opens_before y x \<Longrightarrow> \<not> opens_before z y \<Longrightarrow> \<not> opens_before z x"
  by (cases x; cases y; cases z) auto

lemma fold_min_least:
  "\<not> opens_before z (fold (\<lambda>y best. if opens_before y best then y else best) ys b)" if "z = b \<or> z \<in> set ys"
  using that
proof (induction ys arbitrary: b z)
  case Nil
  then show ?case
    by (cases b) auto
next
  case (Cons y ys)
  let ?b = "if opens_before y b then y else b"
  have irrefl: "\<not> opens_before y y"
    by (cases y) auto
  have "\<not> opens_before ?b (fold (\<lambda>y best. if opens_before y best then y else best) ys ?b)"
    by (rule Cons.IH) simp
  moreover have "\<not> opens_before y ?b" "\<not> opens_before b ?b"
    using irrefl by (cases b; cases y; auto)+
  ultimately have "\<not> opens_before z (fold (\<lambda>y best. if opens_before y best then y else best) ys ?b)" if "z = y \<or> z = b"
    using that opens_before_trans by blast
  then show ?case
    using Cons.IH [of z ?b] Cons.prems by (cases "opens_before y b") (simp_all del: opens_before.simps, blast+)
qed

lemma min_by_least:
  assumes "min_by opens_before xs = Some x" and "z \<in> set xs"
  shows "\<not> opens_before z x"
proof (cases xs)
  case (Cons b ys)
  then show ?thesis
    using assms fold_min_least [of z b ys] by (simp del: opens_before.simps)
qed (use assms in simp)

definition open_candidates :: "'t inline_tag_spec list \<Rightarrow> string \<Rightarrow> (nat \<times> nat \<times> nat) list" where
  "open_candidates specs s =
     filter_map (\<lambda>(idx, spec). map_option (\<lambda>pos. (pos, length (spec_open spec), idx)) (str_find s (spec_open spec)))
       (enumerate 0 specs)"

lemma in_open_candidates:
  "(pos, len, i) \<in> set (open_candidates specs s) \<longleftrightarrow>
     i < length specs \<and> len = length (spec_open (specs ! i)) \<and> str_find s (spec_open (specs ! i)) = Some pos"
  unfolding open_candidates_def in_set_filter_map by (auto simp: in_set_enumerate_eq intro!: bexI [of _ "(i, specs ! i)"])

lemma str_find_place:
  assumes "pat \<in> set pats"
  shows "str_find s pat = Some pos \<Longrightarrow> scan pats s \<le> pos \<and> prefix pat (drop pos s)"
    and "prefix pat (drop (scan pats s) s) \<Longrightarrow> pat \<noteq> [] \<Longrightarrow> str_find s pat = Some (scan pats s)"
proof -
  show "scan pats s \<le> pos \<and> prefix pat (drop pos s)" if "str_find s pat = Some pos"
  proof -
    have "prefix pat (drop pos s)"
      using that by (auto simp: str_find_scan split: if_splits)
    then show ?thesis
      using scan_before [of pos pats s pat] assms by (force simp: clash_def)
  qed
  show "str_find s pat = Some (scan pats s)" if hit: "prefix pat (drop (scan pats s) s)" and "pat \<noteq> []"
  proof -
    have "scan [pat] s = scan pats s"
      using scan_before [of _ pats s pat] assms scan_le hit by (intro scan_eqI) (auto simp: clash_def)
    then show ?thesis
      using hit by (simp add: str_find_scan)
  qed
qed

definition first_open :: "'t inline_tag_spec list \<Rightarrow> string \<Rightarrow> nat option" where
  "first_open specs s = find (\<lambda>i. prefix (spec_open (specs ! i)) s) [0..<length specs]"

lemma first_open_Some:
  "first_open specs s = Some i \<longleftrightarrow>
     i < length specs \<and> prefix (spec_open (specs ! i)) s \<and> (\<forall>k < i. \<not> prefix (spec_open (specs ! k)) s)"
  unfolding first_open_def find_Some_iff by (auto intro!: exI [of _ i])

lemma first_open_None: "first_open specs s = None \<longleftrightarrow> (\<forall>spec \<in> set specs. \<not> prefix (spec_open spec) s)"
  unfolding first_open_def find_None_iff by (simp add: all_set_conv_all_nth)

abbreviation opens :: "'t inline_tag_spec list \<Rightarrow> string list" where
  "opens specs \<equiv> map spec_open specs"

lemma open_candidate_place:
  assumes "(pos, len, i) \<in> set (open_candidates specs s)"
  shows "scan (opens specs) s \<le> pos \<and> prefix (spec_open (specs ! i)) (drop pos s) \<and> i < length specs"
  using assms str_find_place(1) [of "spec_open (specs ! i)" "opens specs" s pos] by (simp add: in_open_candidates)

lemma candidate_at:
  assumes "specs_ok specs" and "i < length specs" and "prefix (spec_open (specs ! i)) (drop (scan (opens specs) s) s)"
  shows "(scan (opens specs) s, length (spec_open (specs ! i)), i) \<in> set (open_candidates specs s)"
proof -
  have "spec_open (specs ! i) \<noteq> []"
    using assms(1,2) by (simp add: specs_ok_def delimiter_ok_def)
  then show ?thesis
    using str_find_place(2) [of "spec_open (specs ! i)" "opens specs" s] assms(2,3) by (simp add: in_open_candidates)
qed

lemma opens_agree:
  assumes "specs_ok specs" and "a \<in> set specs" and "b \<in> set specs"
    and "prefix (spec_open a) s" and "prefix (spec_open b) s"
  shows "spec_open a = spec_open b"
  using assms prefix_same_cases [OF assms(4,5)] prefix_imp_sublist unfolding specs_ok_def by metis

text \<open>The search of the source finds the first place, and the first tag that opens there.\<close>

lemma find_next_open_scan:
  assumes "specs_ok (ip_specs p)"
  defines "j \<equiv> scan (opens (ip_specs p)) (ip_pending p)"
  shows "find_next_open p = map_option (Pair j) (first_open (ip_specs p) (drop j (ip_pending p)))"
proof -
  let ?specs = "ip_specs p" and ?s = "ip_pending p"
  have found: "find_next_open p = map_option (\<lambda>(pos, len, idx). (pos, idx)) (min_by opens_before (open_candidates ?specs ?s))"
    by (simp add: find_next_open_def open_candidates_def)
  show ?thesis
  proof (cases "first_open ?specs (drop j ?s)")
    case None
    have "\<not> c \<in> set (open_candidates ?specs ?s)" for c
    proof (cases c)
      case (fields pos len i)
      show ?thesis
      proof
        assume "c \<in> set (open_candidates ?specs ?s)"
        then have c: "j \<le> pos" "prefix (spec_open (?specs ! i)) (drop pos ?s)" "i < length ?specs"
          using open_candidate_place [of pos len i ?specs ?s] fields by (auto simp: j_def)
        have ne: "spec_open (?specs ! i) \<noteq> []"
          using assms(1) c(3) by (simp add: specs_ok_def delimiter_ok_def)
        have "pos \<noteq> j"
          using None c by (auto simp: first_open_None)
        moreover have "drop pos ?s \<noteq> []"
          using c(2) ne by auto
        ultimately have "j < pos" "pos < length ?s"
          using c(1) by auto
        then obtain b where b: "b \<in> set ?specs" "prefix (drop j ?s) (spec_open b)"
          using scan_at [of "opens ?specs" ?s] None by (auto simp: j_def clash_def first_open_None)
        have "sublist (drop pos ?s) (drop j ?s)"
          using \<open>j < pos\<close> sublist_drop [of "pos - j" "drop j ?s"] by simp
        then have "sublist (spec_open (?specs ! i)) (spec_open b)"
          using prefix_imp_sublist [OF c(2)] prefix_imp_sublist [OF b(2)] sublist_order.order.trans by blast
        then have "spec_open (?specs ! i) = spec_open b"
          using assms(1) b(1) c(3) unfolding specs_ok_def by auto
        then show False
          using prefix_length_le [OF c(2)] prefix_length_le [OF b(2)] \<open>j < pos\<close> \<open>pos < length ?s\<close> by simp
      qed
    qed
    then have "open_candidates ?specs ?s = []"
      using last_in_set by blast
    then show ?thesis
      using None found by simp
  next
    case (Some i)
    then have i: "i < length ?specs" "prefix (spec_open (?specs ! i)) (drop j ?s)"
      and least: "\<And>k. k < i \<Longrightarrow> \<not> prefix (spec_open (?specs ! k)) (drop j ?s)"
      by (auto simp: first_open_Some)
    have cand: "(j, length (spec_open (?specs ! i)), i) \<in> set (open_candidates ?specs ?s)"
      using candidate_at [OF assms(1) i(1)] i(2) by (simp add: j_def)
    then obtain pos len k where best: "min_by opens_before (open_candidates ?specs ?s) = Some (pos, len, k)"
      by (cases "open_candidates ?specs ?s") (auto simp: prod_eq_iff)
    have k: "j \<le> pos" "prefix (spec_open (?specs ! k)) (drop pos ?s)" "k < length ?specs"
      using open_candidate_place [OF min_by_mem [OF best]] by (auto simp: j_def)
    have len: "len = length (spec_open (?specs ! k))"
      using min_by_mem [OF best] by (simp add: in_open_candidates)
    have not_before: "\<not> opens_before (j, length (spec_open (?specs ! i)), i) (pos, len, k)"
      by (rule min_by_least [OF best cand])
    then have "pos = j"
      using k(1) by auto
    moreover from this have "spec_open (?specs ! k) = spec_open (?specs ! i)"
      using opens_agree [OF assms(1), of "?specs ! k" "?specs ! i"] k i by simp
    moreover from calculation have "k = i"
      using not_before least [of k] k(2) len by (cases k i rule: linorder_cases) auto
    ultimately show ?thesis
      using Some found best by simp
  qed
qed

lemma scan_open_le: "pat \<in> set pats \<Longrightarrow> scan pats s \<le> scan [pat] s"
proof (rule ccontr)
  assume "pat \<in> set pats" and "\<not> scan pats s \<le> scan [pat] s"
  then have "clash (drop (scan [pat] s) s) pat" "scan [pat] s < length s"
    using scan_before [of "scan [pat] s" pats s pat] scan_le [of pats s] by auto
  then show False
    using scan_at [of "[pat]" s] by simp
qed

lemma fold_max_mem: "fold max xs (m::nat) \<in> insert m (set xs)"
  by (induction xs arbitrary: m) (auto simp: max_def split: if_splits)

lemma fold_max_ge: "x \<in> insert m (set xs) \<Longrightarrow> x \<le> fold max xs (m::nat)"
proof (induction xs arbitrary: x m)
  case (Cons y xs)
  show ?case
  proof (cases "x \<in> {m, y}")
    case True
    then have "x \<le> max y m"
      by auto
    also have "\<dots> \<le> fold max xs (max y m)"
      by (rule Cons.IH) simp
    finally show ?thesis
      by simp
  qed (use Cons in auto)
qed simp

lemma max_open_scan:
  assumes "specs_ok (ip_specs p)"
  defines "j \<equiv> scan (opens (ip_specs p)) (ip_pending p)"
  assumes "first_open (ip_specs p) (drop j (ip_pending p)) = None"
  shows "max_open_prefix_suffix_len p = length (ip_pending p) - j"
proof -
  let ?s = "ip_pending p" and ?specs = "ip_specs p"
  have "min_by opens_before (open_candidates ?specs ?s) = None"
    using find_next_open_scan [OF assms(1)] assms(3) by (simp add: find_next_open_def open_candidates_def j_def)
  then have "open_candidates ?specs ?s = []"
    by (cases "open_candidates ?specs ?s") auto
  then have none: "str_find ?s (spec_open spec) = None" if "spec \<in> set ?specs" for spec
    using that in_open_candidates [of _ _ _ ?specs ?s] by (cases "str_find ?s (spec_open spec)") (auto simp: in_set_conv_nth)
  have len: "longest_suffix_prefix_len ?s (spec_open spec) = length ?s - scan [spec_open spec] ?s" if "spec \<in> set ?specs" for spec
    using none [OF that] assms(1) that
    by (intro longest_suffix_prefix_scan) (auto simp: specs_ok_def delimiter_ok_def str_find_scan split: if_splits)
  let ?lens = "map (\<lambda>spec. longest_suffix_prefix_len ?s (spec_open spec)) ?specs"
  have upper: "x \<le> length ?s - j" if "x \<in> insert 0 (set ?lens)" for x
    using that len scan_open_le [of _ "opens ?specs" ?s] by (auto simp: j_def diff_le_mono2)
  have "length ?s - j \<in> insert 0 (set ?lens)"
  proof (cases "j < length ?s")
    case True
    then obtain spec where spec: "spec \<in> set ?specs" "\<not> clash (drop j ?s) (spec_open spec)"
      using scan_at [of "opens ?specs" ?s] by (auto simp: j_def)
    have "scan [spec_open spec] ?s = j"
      using spec scan_before [of _ "opens ?specs" ?s "spec_open spec"] True
      by (intro scan_eqI) (auto simp: j_def)
    then show ?thesis
      using len [OF spec(1)] spec(1) by force
  qed simp
  then show ?thesis
    using upper [OF fold_max_mem] fold_max_ge [of "length ?s - j" 0 ?lens]
    by (simp add: max_open_prefix_suffix_len_def)
qed

section \<open>The loop\<close>

text \<open>The delimiters that the parser waits for, and the text that it passes on meanwhile.\<close>

definition awaited :: "'t inline_parser \<Rightarrow> string list" where
  "awaited p = (case ip_active p of Some active \<Rightarrow> [at_close active] | None \<Rightarrow> opens (ip_specs p))"

definition inline_ok :: "'t inline_parser \<Rightarrow> bool" where
  "inline_ok p \<longleftrightarrow> specs_ok (ip_specs p) \<and> (case ip_active p of Some active \<Rightarrow> delimiter_ok (at_close active) | None \<Rightarrow> True)"

definition absorb :: "string \<Rightarrow> 't inline_parser \<Rightarrow> 't inline_parser" where
  "absorb s p = p\<lparr>ip_active := map_option (\<lambda>active. active\<lparr>at_content := at_content active @ s\<rparr>) (ip_active p)\<rparr>"

definition emit :: "string \<Rightarrow> 't inline_parser \<Rightarrow> 'x text_chunk \<Rightarrow> 'x text_chunk" where
  "emit s p out = (case ip_active p of Some _ \<Rightarrow> out | None \<Rightarrow> push_visible_prefix s out)"

text \<open>The parser and the output when the text begins with a delimiter that is awaited.\<close>

definition switch ::
  "'t inline_parser \<Rightarrow> string \<Rightarrow> 't extracted_inline_tag text_chunk \<Rightarrow>
   ('t inline_parser \<times> 't extracted_inline_tag text_chunk) option" where
  "switch p s out =
     (case ip_active p of
        Some active \<Rightarrow>
          (if prefix (at_close active) s
           then Some (p\<lparr>ip_pending := drop (length (at_close active)) s, ip_active := None\<rparr>,
             out\<lparr>extracted := extracted out @ [\<lparr>xt_tag = at_tag active, xt_content = at_content active\<rparr>]\<rparr>)
           else None)
      | None \<Rightarrow>
          map_option (\<lambda>i. let spec = ip_specs p ! i
            in (p\<lparr>ip_pending := drop (length (spec_open spec)) s,
                  ip_active := Some \<lparr>at_tag = spec_tag spec, at_close = spec_close spec, at_content = []\<rparr>\<rparr>, out))
            (first_open (ip_specs p) s))"

lemma inline_iter_scan:
  assumes "inline_ok p"
  defines "j \<equiv> scan (awaited p) (ip_pending p)"
  shows "inline_iter p out =
    (case switch (absorb (take j (ip_pending p)) p) (drop j (ip_pending p)) (emit (take j (ip_pending p)) p out) of
       Some (p', out') \<Rightarrow> (True, p', out')
     | None \<Rightarrow> (False, absorb (take j (ip_pending p)) p\<lparr>ip_pending := drop j (ip_pending p)\<rparr>, emit (take j (ip_pending p)) p out))"
proof (cases "ip_active p")
  case None
  have "specs_ok (ip_specs p)"
    using assms(1) by (simp add: inline_ok_def)
  moreover have "j = scan (opens (ip_specs p)) (ip_pending p)"
    using None by (simp add: j_def awaited_def)
  moreover have "length (ip_pending p) - (length (ip_pending p) - j) = j"
    using scan_le [of "awaited p" "ip_pending p"] by (simp add: j_def)
  ultimately show ?thesis
    using None find_next_open_scan [of p] max_open_scan [of p]
    by (simp add: inline_iter_def switch_def absorb_def emit_def Let_def add.commute split: option.split)
next
  case (Some active)
  have "delimiter_ok (at_close active)"
    using assms(1) Some by (simp add: inline_ok_def)
  moreover have "j = scan [at_close active] (ip_pending p)"
    using Some by (simp add: j_def awaited_def)
  moreover have "length (ip_pending p) - (length (ip_pending p) - j) = j"
    using scan_le [of "awaited p" "ip_pending p"] by (simp add: j_def)
  ultimately show ?thesis
    using Some longest_suffix_prefix_scan [of "at_close active" "ip_pending p"]
    by (simp add: inline_iter_def switch_def absorb_def emit_def Let_def delimiter_ok_def str_find_scan add.commute)
qed

lemma awaited_simps [simp]:
  "awaited (absorb s p) = awaited p" "awaited (p\<lparr>ip_pending := x\<rparr>) = awaited p"
  "inline_ok (absorb s p) = inline_ok p" "inline_ok (p\<lparr>ip_pending := x\<rparr>) = inline_ok p"
  by (cases "ip_active p"; simp add: awaited_def absorb_def inline_ok_def)+

lemma absorb_simps [simp]:
  "ip_pending (absorb s p) = ip_pending p" "ip_specs (absorb s p) = ip_specs p"
  "absorb t (absorb s p) = absorb (s @ t) p" "absorb [] p = p"
  "absorb s (p\<lparr>ip_pending := x\<rparr>) = (absorb s p)\<lparr>ip_pending := x\<rparr>"
  "emit t (absorb s p) out = emit t p out" "emit t (p\<lparr>ip_pending := x\<rparr>) out = emit t p out"
  "emit t p (emit s p out) = emit (s @ t) p out" "emit [] p out = out"
  by (cases "ip_active p"; simp add: absorb_def emit_def push_visible_prefix_def)+

lemma switch_pending [simp]: "switch (p\<lparr>ip_pending := x\<rparr>) s out = switch p s out"
  by (cases "ip_active p") (simp_all add: switch_def Let_def)

lemma switch_None: "switch p s out = None \<longleftrightarrow> \<not> (\<exists>pat \<in> set (awaited p). prefix pat s)"
  by (cases "ip_active p") (auto simp: switch_def awaited_def first_open_None)

lemma first_open_append:
  assumes "specs_ok specs" and "first_open specs s = Some i"
  shows "first_open specs (s @ t) = Some i"
proof -
  have i: "i < length specs" "prefix (spec_open (specs ! i)) s" "\<And>k. k < i \<Longrightarrow> \<not> prefix (spec_open (specs ! k)) s"
    using assms(2) by (auto simp: first_open_Some)
  moreover have "\<not> prefix (spec_open (specs ! k)) (s @ t)" if "k < i" for k
  proof
    assume "prefix (spec_open (specs ! k)) (s @ t)"
    then have "spec_open (specs ! k) = spec_open (specs ! i)"
      using opens_agree [OF assms(1), of "specs ! k" "specs ! i" "s @ t"] i(1,2) that by (simp add: prefix_prefix)
    then show False
      using i(2) i(3) [OF that] by simp
  qed
  ultimately show ?thesis
    by (simp add: first_open_Some prefix_prefix)
qed

lemma switch_append:
  assumes "inline_ok p" and "switch p s out = Some (p', out')"
  shows "switch p (s @ t) out = Some (p'\<lparr>ip_pending := ip_pending p' @ t\<rparr>, out')"
proof (cases "ip_active p")
  case None
  then obtain i where i: "first_open (ip_specs p) s = Some i"
    using assms(2) by (auto simp: switch_def)
  then have "prefix (spec_open (ip_specs p ! i)) s"
    by (simp add: first_open_Some)
  then show ?thesis
    using assms None i first_open_append [OF _ i, of t] by (auto simp: switch_def Let_def inline_ok_def prefix_def)
next
  case (Some active)
  then show ?thesis
    using assms(2) by (auto simp: switch_def prefix_prefix split: if_splits dest: prefix_length_le)
qed

lemma switch_shrinks:
  assumes "inline_ok p" and "switch p s out = Some (p', out')"
  shows "inline_ok p' \<and> ip_specs p' = ip_specs p \<and> length (ip_pending p') < length s"
proof (cases "ip_active p")
  case None
  then obtain i where i: "first_open (ip_specs p) s = Some i"
    using assms(2) by (auto simp: switch_def)
  then have hit: "i < length (ip_specs p)" "prefix (spec_open (ip_specs p ! i)) s"
    by (auto simp: first_open_Some)
  then have "delimiter_ok (spec_open (ip_specs p ! i))" "delimiter_ok (spec_close (ip_specs p ! i))"
    using assms(1) by (simp_all add: inline_ok_def specs_ok_def)
  then show ?thesis
    using assms None i hit by (auto simp: switch_def Let_def inline_ok_def delimiter_ok_def prefix_def)
next
  case (Some active)
  then show ?thesis
    using assms by (auto simp: switch_def inline_ok_def delimiter_ok_def prefix_def split: if_splits)
qed

text \<open>A parser between two calls holds back only what may be the beginning of a delimiter.\<close>

definition settled :: "'t inline_parser \<Rightarrow> bool" where
  "settled p \<longleftrightarrow> scan (awaited p) (ip_pending p) = 0 \<and> \<not> (\<exists>pat \<in> set (awaited p). prefix pat (ip_pending p))"

lemma scan_drop: "scan pats (drop (scan pats s) s) = 0"
  by (rule scan_eqI) (use scan_at [of pats s] scan_le [of pats s] in auto)

lemma inline_loop_append:
  assumes "inline_ok p"
  shows "\<exists>o1 p1. inline_loop p out = Some (o1, p1) \<and> inline_ok p1 \<and> settled p1 \<and> ip_specs p1 = ip_specs p \<and>
    (\<forall>y. inline_loop (p\<lparr>ip_pending := ip_pending p @ y\<rparr>) out = inline_loop (p1\<lparr>ip_pending := ip_pending p1 @ y\<rparr>) o1)"
  using assms
proof (induction "length (ip_pending p)" arbitrary: p out rule: less_induct)
  case less
  let ?x = "ip_pending p"
  define j where "j = scan (awaited p) ?x"
  let ?p = "absorb (take j ?x) p" and ?out = "emit (take j ?x) p out"
  have j: "j \<le> length ?x"
    using scan_le by (simp add: j_def)
  have more_j: "scan (awaited p) (?x @ y) = j" if "switch ?p (drop j ?x) ?out \<noteq> None" for y
    using that switch_None [of ?p "drop j ?x" ?out] scan_append_hit [OF j_def] by auto
  show ?case
  proof (cases "switch ?p (drop j ?x) ?out")
    case (Some z)
    then obtain p' out' where hit: "switch ?p (drop j ?x) ?out = Some (p', out')"
      by (cases z) auto
    have ok: "inline_ok p'" "ip_specs p' = ip_specs p" "length (ip_pending p') < length ?x"
      using switch_shrinks [OF _ hit] less.prems j by auto
    obtain o1 p1 where rest: "inline_loop p' out' = Some (o1, p1)" "inline_ok p1" "settled p1" "ip_specs p1 = ip_specs p'"
      "\<And>y. inline_loop (p'\<lparr>ip_pending := ip_pending p' @ y\<rparr>) out' = inline_loop (p1\<lparr>ip_pending := ip_pending p1 @ y\<rparr>) o1"
      using less.hyps [OF ok(3,1), of out'] by blast
    have "inline_loop p out = inline_loop p' out'"
      using hit by (subst inline_loop.simps) (simp add: inline_iter_scan [OF less.prems] j_def)
    moreover have "inline_loop (p\<lparr>ip_pending := ?x @ y\<rparr>) out = inline_loop (p'\<lparr>ip_pending := ip_pending p' @ y\<rparr>) out'" for y
      using switch_append [OF _ hit, of y] less.prems more_j [of y] hit j
      by (subst inline_loop.simps) (simp add: inline_iter_scan)
    ultimately show ?thesis
      using rest ok by auto
  next
    case None
    let ?p1 = "?p\<lparr>ip_pending := drop j ?x\<rparr>"
    have miss: "\<not> (\<exists>pat \<in> set (awaited p). prefix pat (drop j ?x))"
      using None by (simp add: switch_None)
    have "inline_loop p out = Some (?out, ?p1)"
      using None by (subst inline_loop.simps) (simp add: inline_iter_scan [OF less.prems] j_def)
    moreover have "settled ?p1"
      using miss scan_drop [of "awaited p" ?x] by (simp add: settled_def j_def)
    moreover have "inline_iter (p\<lparr>ip_pending := ?x @ y\<rparr>) out = inline_iter (?p1\<lparr>ip_pending := ip_pending ?p1 @ y\<rparr>) ?out" for y
    proof -
      have "scan (awaited p) (?x @ y) = j + scan (awaited p) (drop j ?x @ y)"
        by (rule scan_append [OF j_def miss])
      then show ?thesis
        using less.prems j by (simp add: inline_iter_scan add.commute [of _ j] take_add cong: option.case_cong)
    qed
    then have "inline_loop (p\<lparr>ip_pending := ?x @ y\<rparr>) out = inline_loop (?p1\<lparr>ip_pending := ip_pending ?p1 @ y\<rparr>) ?out" for y
      unfolding inline_loop.simps [of "p\<lparr>ip_pending := ?x @ y\<rparr>"]
        inline_loop.simps [of "?p1\<lparr>ip_pending := ip_pending ?p1 @ y\<rparr>"] by (simp only:)
    ultimately show ?thesis
      using less.prems by (intro exI [of _ ?out] exI [of _ ?p1]) simp
  qed
qed

lemma inline_iter_out:
  "inline_iter p (append_chunk a out) = (let (continue, p', out') = inline_iter p out in (continue, p', append_chunk a out'))"
  by (simp add: inline_iter_def Let_def append_chunk_def push_visible_prefix_def split: option.split)

lemma inline_loop_out:
  assumes "inline_ok p"
  shows "inline_loop p (append_chunk a out) = map_option (\<lambda>(out', p'). (append_chunk a out', p')) (inline_loop p out)"
  using assms
proof (induction "length (ip_pending p)" arbitrary: p out rule: less_induct)
  case less
  obtain continue p' out' where iter: "inline_iter p out = (continue, p', out')"
    by (cases "inline_iter p out") auto
  show ?case
  proof (cases continue)
    case True
    let ?j = "scan (awaited p) (ip_pending p)"
    have "switch (absorb (take ?j (ip_pending p)) p) (drop ?j (ip_pending p)) (emit (take ?j (ip_pending p)) p out) = Some (p', out')"
      using iter True by (auto simp: inline_iter_scan [OF less.prems] split: option.splits)
    then have "inline_ok p' \<and> length (ip_pending p') < length (drop ?j (ip_pending p))"
      using switch_shrinks less.prems awaited_simps(3) by blast
    then have "inline_ok p'" "length (ip_pending p') < length (ip_pending p)"
      by auto
    then have "inline_loop p' (append_chunk a out') = map_option (\<lambda>(out', p'). (append_chunk a out', p')) (inline_loop p' out')"
      using less.hyps [of p' out'] by simp
    then show ?thesis
      using iter True by (simp add: inline_loop.simps [of p] inline_iter_out)
  qed (simp add: inline_loop.simps [of p] inline_iter_out iter)
qed

lemma push_inline_append:
  assumes "inline_ok p" and "push_inline p a = Some (c1, p1)"
  shows "inline_ok p1 \<and> settled p1 \<and> ip_specs p1 = ip_specs p \<and>
    push_inline p (a @ b) = map_option (\<lambda>(c2, p2). (append_chunk c1 c2, p2)) (push_inline p1 b)"
proof -
  let ?p = "p\<lparr>ip_pending := ip_pending p @ a\<rparr>"
  have loop: "inline_ok p1" "settled p1" "ip_specs p1 = ip_specs p"
    "inline_loop (?p\<lparr>ip_pending := ip_pending ?p @ b\<rparr>) default_chunk = inline_loop (p1\<lparr>ip_pending := ip_pending p1 @ b\<rparr>) c1"
    using inline_loop_append [of ?p default_chunk] assms by (auto simp: push_inline_def)
  then show ?thesis
    using inline_loop_out [of "p1\<lparr>ip_pending := ip_pending p1 @ b\<rparr>" c1 default_chunk] by (simp add: push_inline_def)
qed

lemma push_inline_total: "inline_ok p \<Longrightarrow> \<exists>c p'. push_inline p a = Some (c, p')"
  using inline_loop_append [of "p\<lparr>ip_pending := ip_pending p @ a\<rparr>" default_chunk] by (auto simp: push_inline_def)

lemma push_inline_nothing: "inline_ok p \<Longrightarrow> settled p \<Longrightarrow> push_inline p [] = Some (default_chunk, p)"
  by (simp add: push_inline_def inline_loop.simps [of p] inline_iter_scan settled_def switch_None [THEN iffD2])

abbreviation between_calls :: "'t inline_parser \<Rightarrow> bool" where
  "between_calls p \<equiv> inline_ok p \<and> settled p"

interpretation inline: stream_parser push_inline between_calls "\<lambda>xs. xs"
proof unfold_locales
  fix s :: "'t inline_parser" and a
  assume ok: "between_calls s"
  obtain c p' where "push_inline s a = Some (c, p')"
    using push_inline_total ok by blast
  then show "\<exists>c s'. push_inline s a = Some (c, s') \<and> between_calls s'"
    using push_inline_append ok by blast
qed (use push_inline_nothing push_inline_append in \<open>force+\<close>)

lemma new_inline_between_calls: "new_inline_parser specs = Some p \<Longrightarrow> specs_ok specs \<Longrightarrow> between_calls p"
  by (fastforce simp: new_inline_parser_def inline_ok_def settled_def awaited_def specs_ok_def delimiter_ok_def split: if_splits)

section \<open>Properties\<close>

text \<open>
  A parser for hidden inline tags does not see how the text is cut. When no opening delimiter occurs
  inside another one, a new parser that is fed any chunks hands out the same visible text and the same
  tags, and is in the same state, as after one call with the whole text; every call returns.
\<close>

theorem inline_chunks_irrelevant:
  assumes "specs_ok specs" and "new_inline_parser specs = Some p" and "list_all valid_utf8 chunks"
  shows "\<exists>c p'. feed push_inline p chunks = Some (c, p') \<and> push_inline p (concat chunks) = Some (c, p')"
proof -
  obtain c d p' where "feed push_inline p chunks = Some (c, p')" "push_inline p (concat chunks) = Some (d, p')"
    "same_output (\<lambda>xs. xs) c d"
    using inline.feed_concat [OF new_inline_between_calls [OF assms(2,1)] assms(3)] by blast
  moreover from this have "c = d"
    by (simp add: same_output_def)
  ultimately show ?thesis
    by blast
qed

definition two_tags :: "bool inline_tag_spec list" where
  "two_tags = [\<lparr>spec_tag = True, spec_open = ''<a>'', spec_close = ''</a>''\<rparr>, \<lparr>spec_tag = False, spec_open = ''<b>'', spec_close = ''</b>''\<rparr>]"

theorem inline_chunks_irrelevant_witness:
  "specs_ok two_tags \<and> (\<exists>p c p'. new_inline_parser two_tags = Some p \<and>
     feed push_inline p [''x<'', ''a>y</'', ''a>z''] = Some (c, p') \<and> push_inline p ''x<a>y</a>z'' = Some (c, p'))"
proof -
  have ok: "specs_ok two_tags"
    by code_simp
  obtain p where p: "new_inline_parser two_tags = Some p"
    by (auto simp: new_inline_parser_def two_tags_def)
  have "list_all valid_utf8 [''x<'', ''a>y</'', ''a>z'']" "concat [''x<'', ''a>y</'', ''a>z''] = ''x<a>y</a>z''"
    by code_simp+
  then show ?thesis
    using inline_chunks_irrelevant [OF ok p, of "[''x<'', ''a>y</'', ''a>z'']"] ok p by auto
qed

text \<open>
  The condition on the delimiters is needed: with \<^verbatim>\<open><a\<close> and \<^verbatim>\<open><ab\<close> the longer one is taken when it arrives as
  a whole, and the shorter one when the text is cut behind it.
\<close>

definition overlapping_tags :: "bool inline_tag_spec list" where
  "overlapping_tags =
     [\<lparr>spec_tag = True, spec_open = ''<a'', spec_close = ''>''\<rparr>, \<lparr>spec_tag = False, spec_open = ''<ab'', spec_close = ''>''\<rparr>]"

lemma overlapping_tags_see_chunks:
  "case new_inline_parser overlapping_tags of
     Some p \<Rightarrow>
       map_option (extracted \<circ> fst) (push_inline p ''<abc>'') = Some [\<lparr>xt_tag = False, xt_content = ''c''\<rparr>] \<and>
       map_option (extracted \<circ> fst) (feed push_inline p [''<a'', ''bc>'']) = Some [\<lparr>xt_tag = True, xt_content = ''bc''\<rparr>]
   | None \<Rightarrow> False"
  by code_simp

subsection \<open>Citations\<close>

lemma citation_specs_ok: "specs_ok citation_specs"
  by (simp add: specs_ok_def citation_specs_def delimiter_ok_def ascii_def CITATION_OPEN_def CITATION_CLOSE_def byte_of_def)

definition citation_start :: "citation_tag inline_parser" where
  "citation_start = \<lparr>ip_specs = citation_specs, ip_pending = [], ip_active = None\<rparr>"

lemma new_citation_parser_eq: "new_citation_parser = Some citation_start"
  by (simp add: new_citation_parser_def new_inline_parser_def citation_start_def citation_specs_def CITATION_OPEN_def CITATION_CLOSE_def)

lemma citation_start_ok: "between_calls citation_start"
  using new_inline_between_calls [OF new_citation_parser_eq [unfolded new_citation_parser_def] citation_specs_ok] .

lemma citation_bodies_append: "citation_bodies (append_chunk a b) = append_chunk (citation_bodies a) (citation_bodies b)"
  by (simp add: citation_bodies_def append_chunk_def)

lemma push_citation_append:
  assumes "inline_ok p" and "push_citation p a = Some (c1, p1)"
  shows "between_calls p1 \<and> push_citation p (a @ b) = map_option (\<lambda>(c2, p2). (append_chunk c1 c2, p2)) (push_citation p1 b)"
proof -
  obtain c where c: "push_inline p a = Some (c, p1)" "c1 = citation_bodies c"
    using assms(2) by (auto simp: push_citation_def)
  show ?thesis
    using push_inline_append [OF assms(1) c(1), of b] c(2)
    by (cases "push_inline p1 b") (auto simp: push_citation_def citation_bodies_append)
qed

lemma push_citation_total: "inline_ok p \<Longrightarrow> \<exists>c p'. push_citation p a = Some (c, p')"
  using push_inline_total [of p a] by (auto simp: push_citation_def)

interpretation citation: stream_parser push_citation between_calls "\<lambda>xs. xs"
proof unfold_locales
  fix s :: "citation_tag inline_parser" and a
  assume ok: "between_calls s"
  obtain c p' where "push_citation s a = Some (c, p')"
    using push_citation_total ok by blast
  then show "\<exists>c s'. push_citation s a = Some (c, s') \<and> between_calls s'"
    using push_citation_append ok by blast
next
  fix s :: "citation_tag inline_parser"
  assume "between_calls s"
  then show "push_citation s [] = Some (default_chunk, s)"
    by (simp add: push_citation_def push_inline_nothing citation_bodies_def default_chunk_def)
qed (use push_citation_append in \<open>force+\<close>)

lemma strip_citations_eq:
  "strip_citations s =
     (case push_citation citation_start s of
        Some (out, p') \<Rightarrow>
          Some (visible_text out @ visible_text (fst (finish_citation p')), extracted out @ extracted (fst (finish_citation p')))
      | None \<Rightarrow> None)"
  by (simp add: strip_citations_def new_citation_parser_eq Let_def split: option.split)

lemma strip_citations_total: "\<exists>r. strip_citations s = Some r"
  using push_citation_total [of citation_start s] citation_start_ok by (auto simp: strip_citations_eq)

text \<open>What the searches do at a delimiter whose first character does not occur again in it.\<close>

lemma str_find_first:
  "(\<And>i. i < n \<Longrightarrow> \<not> prefix pat (drop i s)) \<Longrightarrow> prefix pat (drop n s) \<Longrightarrow> n \<le> length s \<Longrightarrow> str_find s pat = Some n"
proof (induction s arbitrary: n)
  case (Cons c s)
  show ?case
  proof (cases n)
    case (Suc m)
    have "\<not> prefix pat (drop i s)" if "i < m" for i
      using Cons.prems(1) [of "Suc i"] that Suc by simp
    then have "str_find s pat = Some m"
      using Cons.IH [of m] Cons.prems Suc by simp
    moreover have "\<not> prefix pat (c # s)"
      using Cons.prems(1) [of 0] Suc by simp
    ultimately show ?thesis
      using Suc by simp
  qed (use Cons.prems in simp)
qed simp

lemma str_find_delimiter:
  assumes "d = h # t" and "h \<notin> set t" and "\<not> contains v d"
  shows "str_find (v @ d @ rest) d = Some (length v)"
proof (rule str_find_first)
  fix i
  assume i: "i < length v"
  let ?n = "length v - i"
  show "\<not> prefix d (drop i (v @ d @ rest))"
  proof
    assume "prefix d (drop i (v @ d @ rest))"
    then obtain zs where zs: "drop i v @ d @ rest = d @ zs"
      using i by (auto simp: prefix_def)
    show False
    proof (cases "length d \<le> ?n")
      case True
      then have "prefix d (drop i v)"
        using zs by (metis append_eq_append_conv_if length_drop prefixI take_is_prefix)
      then show False
        using assms(3) append_take_drop_id [of i v] by (metis contains_iff prefix_def)
    next
      case False
      then have "d ! ?n = (d @ zs) ! ?n"
        by (simp add: nth_append)
      also have "\<dots> = h"
        unfolding zs [symmetric] using assms(1) by (simp add: nth_append)
      finally have "t ! (?n - 1) = h" "?n - 1 < length t"
        using assms(1) i False by (auto simp: nth_Cons')
      then show False
        using assms(2) nth_mem by metis
    qed
  qed
qed simp_all

lemma str_find_absent: "\<not> contains s pat \<Longrightarrow> str_find s pat = None"
proof (rule ccontr)
  assume "\<not> contains s pat" and "str_find s pat \<noteq> None"
  then have "prefix pat (drop (scan [pat] s) s)"
    by (auto simp: str_find_scan split: if_splits)
  then obtain zs where "drop (scan [pat] s) s = pat @ zs"
    by (auto simp: prefix_def)
  then have "s = take (scan [pat] s) s @ pat @ zs"
    by (metis append_take_drop_id)
  then show False
    using \<open>\<not> contains s pat\<close> unfolding contains_iff by blast
qed

lemma find_citation_open:
  "ip_specs p = citation_specs \<Longrightarrow> find_next_open p = map_option (\<lambda>pos. (pos, 0)) (str_find (ip_pending p) CITATION_OPEN)"
  by (cases "str_find (ip_pending p) CITATION_OPEN") (simp_all add: find_next_open_def citation_specs_def)

lemma push_one_citation:
  assumes "\<not> contains v CITATION_OPEN" and "\<not> contains b CITATION_CLOSE"
  shows "push_citation citation_start (v @ CITATION_OPEN @ b @ CITATION_CLOSE) =
    Some (\<lparr>visible_text = v, extracted = [b]\<rparr>, citation_start)"
proof -
  have opened: "str_find (v @ CITATION_OPEN @ b @ CITATION_CLOSE) CITATION_OPEN = Some (length v)"
    using assms(1) by (intro str_find_delimiter [of _ "CHR ''<''" "''oai-mem-citation>''"]) (simp_all add: CITATION_OPEN_def)
  have closed: "str_find (b @ CITATION_CLOSE) CITATION_CLOSE = Some (length b)"
    using assms(2) str_find_delimiter [of CITATION_CLOSE "CHR ''<''" "''/oai-mem-citation>''" b "[]"] by (simp add: CITATION_CLOSE_def)
  let ?inside = "\<lparr>ip_specs = citation_specs, ip_pending = b @ CITATION_CLOSE,
    ip_active = Some \<lparr>at_tag = Citation, at_close = CITATION_CLOSE, at_content = []\<rparr>\<rparr>"
  have "inline_loop citation_start out = Some (out, citation_start)" for out :: "citation_tag extracted_inline_tag text_chunk"
    by (subst inline_loop.simps)
      (simp add: inline_iter_def find_citation_open citation_start_def Let_def push_visible_prefix_def CITATION_OPEN_def)
  then have "inline_loop ?inside out =
      Some (out\<lparr>extracted := extracted out @ [\<lparr>xt_tag = Citation, xt_content = b\<rparr>]\<rparr>, citation_start)" for out
    by (subst inline_loop.simps) (simp add: inline_iter_def closed citation_start_def Let_def)
  moreover have "inline_loop (citation_start\<lparr>ip_pending := v @ CITATION_OPEN @ b @ CITATION_CLOSE\<rparr>) default_chunk =
      inline_loop ?inside (push_visible_prefix v default_chunk)"
    by (subst inline_loop.simps)
      (simp add: inline_iter_def find_citation_open opened citation_start_def Let_def, simp add: citation_specs_def)
  moreover have "ip_pending citation_start = []"
    by (simp add: citation_start_def)
  ultimately show ?thesis
    by (simp add: push_citation_def push_inline_def citation_bodies_def push_visible_prefix_def default_chunk_def)
qed

lemma push_no_citation:
  assumes "\<not> contains v CITATION_OPEN"
  shows "\<exists>n. push_citation citation_start v =
    Some (\<lparr>visible_text = take n v, extracted = []\<rparr>, citation_start\<lparr>ip_pending := drop n v\<rparr>)"
proof -
  let ?p = "citation_start\<lparr>ip_pending := v\<rparr>"
  have "inline_loop ?p default_chunk =
      (let n = length v - max_open_prefix_suffix_len ?p in Some (push_visible_prefix (take n v) default_chunk, ?p\<lparr>ip_pending := drop n v\<rparr>))"
    using str_find_absent [OF assms]
    by (subst inline_loop.simps) (simp add: inline_iter_def find_citation_open citation_start_def Let_def)
  then show ?thesis
    by (auto simp: push_citation_def push_inline_def citation_start_def Let_def citation_bodies_def push_visible_prefix_def
        default_chunk_def)
qed

text \<open>
  C28: Citations can be taken out of a text and nothing else changes. A text that is put together from
  pieces without the opening tag and citations whose bodies do not contain the closing tag is taken
  apart into exactly these pieces and these bodies, in order.
\<close>

theorem citations_roundtrip:
  assumes "list_all (\<lambda>(v, b). \<not> contains v CITATION_OPEN \<and> \<not> contains b CITATION_CLOSE) parts"
    and "\<not> contains rest CITATION_OPEN"
  shows "strip_citations (concat (map (\<lambda>(v, b). v @ CITATION_OPEN @ b @ CITATION_CLOSE) parts) @ rest) =
    Some (concat (map fst parts) @ rest, map snd parts)"
  using assms(1)
proof (induction parts)
  case Nil
  obtain n where "push_citation citation_start rest =
      Some (\<lparr>visible_text = take n rest, extracted = []\<rparr>, citation_start\<lparr>ip_pending := drop n rest\<rparr>)"
    using push_no_citation [OF assms(2)] by blast
  then show ?case
    by (simp add: strip_citations_eq finish_citation_def finish_inline_def citation_bodies_def citation_start_def default_chunk_def)
next
  case (Cons part parts)
  obtain v b where part: "part = (v, b)"
    by (cases part)
  let ?more = "concat (map (\<lambda>(v, b). v @ CITATION_OPEN @ b @ CITATION_CLOSE) parts) @ rest"
  have one: "push_citation citation_start (v @ CITATION_OPEN @ b @ CITATION_CLOSE) =
      Some (\<lparr>visible_text = v, extracted = [b]\<rparr>, citation_start)"
    using Cons.prems part by (intro push_one_citation) auto
  have "push_citation citation_start ((v @ CITATION_OPEN @ b @ CITATION_CLOSE) @ ?more) =
      map_option (\<lambda>(c, p). (append_chunk \<lparr>visible_text = v, extracted = [b]\<rparr> c, p)) (push_citation citation_start ?more)"
    using push_citation_append [OF _ one, of ?more] citation_start_ok by blast
  then show ?case
    using Cons part by (auto simp: strip_citations_eq split: option.splits)
qed

theorem citations_roundtrip_witness:
  "strip_citations (''a'' @ CITATION_OPEN @ ''doc'' @ CITATION_CLOSE @ ''b'') = Some (''ab'', [''doc''])"
proof -
  have "list_all (\<lambda>(v, b). \<not> contains v CITATION_OPEN \<and> \<not> contains b CITATION_CLOSE) [(''a'', ''doc'')]"
    "\<not> contains ''b'' CITATION_OPEN"
    by code_simp+
  from citations_roundtrip [OF this] show ?thesis
    by simp
qed

text \<open>
  The visible text may still look like a citation: what stands before and behind a citation can make up
  a tag once the citation is taken out.
\<close>

lemma stripped_text_has_citation:
  "map_option (\<lambda>(visible, citations). (contains visible CITATION_OPEN, strip_citations visible \<noteq> Some (visible, [])))
     (strip_citations (''<oai-mem-'' @ CITATION_OPEN @ ''x'' @ CITATION_CLOSE @ ''citation>y'')) = Some (True, True)"
  by code_simp

subsection \<open>Nothing is lost\<close>

definition citation_parser :: "citation_tag inline_parser \<Rightarrow> bool" where
  "citation_parser p \<longleftrightarrow> ip_specs p = citation_specs \<and> (\<forall>active. ip_active p = Some active \<longrightarrow> at_close active = CITATION_CLOSE)"

definition held :: "citation_tag inline_parser \<Rightarrow> nat" where
  "held p = length (ip_pending p) +
     (case ip_active p of Some active \<Rightarrow> length CITATION_OPEN + length (at_content active) | None \<Rightarrow> 0)"

definition handed_out :: "string \<Rightarrow> string list \<Rightarrow> nat" where
  "handed_out visible bodies =
     length visible + sum_list (map (\<lambda>b. length CITATION_OPEN + length b + length CITATION_CLOSE) bodies)"

lemma str_find_bound: "str_find s pat = Some i \<Longrightarrow> i + length pat \<le> length s"
  using prefix_length_le [of pat "drop i s"] scan_le [of "[pat]" s]
  by (auto simp: str_find_scan split: if_splits)

lemma inline_iter_accounted:
  assumes "inline_iter p out = (continue, p', out')" and "citation_parser p"
  shows "citation_parser p' \<and>
    handed_out (visible_text out') (map xt_content (extracted out')) + held p' =
    handed_out (visible_text out) (map xt_content (extracted out)) + held p"
proof (cases "ip_active p")
  case None
  then show ?thesis
  proof (cases "str_find (ip_pending p) CITATION_OPEN")
    case (Some i)
    then show ?thesis
      using assms None str_find_bound [OF Some] find_citation_open [of p]
      by (auto simp: inline_iter_def Let_def citation_parser_def held_def handed_out_def push_visible_prefix_def citation_specs_def)
  qed (use assms None find_citation_open [of p] in
      \<open>auto simp: inline_iter_def Let_def citation_parser_def held_def handed_out_def push_visible_prefix_def\<close>)
next
  case (Some active)
  then show ?thesis
    using assms str_find_bound [of "ip_pending p" "at_close active"]
    by (auto simp: inline_iter_def Let_def citation_parser_def held_def handed_out_def split: option.splits)
qed

lemma inline_loop_accounted:
  assumes "inline_loop p out = Some (out', p')" and "citation_parser p"
  shows "citation_parser p' \<and>
    handed_out (visible_text out') (map xt_content (extracted out')) + held p' =
    handed_out (visible_text out) (map xt_content (extracted out)) + held p"
proof -
  have "citation_parser p \<longrightarrow> citation_parser (snd r) \<and>
      handed_out (visible_text (fst r)) (map xt_content (extracted (fst r))) + held (snd r) =
      handed_out (visible_text out) (map xt_content (extracted out)) + held p"
    if "inline_loop p out = Some r" for p out r
  proof (rule inline_loop.raw_induct [OF _ that], goal_cases)
    case (1 loop p out r)
    obtain continue p1 out1 where iter: "inline_iter p out = (continue, p1, out1)"
      by (cases "inline_iter p out") auto
    show ?case
      using 1(1) [of p1 out1 r] 1(2) inline_iter_accounted [OF iter] by (cases continue) (auto simp: iter)
  qed
  then show ?thesis
    using assms by fastforce
qed

lemma settled_pending:
  assumes "settled p" and "awaited p = [d]" and "d \<noteq> []"
  shows "strict_prefix (ip_pending p) d"
proof (cases "ip_pending p = []")
  case False
  then have "\<not> clash (ip_pending p) d"
    using assms scan_at [of "[d]" "ip_pending p"] by (simp add: settled_def)
  then show ?thesis
    using assms by (auto simp: settled_def clash_def strict_prefix_def)
qed (use assms in \<open>simp add: strict_prefix_def\<close>)

text \<open>
  C23: Text is passed on promptly and none of it is lost. After any chunks, the citation parser holds back
  only a part of the tag that it waits for, shorter than the tag; every other byte has been handed out,
  as visible text, as the body or the tags of a citation, or belongs to the citation that is open.
\<close>

theorem citation_text_accounted:
  assumes "new_citation_parser = Some p" and "list_all valid_utf8 chunks"
  shows "\<exists>c p'. feed push_citation p chunks = Some (c, p') \<and>
    strict_prefix (ip_pending p') (case ip_active p' of None \<Rightarrow> CITATION_OPEN | Some _ \<Rightarrow> CITATION_CLOSE) \<and>
    length (concat chunks) = handed_out (visible_text c) (extracted c) + held p'"
proof -
  have p: "p = citation_start"
    using assms(1) by (simp add: new_citation_parser_eq)
  obtain c d p' where feed: "feed push_citation p chunks = Some (c, p')" "push_citation p (concat chunks) = Some (d, p')"
    "same_output (\<lambda>xs. xs) c d" "between_calls p'"
    using citation.feed_concat [OF citation_start_ok assms(2)] p by blast
  then obtain out where out: "inline_loop (p\<lparr>ip_pending := concat chunks\<rparr>) default_chunk = Some (out, p')" "d = citation_bodies out"
    by (auto simp: push_citation_def push_inline_def p citation_start_def)
  have "citation_parser (p\<lparr>ip_pending := concat chunks\<rparr>)"
    by (simp add: citation_parser_def p citation_start_def)
  then have all: "citation_parser p'" "handed_out (visible_text c) (extracted c) + held p' = length (concat chunks)"
    using inline_loop_accounted [OF out(1)] feed(3) out(2)
    by (auto simp: same_output_def citation_bodies_def handed_out_def held_def p citation_start_def)
  then have "awaited p' = [case ip_active p' of None \<Rightarrow> CITATION_OPEN | Some _ \<Rightarrow> CITATION_CLOSE]"
    by (auto simp: awaited_def citation_parser_def citation_specs_def split: option.split)
  then have "strict_prefix (ip_pending p') (case ip_active p' of None \<Rightarrow> CITATION_OPEN | Some _ \<Rightarrow> CITATION_CLOSE)"
    using settled_pending [of p'] feed(4) by (auto simp: CITATION_OPEN_def CITATION_CLOSE_def split: option.splits)
  then show ?thesis
    using feed(1) all(2) by auto
qed

theorem citation_text_accounted_witness:
  "\<exists>p c p'. new_citation_parser = Some p \<and> feed push_citation p [''a<oai'', ''-mem-citation>x''] = Some (c, p') \<and>
     strict_prefix (ip_pending p') (case ip_active p' of None \<Rightarrow> CITATION_OPEN | Some _ \<Rightarrow> CITATION_CLOSE) \<and>
     20 = handed_out (visible_text c) (extracted c) + held p'"
proof -
  have "list_all valid_utf8 [''a<oai'', ''-mem-citation>x'']"
    by code_simp
  from citation_text_accounted [OF new_citation_parser_eq this] show ?thesis
    using new_citation_parser_eq by auto
qed

subsection \<open>Bytes\<close>

text \<open>
  Citations in a stream of raw bytes. Bytes that are valid UTF-8 as a whole are accepted whatever the
  chunks, also when a code point is cut, and the visible text and the citations are those of the
  whole text.
\<close>

theorem citation_bytes:
  assumes "new_citation_parser = Some p" and "valid_utf8 (concat chunks)"
  shows "\<exists>c q tail r. feed_bytes push_citation (new_utf8_stream p) chunks = Some (Ok c, q) \<and>
    finish_bytes push_citation finish_citation q = Some (Ok tail, r) \<and>
    strip_citations (concat chunks) = Some (visible_text c @ visible_text tail, extracted c @ extracted tail)"
proof -
  have p: "p = citation_start"
    using assms(1) by (simp add: new_citation_parser_eq)
  obtain c d s where feed: "feed_bytes push_citation (new_utf8_stream p) chunks = Some (Ok c, new_utf8_stream s)"
    "push_citation p (concat chunks) = Some (d, s)" "same_output (\<lambda>xs. xs) c d"
    using citation.feed_bytes_concat [OF citation_start_ok, of "[]" chunks] assms(2) p by (auto simp: new_utf8_stream_def)
  obtain tail s' where fin: "finish_citation s = (tail, s')"
    by (cases "finish_citation s")
  have "finish_bytes push_citation finish_citation (new_utf8_stream s) = Some (Ok tail, new_utf8_stream s')"
    using fin by (simp add: finish_bytes_def new_utf8_stream_def)
  moreover have "strip_citations (concat chunks) = Some (visible_text c @ visible_text tail, extracted c @ extracted tail)"
    using feed(2,3) fin p by (simp add: strip_citations_eq same_output_def)
  ultimately show ?thesis
    using feed(1) by blast
qed

theorem citation_bytes_witness:
  "\<exists>p c q tail r. new_citation_parser = Some p \<and>
    feed_bytes push_citation (new_utf8_stream p) [''H'' @ [CHR 0xC3], [CHR 0xA9] @ ''!''] = Some (Ok c, q) \<and>
    finish_bytes push_citation finish_citation q = Some (Ok tail, r) \<and>
    strip_citations (''H'' @ [CHR 0xC3, CHR 0xA9] @ ''!'') = Some (visible_text c @ visible_text tail, extracted c @ extracted tail)"
proof -
  have "valid_utf8 (concat [''H'' @ [CHR 0xC3], [CHR 0xA9] @ ''!''])"
    by code_simp
  from citation_bytes [OF new_citation_parser_eq this] show ?thesis
    using new_citation_parser_eq by auto
qed

text \<open>
  C29: A byte chunk is refused exactly when the bytes held back and the chunk are the beginning of no valid
  UTF-8 text, and then the parser is as it was before the call: neither the bytes nor the parser inside
  have changed.
\<close>

theorem refused_bytes_leave_no_trace:
  assumes "between_calls (us_inner p)"
  shows "\<exists>r p'. push_bytes push_citation p chunk = Some (r, p') \<and>
    (is_ok r \<longleftrightarrow> (\<exists>q. valid_utf8 (us_pending p @ chunk @ q))) \<and> (\<not> is_ok r \<longrightarrow> p' = p)"
  by (rule citation.push_bytes_refused [OF assms])

theorem refused_bytes_leave_no_trace_witness:
  "between_calls citation_start \<and> (\<exists>r p'. push_bytes push_citation (new_utf8_stream citation_start) [CHR 0xFF] = Some (r, p') \<and>
     (is_ok r \<longleftrightarrow> (\<exists>q. valid_utf8 ([CHR 0xFF] @ q))) \<and> (\<not> is_ok r \<longrightarrow> p' = new_utf8_stream citation_start))"
  using refused_bytes_leave_no_trace [of "new_utf8_stream citation_start" "[CHR 0xFF]"] citation_start_ok
  by (simp add: new_utf8_stream_def)

end
