(* ===== verification/Stream_Lines.thy ===== *)
theory Stream_Lines
  imports Stream_Text
begin

text \<open>
  Blocks between tags that stand alone on a line (\<^verbatim>\<open>utils/stream-parser/src/tagged_line_parser.rs\<close>) and the
  plan blocks of the assistant (\<^verbatim>\<open>proposed_plan.rs\<close>). The parser decides on a line as soon as it cannot be
  a tag any more; the theory shows that it decides like a reader of whole lines.
\<close>

section \<open>Definitions\<close>

record 't tag_spec =
  ts_open :: string
  ts_close :: string
  ts_tag :: 't

datatype 't line_segment = NormalText string | TagStart 't | TagDelta 't string | TagEnd 't

record 't line_parser =
  lp_specs :: "'t tag_spec list"
  lp_active :: "'t option"
  lp_detect :: bool
  lp_buffer :: string

definition new_line_parser :: "'t tag_spec list \<Rightarrow> 't line_parser" where
  "new_line_parser specs = \<lparr>lp_specs = specs, lp_active = None, lp_detect = True, lp_buffer = []\<rparr>"

fun push_segment :: "'t line_segment list \<Rightarrow> 't line_segment \<Rightarrow> 't line_segment list" where
  "push_segment segments (NormalText delta) =
     (if delta = [] then segments
      else case segments of
          [] \<Rightarrow> [NormalText delta]
        | _ \<Rightarrow> (case last segments of
              NormalText existing \<Rightarrow> butlast segments @ [NormalText (existing @ delta)]
            | _ \<Rightarrow> segments @ [NormalText delta]))"
| "push_segment segments (TagDelta tag delta) =
     (if delta = [] then segments
      else case segments of
          [] \<Rightarrow> [TagDelta tag delta]
        | _ \<Rightarrow> (case last segments of
              TagDelta existing_tag existing \<Rightarrow>
                if existing_tag = tag then butlast segments @ [TagDelta existing_tag (existing @ delta)]
                else segments @ [TagDelta tag delta]
            | _ \<Rightarrow> segments @ [TagDelta tag delta]))"
| "push_segment segments (TagStart tag) = segments @ [TagStart tag]"
| "push_segment segments (TagEnd tag) = segments @ [TagEnd tag]"

definition text_segment :: "'t option \<Rightarrow> string \<Rightarrow> 't line_segment" where
  "text_segment active s = (case active of Some tag \<Rightarrow> TagDelta tag s | None \<Rightarrow> NormalText s)"

definition push_text :: "'t line_parser \<Rightarrow> string \<Rightarrow> 't line_segment list \<Rightarrow> 't line_segment list" where
  "push_text p s segments = push_segment segments (text_segment (lp_active p) s)"

definition is_tag_prefix :: "'t tag_spec list \<Rightarrow> string \<Rightarrow> bool" where
  "is_tag_prefix specs slug =
     (let slug = trim_end slug in list_ex (\<lambda>spec. prefix slug (ts_open spec) \<or> prefix slug (ts_close spec)) specs)"

definition match_open :: "'t tag_spec list \<Rightarrow> string \<Rightarrow> 't option" where
  "match_open specs slug = map_option ts_tag (find (\<lambda>spec. ts_open spec = slug) specs)"

definition match_close :: "'t tag_spec list \<Rightarrow> string \<Rightarrow> 't option" where
  "match_close specs slug = map_option ts_tag (find (\<lambda>spec. ts_close spec = slug) specs)"

text \<open>The text of a line without its line end and without white space around it.\<close>

definition line_slug :: "string \<Rightarrow> string" where
  "line_slug line = trim_end (trim_start (case strip_suffix [NL] line of Some body \<Rightarrow> body | None \<Rightarrow> line))"

definition finish_tag_line :: "'t line_parser \<Rightarrow> 't line_segment list \<Rightarrow> 't line_parser \<times> 't line_segment list" where
  "finish_tag_line p segments =
     (let line = lp_buffer p; p = p\<lparr>lp_buffer := [], lp_detect := True\<rparr>; slug = line_slug line
      in case (match_open (lp_specs p) slug, lp_active p) of
           (Some tag, None) \<Rightarrow> (p\<lparr>lp_active := Some tag\<rparr>, push_segment segments (TagStart tag))
         | _ \<Rightarrow>
             (case match_close (lp_specs p) slug of
                Some tag \<Rightarrow>
                  if lp_active p = Some tag then (p\<lparr>lp_active := None\<rparr>, push_segment segments (TagEnd tag))
                  else (p, push_text p line segments)
              | None \<Rightarrow> (p, push_text p line segments)))"

text \<open>One character of the loop of \<^verbatim>\<open>parse\<close>, with the text outside tags that is not yet pushed.\<close>

fun parse_char ::
  "string \<Rightarrow> 't line_parser \<times> string \<times> 't line_segment list \<Rightarrow> 't line_parser \<times> string \<times> 't line_segment list" where
  "parse_char ch (p, run, segments) =
     (if lp_detect p then
        (let segments = (if run \<noteq> [] then push_text p run segments else segments);
             p = p\<lparr>lp_buffer := lp_buffer p @ ch\<rparr>
         in if ch = [NL] then (let (p', segments') = finish_tag_line p segments in (p', [], segments'))
            else let slug = trim_start (lp_buffer p)
              in if slug = [] \<or> is_tag_prefix (lp_specs p) slug then (p, [], segments)
                 else (p\<lparr>lp_buffer := [], lp_detect := False\<rparr>, [], push_text p (lp_buffer p) segments))
      else if ch = [NL] then (p\<lparr>lp_detect := True\<rparr>, [], push_text p (run @ ch) segments)
      else (p, run @ ch, segments))"

definition parse_lines :: "'t line_parser \<Rightarrow> string \<Rightarrow> 't line_segment list \<times> 't line_parser" where
  "parse_lines p delta =
     (let (p', run, segments) = fold parse_char (utf8_chars delta) (p, [], [])
      in (if run \<noteq> [] then push_text p' run segments else segments, p'))"

definition finish_lines :: "'t line_parser \<Rightarrow> 't line_segment list \<times> 't line_parser" where
  "finish_lines p =
     (let (p1, segments) =
            (if lp_buffer p = [] then (p, []) else finish_tag_line p []);
          segments' = (case lp_active p1 of Some tag \<Rightarrow> push_segment segments (TagEnd tag) | None \<Rightarrow> segments)
      in (segments', p1\<lparr>lp_active := None, lp_detect := True\<rparr>))"

subsection \<open>Plans\<close>

datatype plan_tag = ProposedPlan

datatype plan_segment = PlanNormal string | ProposedPlanStart | ProposedPlanDelta string | ProposedPlanEnd

definition OPEN_TAG :: string where
  "OPEN_TAG = ''<proposed_plan>''"

definition CLOSE_TAG :: string where
  "CLOSE_TAG = ''</proposed_plan>''"

definition plan_specs :: "plan_tag tag_spec list" where
  "plan_specs = [\<lparr>ts_open = OPEN_TAG, ts_close = CLOSE_TAG, ts_tag = ProposedPlan\<rparr>]"

definition new_plan_parser :: "plan_tag line_parser" where
  "new_plan_parser = new_line_parser plan_specs"

fun plan_segment_of :: "plan_tag line_segment \<Rightarrow> plan_segment" where
  "plan_segment_of (NormalText s) = PlanNormal s"
| "plan_segment_of (TagStart ProposedPlan) = ProposedPlanStart"
| "plan_segment_of (TagDelta ProposedPlan s) = ProposedPlanDelta s"
| "plan_segment_of (TagEnd ProposedPlan) = ProposedPlanEnd"

definition map_segments :: "plan_tag line_segment list \<Rightarrow> plan_segment text_chunk" where
  "map_segments segments =
     fold (\<lambda>segment out.
       let mapped = plan_segment_of segment;
           out = (case mapped of PlanNormal s \<Rightarrow> out\<lparr>visible_text := visible_text out @ s\<rparr> | _ \<Rightarrow> out)
       in out\<lparr>extracted := extracted out @ [mapped]\<rparr>) segments default_chunk"

definition push_plan :: "(plan_tag line_parser, plan_segment) push_str" where
  "push_plan p chunk = (let (segments, p') = parse_lines p chunk in Some (map_segments segments, p'))"

definition finish_plan :: "plan_tag line_parser \<Rightarrow> plan_segment text_chunk \<times> plan_tag line_parser" where
  "finish_plan p = (let (segments, p') = finish_lines p in (map_segments segments, p'))"

definition strip_proposed_plan_blocks :: "string \<Rightarrow> string option" where
  "strip_proposed_plan_blocks s =
     Option.bind (push_plan new_plan_parser s) (\<lambda>(out, p).
       Some (visible_text out @ visible_text (fst (finish_plan p))))"

fun collect_plan :: "plan_segment \<Rightarrow> bool \<times> string \<Rightarrow> bool \<times> string" where
  "collect_plan ProposedPlanStart (saw_plan_block, plan_text) = (True, [])"
| "collect_plan (ProposedPlanDelta delta) (saw_plan_block, plan_text) = (saw_plan_block, plan_text @ delta)"
| "collect_plan ProposedPlanEnd acc = acc"
| "collect_plan (PlanNormal _) acc = acc"

definition extract_proposed_plan_text :: "string \<Rightarrow> string option option" where
  "extract_proposed_plan_text s =
     Option.bind (push_plan new_plan_parser s) (\<lambda>(out, p).
       let (saw_plan_block, plan_text) = fold collect_plan (extracted out @ extracted (fst (finish_plan p))) (False, [])
       in Some (if saw_plan_block then Some plan_text else None))"

section \<open>Segments up to merging\<close>

definition merged :: "'t line_segment list \<Rightarrow> 't line_segment list" where
  "merged segments = fold (\<lambda>segment acc. push_segment acc segment) segments []"

lemma push_segment_last [simp]:
  "push_segment [] (NormalText d) = (if d = [] then [] else [NormalText d])"
  "push_segment [] (TagDelta tag d) = (if d = [] then [] else [TagDelta tag d])"
  "push_segment (us @ [z]) (NormalText d) =
     (if d = [] then us @ [z]
      else case z of NormalText e \<Rightarrow> us @ [NormalText (e @ d)] | _ \<Rightarrow> us @ [z, NormalText d])"
  "push_segment (us @ [z]) (TagDelta tag d) =
     (if d = [] then us @ [z]
      else case z of
          TagDelta tag' e \<Rightarrow> if tag' = tag then us @ [TagDelta tag' (e @ d)] else us @ [z, TagDelta tag d]
        | _ \<Rightarrow> us @ [z, TagDelta tag d])"
  by (cases us; auto split: line_segment.split)+

declare push_segment.simps(1,2) [simp del]

lemmas push_segment_ends [simp] =
  push_segment_last(3,4) [of "[]", simplified] push_segment_last(3,4) [of "us @ [x]" for us x, simplified]

lemma push_text_empty [simp]: "push_segment acc (text_segment active []) = acc"
  by (simp add: text_segment_def push_segment.simps split: option.split)

lemma push_text_twice:
  "push_segment (push_segment acc (text_segment active a)) (text_segment active b) = push_segment acc (text_segment active (a @ b))"
  by (cases acc rule: rev_cases)
    (auto simp: text_segment_def split: option.split line_segment.split)

lemma push_segment_cases:
  obtains "push_segment zs y = zs @ [y]" | "push_segment zs y = zs" and "\<And>acc. push_segment acc y = acc"
  | active a b us where "y = text_segment active b" and "zs = us @ [text_segment active a]"
      and "push_segment zs y = us @ [text_segment active (a @ b)]"
proof (cases "push_segment zs y = zs @ [y]")
  case False
  note goals = that
  have by_text: "thesis" if y: "y = text_segment active b" for active b
  proof (cases "b = []")
    case True
    then show ?thesis
      using goals(2) y by simp
  next
    case ne: False
    then obtain us z where zs: "zs = us @ [z]"
      using False y by (cases zs rule: rev_cases) (auto simp: text_segment_def split: option.splits)
    obtain a where "z = text_segment active a"
      using False y ne zs by (cases z) (auto simp: text_segment_def split: option.splits if_splits)
    then show ?thesis
      using goals(3) [OF y] zs ne by (auto simp: text_segment_def y split: option.split)
  qed
  show ?thesis
  proof (cases y)
    case (NormalText b)
    then show ?thesis
      using by_text [of None b] by (simp add: text_segment_def)
  next
    case (TagDelta tag b)
    then show ?thesis
      using by_text [of "Some tag" b] by (simp add: text_segment_def)
  qed (use False in simp_all)
qed (use that in simp)

lemma fold_push_segment:
  "fold (\<lambda>segment acc. push_segment acc segment) (push_segment zs y) acc =
   push_segment (fold (\<lambda>segment acc. push_segment acc segment) zs acc) y"
  by (rule push_segment_cases [of zs y]) (auto simp: push_text_twice)

lemma fold_push_merged:
  "fold (\<lambda>segment acc. push_segment acc segment) (merged ys) acc = fold (\<lambda>segment acc. push_segment acc segment) ys acc"
  by (induction ys rule: rev_induct) (simp_all add: merged_def fold_push_segment)

lemma merged_Nil [simp]: "merged [] = []"
  by (simp add: merged_def)

lemma merged_append: "merged (xs @ ys) = fold (\<lambda>segment acc. push_segment acc segment) ys (merged xs)"
  by (simp add: merged_def)

lemma merged_left: "merged (merged xs @ ys) = merged (xs @ ys)"
  by (simp add: merged_def fold_push_merged [unfolded merged_def])

lemma merged_right: "merged (xs @ merged ys) = merged (xs @ ys)"
  by (simp add: merged_append fold_push_merged)

lemma merged_idem [simp]: "merged (merged xs) = merged xs"
  using merged_left [of xs "[]"] by simp

lemma merged_cong: "merged xs = merged xs' \<Longrightarrow> merged ys = merged ys' \<Longrightarrow> merged (xs @ ys) = merged (xs' @ ys')"
  by (metis merged_left merged_right)

lemma merged_texts: "merged (map (text_segment active) cs) = merged [text_segment active (concat cs)]"
proof (induction cs rule: rev_induct)
  case (snoc c cs)
  then show ?case
    by (simp add: merged_append) (simp add: merged_def push_text_twice)
qed (simp add: merged_def)

section \<open>Characters one by one\<close>

text \<open>The segments of a whole line, and those that each character gives, before they are merged.\<close>

definition read_line :: "'t tag_spec list \<Rightarrow> 't option \<Rightarrow> string \<Rightarrow> 't line_segment list \<times> 't option" where
  "read_line specs active line =
     (case (match_open specs (line_slug line), active) of
        (Some tag, None) \<Rightarrow> ([TagStart tag], Some tag)
      | _ \<Rightarrow>
          (case match_close specs (line_slug line) of
             Some tag \<Rightarrow> if active = Some tag then ([TagEnd tag], None) else ([text_segment active line], active)
           | None \<Rightarrow> ([text_segment active line], active)))"

definition undecided :: "'t line_parser \<Rightarrow> string \<Rightarrow> bool" where
  "undecided p s \<longleftrightarrow> trim_start s = [] \<or> is_tag_prefix (lp_specs p) (trim_start s)"

fun emit_char :: "'t line_parser \<Rightarrow> string \<Rightarrow> 't line_segment list \<times> 't line_parser" where
  "emit_char p ch =
     (if lp_detect p then
        (let p = p\<lparr>lp_buffer := lp_buffer p @ ch\<rparr>
         in if ch = [NL] then
              (let (segments, active) = read_line (lp_specs p) (lp_active p) (lp_buffer p)
               in (segments, p\<lparr>lp_buffer := [], lp_detect := True, lp_active := active\<rparr>))
            else if undecided p (lp_buffer p) then ([], p)
            else ([text_segment (lp_active p) (lp_buffer p)], p\<lparr>lp_buffer := [], lp_detect := False\<rparr>))
      else ([text_segment (lp_active p) ch], if ch = [NL] then p\<lparr>lp_detect := True\<rparr> else p))"

fun emit_chars :: "'t line_parser \<Rightarrow> string list \<Rightarrow> 't line_segment list \<times> 't line_parser" where
  "emit_chars p [] = ([], p)"
| "emit_chars p (ch # chs) =
     (let (segments, p') = emit_char p ch; (rest, p'') = emit_chars p' chs in (segments @ rest, p''))"

lemma finish_tag_line_read:
  "finish_tag_line p segments =
     (let (new, active) = read_line (lp_specs p) (lp_active p) (lp_buffer p)
      in (p\<lparr>lp_buffer := [], lp_detect := True, lp_active := active\<rparr>, fold (\<lambda>segment acc. push_segment acc segment) new segments))"
  by (auto simp: finish_tag_line_def read_line_def push_text_def Let_def split: option.split)

lemma emit_chars_append:
  "emit_chars p (as @ bs) = (let (x, p') = emit_chars p as; (y, p'') = emit_chars p' bs in (x @ y, p''))"
  by (induction as arbitrary: p) (auto simp: Let_def split: prod.split)

definition flushed :: "'t line_parser \<Rightarrow> string \<Rightarrow> 't line_segment list \<Rightarrow> 't line_segment list" where
  "flushed p run segments = (if run \<noteq> [] then push_text p run segments else segments)"

lemma flushed_push: "flushed p run segments = push_segment segments (text_segment (lp_active p) run)"
  by (simp add: flushed_def push_text_def)

lemma parse_char_emit:
  assumes "parse_char ch (p, run, segments) = (p', run', segments')" and "run = [] \<or> \<not> lp_detect p"
  shows "emit_char p ch = (fst (emit_char p ch), p') \<and> (run' = [] \<or> \<not> lp_detect p') \<and>
    flushed p' run' segments' = fold (\<lambda>segment acc. push_segment acc segment) (fst (emit_char p ch)) (flushed p run segments)"
proof (cases "lp_detect p")
  case True
  then show ?thesis
    using assms
    by (auto simp: Let_def finish_tag_line_read undecided_def flushed_push push_text_def split: if_splits prod.splits)
next
  case False
  then show ?thesis
    using assms by (auto simp: flushed_push push_text_def push_text_twice split: if_splits)
qed

lemma parse_chars_emit:
  assumes "fold parse_char chs (p, run, segments) = (p', run', segments')" and "run = [] \<or> \<not> lp_detect p"
  shows "snd (emit_chars p chs) = p' \<and>
    flushed p' run' segments' = fold (\<lambda>segment acc. push_segment acc segment) (fst (emit_chars p chs)) (flushed p run segments)"
  using assms
proof (induction chs arbitrary: p run segments)
  case (Cons ch chs)
  obtain p1 run1 segments1 where step: "parse_char ch (p, run, segments) = (p1, run1, segments1)"
    by (metis prod_cases3)
  note one = parse_char_emit [OF step Cons.prems(2)]
  have "fold parse_char chs (p1, run1, segments1) = (p', run', segments')"
    using Cons.prems(1) step by simp
  from Cons.IH [OF this] one show ?case
    by (auto simp del: emit_char.simps parse_char.simps split: prod.split)
qed simp

lemma parse_lines_emit: "parse_lines p delta = (merged (fst (emit_chars p (utf8_chars delta))), snd (emit_chars p (utf8_chars delta)))"
proof -
  obtain p' run segments where parsed: "fold parse_char (utf8_chars delta) (p, [], []) = (p', run, segments)"
    by (metis prod_cases3)
  show ?thesis
    using parse_chars_emit [OF parsed] by (simp add: parse_lines_def parsed merged_def flushed_def)
qed

section \<open>The plan parser does not see the cuts\<close>

fun line_segment_of :: "plan_segment \<Rightarrow> plan_tag line_segment" where
  "line_segment_of (PlanNormal s) = NormalText s"
| "line_segment_of ProposedPlanStart = TagStart ProposedPlan"
| "line_segment_of (ProposedPlanDelta s) = TagDelta ProposedPlan s"
| "line_segment_of ProposedPlanEnd = TagEnd ProposedPlan"

lemma segment_of_segment [simp]: "line_segment_of (plan_segment_of x) = x" "plan_segment_of (line_segment_of y) = y"
  by (cases x rule: plan_segment_of.cases; simp) (cases y; simp)

definition merged_plan :: "plan_segment list \<Rightarrow> plan_segment list" where
  "merged_plan segments = map plan_segment_of (merged (map line_segment_of segments))"

fun normal_text :: "'t line_segment \<Rightarrow> string" where
  "normal_text (NormalText s) = s"
| "normal_text _ = []"

lemma map_segments_eq: "map_segments segments = \<lparr>visible_text = concat (map normal_text segments), extracted = map plan_segment_of segments\<rparr>"
proof (induction segments rule: rev_induct)
  case (snoc x segments)
  then show ?case
    by (cases x rule: plan_segment_of.cases) (simp_all add: map_segments_def Let_def)
qed (simp add: map_segments_def default_chunk_def)

lemma normal_text_push: "concat (map normal_text (push_segment acc x)) = concat (map normal_text acc) @ normal_text x"
  by (cases x; cases acc rule: rev_cases) (auto split: line_segment.split)

lemma normal_text_merged [simp]: "concat (map normal_text (merged segments)) = concat (map normal_text segments)"
  by (induction segments rule: rev_induct) (simp_all add: merged_append normal_text_push)

lemma merged_plan_of [simp]: "merged_plan (map plan_segment_of xs) = map plan_segment_of (merged xs)"
  by (simp add: merged_plan_def comp_def)

lemma merged_plan_append: "merged_plan (map plan_segment_of xs @ map plan_segment_of ys) = map plan_segment_of (merged (xs @ ys))"
  by (simp add: merged_plan_def comp_def)

lemma push_plan_eq:
  "push_plan p chunk =
     Some (map_segments (merged (fst (emit_chars p (utf8_chars chunk)))), snd (emit_chars p (utf8_chars chunk)))"
  by (simp add: push_plan_def parse_lines_emit)

interpretation plan: stream_parser push_plan "\<lambda>_. True" merged_plan
proof (unfold_locales, goal_cases)
  case (3 s a b c1 s1 c2 s2)
  obtain x p where x: "emit_chars s (utf8_chars a) = (x, p)"
    by (cases "emit_chars s (utf8_chars a)")
  obtain y q where y: "emit_chars p (utf8_chars b) = (y, q)"
    by (cases "emit_chars p (utf8_chars b)")
  have "emit_chars s (utf8_chars (a @ b)) = (x @ y, q)"
    using 3(2) by (simp add: utf8_chars_append emit_chars_append x y)
  then show ?case
    using 3(4,5) x y
    by (auto simp: push_plan_eq map_segments_eq merged_plan_append merged_left merged_right)
qed (auto simp: push_plan_eq map_segments_eq default_chunk_def merged_plan_def merged_left merged_right comp_def)

section \<open>Trimming by code points\<close>

definition code_point :: "string \<Rightarrow> bool" where
  "code_point c \<longleftrightarrow> read_code_point c = CodePoint (length c)"

definition is_white :: "string \<Rightarrow> bool" where
  "is_white c \<longleftrightarrow> c \<in> set white_space"

lemma code_point_nonempty: "code_point c \<Longrightarrow> c \<noteq> []"
  by (auto simp: code_point_def)

lemma white_space_code_points: "is_white c \<Longrightarrow> code_point c"
proof -
  have "list_all code_point white_space"
    by code_simp
  then show "is_white c \<Longrightarrow> code_point c"
    by (simp add: is_white_def list_all_iff)
qed

lemma code_point_bytes:
  assumes "code_point c"
  shows "\<not> continuation (c ! 0)" and "0 < i \<Longrightarrow> i < length c \<Longrightarrow> continuation (c ! i)"
proof -
  obtain a s where c: "c = a # s"
    using code_point_nonempty [OF assms] by (cases c) auto
  show "\<not> continuation (c ! 0)"
    using assms by (auto simp: c code_point_def continuation_def split: if_splits)
  have "list_all continuation s"
    using assms by (auto simp: c code_point_def second_byte_ok_def split: if_splits list.splits)
  then show "continuation (c ! i)" if "0 < i" "i < length c"
    using that by (cases i) (auto simp: c list_all_length)
qed

lemma utf8_chars_code_points:
  assumes "valid_utf8 s"
  shows "list_all code_point (utf8_chars s)"
  using assms
proof (induction s rule: utf8_induct)
  case (code_point c s)
  then show ?case
    using read_code_point_cut [of c s "length c"] by (simp add: utf8_chars_code_point code_point_def)
qed simp

lemma code_points_prefix:
  assumes "code_point c" and "code_point w" and "prefix w (c @ s)"
  shows "w = c"
proof -
  obtain t where t: "c @ s = w @ t"
    using assms(3) by (auto simp: prefix_def)
  have "CodePoint (length c) = CodePoint (length w)"
    using read_code_point_append(1) [of c "length c" s] read_code_point_append(1) [of w "length w" t] assms(1,2) t
    by (simp add: code_point_def)
  then show ?thesis
    using t by simp
qed

lemma code_points_suffix:
  assumes "code_point c" and "code_point w" and "suffix w (s @ c)"
  shows "w = c"
proof -
  have no_tail: "False" if "code_point a" "code_point b" "a = u @ b" "u \<noteq> []" for a b u
  proof -
    have "a ! length u = b ! 0"
      using code_point_nonempty [OF that(2)] that(3) by (simp add: nth_append)
    then show False
      using code_point_bytes(1) [OF that(2)] code_point_bytes(2) [OF that(1), of "length u"] that(3,4)
        code_point_nonempty [OF that(2)] by simp
  qed
  obtain t where "s @ c = t @ w"
    using assms(3) by (auto simp: suffix_def)
  then obtain u where "c = u @ w \<or> w = u @ c"
    by (auto simp: append_eq_append_conv2)
  then show ?thesis
    using no_tail [OF assms(1,2), of u] no_tail [OF assms(2,1), of u] by auto
qed

lemma trim_start_chars: "list_all code_point cs \<Longrightarrow> trim_start (concat cs) = concat (dropWhile is_white cs)"
proof (induction cs)
  case (Cons c cs)
  show ?case
  proof (cases "is_white c")
    case True
    have "find (\<lambda>w. w \<noteq> [] \<and> prefix w (c @ concat cs)) white_space = Some c"
    proof (cases "find (\<lambda>w. w \<noteq> [] \<and> prefix w (c @ concat cs)) white_space")
      case None
      moreover have "c \<in> set white_space \<and> c \<noteq> [] \<and> prefix c (c @ concat cs)"
        using True code_point_nonempty [of c] Cons.prems by (simp add: is_white_def)
      ultimately show ?thesis
        unfolding find_None_iff by blast
    next
      case (Some w)
      then have "w \<in> set white_space" "prefix w (c @ concat cs)"
        by (auto simp: find_Some_iff)
      then show ?thesis
        using Some code_points_prefix [of c w "concat cs"] white_space_code_points [of w] Cons.prems by (simp add: is_white_def)
    qed
    then show ?thesis
      using True Cons by (simp add: trim_start_def strip_all.simps [of _ "c @ concat cs"])
  next
    case False
    then have "\<not> starts_ws white_space (c @ concat cs)"
      using code_points_prefix [of c _ "concat cs"] white_space_code_points Cons.prems by (auto simp: starts_ws_def is_white_def)
    then show ?thesis
      using False by (simp add: trim_start_def strip_all_id)
  qed
qed simp

lemma trim_end_chars: "list_all code_point cs \<Longrightarrow> trim_end (concat cs) = concat (rev (dropWhile is_white (rev cs)))"
proof (induction cs rule: rev_induct)
  case (snoc c cs)
  let ?ws = "map rev white_space" and ?s = "rev c @ rev (concat cs)"
  have white: "is_white w \<longleftrightarrow> w = c" if "w \<in> set white_space" "prefix (rev w) ?s" for w
    using code_points_suffix [of c w "concat cs"] white_space_code_points [of w] snoc.prems that
    by (auto simp: is_white_def suffix_to_prefix)
  show ?case
  proof (cases "is_white c")
    case True
    have "find (\<lambda>w. w \<noteq> [] \<and> prefix w ?s) ?ws = Some (rev c)"
    proof (cases "find (\<lambda>w. w \<noteq> [] \<and> prefix w ?s) ?ws")
      case None
      moreover have "rev c \<in> set ?ws \<and> rev c \<noteq> [] \<and> prefix (rev c) ?s"
        using True code_point_nonempty [of c] snoc.prems by (simp add: is_white_def)
      ultimately show ?thesis
        unfolding find_None_iff by blast
    next
      case (Some w)
      then have "w \<in> rev ` set white_space" "prefix w ?s"
        by (auto simp: find_Some_iff in_set_conv_nth image_iff)
      then show ?thesis
        using Some white by (auto simp: is_white_def)
    qed
    then show ?thesis
      using True snoc by (simp add: trim_end_def strip_all.simps [of _ ?s])
  next
    case False
    then have "\<not> starts_ws ?ws ?s"
      using white by (auto simp: starts_ws_def is_white_def)
    then show ?thesis
      using False by (simp add: trim_end_def strip_all_id)
  qed
qed simp

section \<open>Line by line\<close>

text \<open>The reference: whole lines, one after the other, and a block that is open at the end is closed.\<close>

fun read_lines :: "'t tag_spec list \<Rightarrow> 't option \<Rightarrow> string list \<Rightarrow> 't line_segment list \<times> 't option" where
  "read_lines specs active [] = ([], active)"
| "read_lines specs active (line # lines) =
     (let (segments, active') = read_line specs active line; (rest, active'') = read_lines specs active' lines
      in (segments @ rest, active''))"

definition closing :: "'t option \<Rightarrow> 't line_segment list" where
  "closing active = (case active of Some tag \<Rightarrow> [TagEnd tag] | None \<Rightarrow> [])"

definition read_text :: "'t tag_spec list \<Rightarrow> string \<Rightarrow> 't line_segment list" where
  "read_text specs s = (let (segments, active) = read_lines specs None (split_inclusive NL s) in merged (segments @ closing active))"

lemma dropWhile_take_prefix: "prefix (dropWhile P (take n xs)) (dropWhile P xs)"
proof (induction xs arbitrary: n)
  case (Cons x xs)
  then show ?case
    by (cases n) (auto simp: take_is_prefix)
qed simp

lemma prefix_concat: "prefix xs ys \<Longrightarrow> prefix (concat xs) (concat ys)"
  by (auto simp: prefix_def)

lemma trimmed_part:
  fixes es :: "string list"
  assumes "prefix xs es"
  shows "prefix (rev (dropWhile P (rev xs))) (rev (dropWhile P (rev es)))"
proof -
  let ?ds = "rev (dropWhile P (rev es))" and ?ws = "rev (takeWhile P (rev es))"
  have es: "es = ?ds @ ?ws"
    by (metis rev_append rev_rev_ident takeWhile_dropWhile_id)
  have self: "prefix (rev (dropWhile P (rev zs))) zs" for zs :: "string list"
    by (metis prefixI rev_append rev_rev_ident takeWhile_dropWhile_id)
  consider "prefix xs ?ds" | w where "xs = ?ds @ w" "prefix w ?ws"
    using assms es by (metis prefix_append)
  then show ?thesis
  proof cases
    case 1
    then show ?thesis
      using self prefix_order.trans by blast
  next
    case 2
    then have "\<forall>x \<in> set w. P x"
      using set_mono_prefix [OF 2(2)] set_takeWhileD by fastforce
    then have "dropWhile P (rev w @ rev ?ds) = dropWhile P (rev ?ds)"
      by (intro dropWhile_append2) simp
    then have "dropWhile P (rev xs) = dropWhile P (rev ?ds)"
      using 2(1) by (simp only: rev_append)
    then show ?thesis
      using self [of ?ds] by simp
  qed
qed

lemma tag_line_undecided:
  assumes "list_all code_point cs" and "spec \<in> set (lp_specs p)" and "trim_end (trim_start (concat cs)) \<in> {ts_open spec, ts_close spec}"
  shows "undecided p (concat (take n cs))"
proof -
  let ?es = "dropWhile is_white cs" and ?xs = "dropWhile is_white (take n cs)"
  have points: "list_all code_point ?es" "list_all code_point ?xs" "list_all code_point (take n cs)"
    using assms(1) by (auto simp: list_all_iff dest: set_dropWhileD in_set_takeD)
  have "prefix (trim_end (concat ?xs)) (trim_end (concat ?es))"
    unfolding trim_end_chars [OF points(1)] trim_end_chars [OF points(2)]
    by (intro prefix_concat trimmed_part dropWhile_take_prefix)
  then have "prefix (trim_end (trim_start (concat (take n cs)))) (trim_end (trim_start (concat cs)))"
    by (simp add: trim_start_chars assms(1) points(3))
  then show ?thesis
    using assms(2,3) by (auto simp: undecided_def is_tag_prefix_def Let_def list_ex_iff)
qed

lemma emit_chars_decided:
  "\<not> lp_detect p \<Longrightarrow> [NL] \<notin> set cs \<Longrightarrow> emit_chars p cs = (map (text_segment (lp_active p)) cs, p)"
  by (induction cs) auto

lemma emit_chars_line:
  assumes "lp_detect p" and "lp_buffer p = concat bs" and "[NL] \<notin> set cs"
  shows "emit_chars p cs = ([], p\<lparr>lp_buffer := concat (bs @ cs)\<rparr>) \<or>
    (\<exists>segments n. emit_chars p cs = (segments, p\<lparr>lp_buffer := [], lp_detect := False\<rparr>) \<and>
       merged segments = merged [text_segment (lp_active p) (concat (bs @ cs))] \<and> \<not> undecided p (concat (take n (bs @ cs))))"
  using assms
proof (induction cs arbitrary: p bs)
  case Nil
  then show ?case
    by simp
next
  case (Cons c cs)
  let ?s = "concat (bs @ [c])" and ?q = "p\<lparr>lp_buffer := [], lp_detect := False\<rparr>"
  show ?case
  proof (cases "undecided p ?s")
    case True
    let ?p = "p\<lparr>lp_buffer := ?s\<rparr>"
    have "emit_char p c = ([], ?p)"
      using Cons.prems True by (auto simp: undecided_def Let_def)
    moreover have "undecided ?p = undecided p"
      by (simp add: fun_eq_iff undecided_def)
    ultimately show ?thesis
      using Cons.IH [of ?p "bs @ [c]"] Cons.prems by (auto simp del: emit_char.simps)
  next
    case False
    have "emit_chars p (c # cs) = (map (text_segment (lp_active p)) (?s # cs), ?q)"
      using Cons.prems False emit_chars_decided [of ?q cs] by (auto simp: undecided_def Let_def)
    moreover have "\<not> undecided p (concat (take (Suc (length bs)) (bs @ c # cs)))"
      using False by simp
    ultimately show ?thesis
      using merged_texts [of "lp_active p" "?s # cs"]
      by (intro disjI2 exI [of _ "map (text_segment (lp_active p)) (?s # cs)"] exI [of _ "Suc (length bs)"])
        (simp del: emit_chars.simps)
  qed
qed

lemma read_line_text:
  assumes "list_all code_point cs" and "\<not> undecided p (concat (take n cs))" and "line_slug line = trim_end (trim_start (concat cs))"
  shows "read_line (lp_specs p) active line = ([text_segment active line], active)"
proof -
  have "match_open (lp_specs p) (line_slug line) = None" "match_close (lp_specs p) (line_slug line) = None"
    unfolding match_open_def match_close_def option.map_disc_iff find_None_iff assms(3)
    using tag_line_undecided [OF assms(1), of _ p n] assms(2) by (metis insertCI)+
  then show ?thesis
    by (simp add: read_line_def)
qed

lemma code_point_newline: "code_point c \<Longrightarrow> NL \<in> set c \<Longrightarrow> c = [NL]"
proof (cases c)
  case (Cons a s)
  assume c: "code_point c" "NL \<in> set c"
  have "\<not> continuation NL"
    by (simp add: continuation_def byte_of_def)
  then have "c ! 0 = NL"
    using c code_point_bytes(2) [OF c(1)] by (metis gr0I in_set_conv_nth)
  then show "c = [NL]"
    using c Cons by (auto simp: code_point_def byte_of_def split: if_splits)
qed simp

lemma no_newline: "list_all code_point cs \<Longrightarrow> [NL] \<notin> set cs \<Longrightarrow> NL \<notin> set (concat cs)"
  by (induction cs) (auto dest: code_point_newline)

text \<open>The line that is buffered, read as a line that the end of the text cuts off.\<close>

definition pending_line :: "'t line_parser \<Rightarrow> 't line_segment list \<times> 't option" where
  "pending_line p = (if lp_buffer p = [] then ([], lp_active p) else read_line (lp_specs p) (lp_active p) (lp_buffer p))"

lemma line_slug_newline [simp]: "line_slug (s @ [NL]) = trim_end (trim_start s)"
proof -
  have "strip_suffix [NL] (s @ [NL]) = Some s"
    by (simp add: strip_suffix_Some_iff)
  then show ?thesis
    by (simp add: line_slug_def)
qed

lemma line_slug_open: "NL \<notin> set s \<Longrightarrow> line_slug s = trim_end (trim_start s)"
proof -
  assume "NL \<notin> set s"
  then have "strip_suffix [NL] s = None"
    by (auto simp: strip_suffix_None_iff suffix_def)
  then show ?thesis
    by (simp add: line_slug_def)
qed

lemma emit_whole_line:
  assumes "list_all code_point cs" and "[NL] \<notin> set cs" and "lp_detect p" and "lp_buffer p = []"
    and "read_line (lp_specs p) (lp_active p) (concat cs @ [NL]) = (segments, active)"
  shows "\<exists>new. emit_chars p (cs @ [[NL]]) = (new, p\<lparr>lp_active := active\<rparr>) \<and> merged new = merged segments"
proof -
  from emit_chars_line [of p "[]" cs] assms(2-4) consider
    "emit_chars p cs = ([], p\<lparr>lp_buffer := concat cs\<rparr>)"
    | new n where "emit_chars p cs = (new, p\<lparr>lp_buffer := [], lp_detect := False\<rparr>)"
      "merged new = merged [text_segment (lp_active p) (concat cs)]" "\<not> undecided p (concat (take n cs))"
    by auto
  then show ?thesis
  proof cases
    case 1
    then show ?thesis
      using assms by (simp add: emit_chars_append Let_def)
  next
    case 2
    have "segments = [text_segment (lp_active p) (concat cs @ [NL])]" "active = lp_active p"
      using read_line_text [OF assms(1) 2(3), of "concat cs @ [NL]"] assms(5) by auto
    moreover have "merged (new @ [text_segment (lp_active p) [NL]]) = merged [text_segment (lp_active p) (concat cs @ [NL])]"
      using 2(2) by (simp add: merged_append) (simp add: merged_def push_text_twice)
    ultimately show ?thesis
      using 2(1) assms(3,4) by (simp add: emit_chars_append Let_def)
  qed
qed

lemma emit_last_line:
  assumes "list_all code_point cs" and "cs \<noteq> []" and "[NL] \<notin> set cs" and "lp_detect p" and "lp_buffer p = []"
    and "read_line (lp_specs p) (lp_active p) (concat cs) = (segments, active)" and "emit_chars p cs = (new, p')"
  shows "merged (new @ fst (pending_line p')) = merged segments \<and> snd (pending_line p') = active"
proof -
  have ne: "concat cs \<noteq> []"
    using assms(1,2) code_point_nonempty by (cases cs) auto
  have slug: "line_slug (concat cs) = trim_end (trim_start (concat cs))"
    by (rule line_slug_open [OF no_newline [OF assms(1,3)]])
  from emit_chars_line [of p "[]" cs] assms(3-5) consider
    "emit_chars p cs = ([], p\<lparr>lp_buffer := concat cs\<rparr>)"
    | n where "emit_chars p cs = (new, p\<lparr>lp_buffer := [], lp_detect := False\<rparr>)"
      "merged new = merged [text_segment (lp_active p) (concat cs)]" "\<not> undecided p (concat (take n cs))"
    using assms(7) by auto
  then show ?thesis
  proof cases
    case 1
    then show ?thesis
      using assms(6,7) ne by (auto simp: pending_line_def)
  next
    case 2
    then show ?thesis
      using read_line_text [OF assms(1) 2(3) slug, of "lp_active p"] assms(6,7) by (auto simp: pending_line_def)
  qed
qed

lemma emit_lines:
  assumes "list_all code_point cs" and "lp_detect p" and "lp_buffer p = []" and "emit_chars p cs = (new, p')"
    and "read_lines (lp_specs p) (lp_active p) (split_inclusive NL (concat cs)) = (segments, active)"
  shows "merged (new @ fst (pending_line p')) = merged segments \<and> snd (pending_line p') = active"
  using assms
proof (induction "length cs" arbitrary: cs p new segments rule: less_induct)
  case less
  show ?case
  proof (cases "[NL] \<in> set cs")
    case False
    show ?thesis
    proof (cases "cs = []")
      case True
      then show ?thesis
        using less.prems by (auto simp: pending_line_def)
    next
      case ne: False
      then have "concat cs \<noteq> []" "NL \<notin> set (concat cs)"
        using less.prems(1) no_newline [OF less.prems(1) False] code_point_nonempty by (cases cs; auto)+
      then show ?thesis
        using emit_last_line [OF less.prems(1) ne False less.prems(2,3) _ less.prems(4)] less.prems(5)
        by (auto simp: split_inclusive_no_sep Let_def split: prod.splits)
    qed
  next
    case True
    then obtain as bs where cs: "cs = as @ [NL] # bs" "[NL] \<notin> set as"
      by (meson split_list_first)
    have points: "list_all code_point as" "list_all code_point bs"
      using less.prems(1) cs by auto
    have lines: "split_inclusive NL (concat cs) = (concat as @ [NL]) # split_inclusive NL (concat bs)"
      using split_inclusive_line [OF no_newline [OF points(1) cs(2)]] cs(1) by simp
    obtain s1 a1 where one: "read_line (lp_specs p) (lp_active p) (concat as @ [NL]) = (s1, a1)"
      by fastforce
    obtain s2 where rest: "read_lines (lp_specs p) a1 (split_inclusive NL (concat bs)) = (s2, active)" "segments = s1 @ s2"
      using less.prems(5) lines one by (auto simp: Let_def split: prod.splits)
    let ?p = "p\<lparr>lp_active := a1\<rparr>"
    obtain n1 where n1: "emit_chars p (as @ [[NL]]) = (n1, ?p)" "merged n1 = merged s1"
      using emit_whole_line [OF points(1) cs(2) less.prems(2,3) one] by blast
    obtain n2 where n2: "emit_chars ?p bs = (n2, p')" "new = n1 @ n2"
      using less.prems(4) n1(1) emit_chars_append [of p "as @ [[NL]]" bs] cs(1) by (auto simp: Let_def split: prod.splits)
    have "merged (n2 @ fst (pending_line p')) = merged s2 \<and> snd (pending_line p') = active"
      using less.hyps [OF _ points(2) _ _ n2(1)] less.prems(2,3) rest(1) cs(1) by simp
    then show ?thesis
      using n1(2) n2(2) rest(2) merged_cong [of n1 s1] by simp
  qed
qed

lemma closing_pushed:
  "(case active of Some tag \<Rightarrow> push_segment acc (TagEnd tag) | None \<Rightarrow> acc) = fold (\<lambda>segment acc. push_segment acc segment) (closing active) acc"
  by (simp add: closing_def split: option.split)

lemma finish_lines_pending: "fst (finish_lines p) = merged (fst (pending_line p) @ closing (snd (pending_line p)))"
  by (simp add: finish_lines_def pending_line_def finish_tag_line_read closing_pushed merged_def split: prod.split)

lemma parse_then_finish:
  assumes "valid_utf8 s" and "parse_lines (new_line_parser specs) s = (segments, p)"
  shows "merged (segments @ fst (finish_lines p)) = read_text specs s"
proof -
  let ?p = "new_line_parser specs"
  obtain new where new: "emit_chars ?p (utf8_chars s) = (new, p)" "segments = merged new"
    using assms(2) by (cases "emit_chars ?p (utf8_chars s)") (simp add: parse_lines_emit)
  obtain rs active where read: "read_lines specs None (split_inclusive NL s) = (rs, active)"
    by fastforce
  have "merged (new @ fst (pending_line p)) = merged rs \<and> snd (pending_line p) = active"
    using emit_lines [OF utf8_chars_code_points [OF assms(1)] _ _ new(1)] read by (simp add: new_line_parser_def)
  then have "merged ((new @ fst (pending_line p)) @ closing (snd (pending_line p))) = merged (rs @ closing active)"
    using merged_cong [of "new @ fst (pending_line p)" rs "closing active" "closing active"] by simp
  then show ?thesis
    by (simp add: new(2) read read_text_def finish_lines_pending merged_left merged_right)
qed

lemma push_then_finish_plan:
  assumes "valid_utf8 s" and "push_plan new_plan_parser s = Some (d, p)"
  shows "visible_text d @ visible_text (fst (finish_plan p)) = concat (map normal_text (read_text plan_specs s))"
    and "merged_plan (extracted d @ extracted (fst (finish_plan p))) = map plan_segment_of (read_text plan_specs s)"
proof -
  obtain segments where parsed: "parse_lines new_plan_parser s = (segments, p)" "d = map_segments segments"
    using assms(2) by (auto simp: push_plan_def split: prod.splits)
  have read: "merged (segments @ fst (finish_lines p)) = read_text plan_specs s"
    using parse_then_finish [OF assms(1)] parsed(1) by (simp add: new_plan_parser_def)
  have tail: "fst (finish_plan p) = map_segments (fst (finish_lines p))"
    by (simp add: finish_plan_def split: prod.split)
  show "visible_text d @ visible_text (fst (finish_plan p)) = concat (map normal_text (read_text plan_specs s))"
    unfolding read [symmetric] by (simp add: parsed(2) tail map_segments_eq)
  show "merged_plan (extracted d @ extracted (fst (finish_plan p))) = map plan_segment_of (read_text plan_specs s)"
    unfolding read [symmetric] by (simp add: parsed(2) tail map_segments_eq merged_plan_append)
qed

section \<open>Properties\<close>

text \<open>
  Plan blocks in streamed text. However the text is cut into chunks, the plan parser returns from every
  call, and its segments, together with those of the final call, are the segments of a reader that sees
  whole lines: the lines that are a tag apart from white space start and end a block, every other line
  is kept, and an open block is closed at the end. The visible text is the text outside the blocks.
\<close>

theorem plan_stream_reads_lines:
  assumes "list_all valid_utf8 chunks"
  shows "\<exists>c p. feed push_plan new_plan_parser chunks = Some (c, p) \<and>
    visible_text c @ visible_text (fst (finish_plan p)) = concat (map normal_text (read_text plan_specs (concat chunks))) \<and>
    merged_plan (extracted c @ extracted (fst (finish_plan p))) = map plan_segment_of (read_text plan_specs (concat chunks))"
proof -
  obtain c d p where feed: "feed push_plan new_plan_parser chunks = Some (c, p)"
    "push_plan new_plan_parser (concat chunks) = Some (d, p)" "same_output merged_plan c d"
    using plan.feed_concat [OF _ assms, of new_plan_parser] by auto
  note finished = push_then_finish_plan [OF valid_utf8_concat [OF assms] feed(2)]
  have "merged_plan (extracted c @ extracted (fst (finish_plan p))) = merged_plan (extracted d @ extracted (fst (finish_plan p)))"
    using feed(3) by (intro plan.norm_cong) (simp_all add: same_output_def)
  then show ?thesis
    using feed(1,3) finished by (auto simp: same_output_def)
qed

definition sample_plan_chunks :: "string list" where
  "sample_plan_chunks = [''Intro'' @ [NL] @ ''<prop'', ''osed_plan>'' @ [NL] @ ''- step'' @ [NL] @ ''</proposed_plan>'']"

theorem plan_stream_reads_lines_witness:
  "list_all valid_utf8 sample_plan_chunks \<and> (\<exists>c p. feed push_plan new_plan_parser sample_plan_chunks = Some (c, p) \<and>
     visible_text c @ visible_text (fst (finish_plan p)) = ''Intro'' @ [NL] \<and>
     merged_plan (extracted c @ extracted (fst (finish_plan p))) =
       [PlanNormal (''Intro'' @ [NL]), ProposedPlanStart, ProposedPlanDelta (''- step'' @ [NL]), ProposedPlanEnd])"
proof -
  have valid: "list_all valid_utf8 sample_plan_chunks"
    by code_simp
  have read: "read_text plan_specs (concat sample_plan_chunks) =
      [NormalText (''Intro'' @ [NL]), TagStart ProposedPlan, TagDelta ProposedPlan (''- step'' @ [NL]), TagEnd ProposedPlan]"
    by code_simp
  show ?thesis
    using plan_stream_reads_lines [OF valid] valid unfolding read by auto
qed

subsection \<open>Plan blocks are taken out\<close>

lemma fold_collect_push:
  "fold collect_plan (map plan_segment_of (push_segment zs y)) acc = fold collect_plan (map plan_segment_of (zs @ [y])) acc"
proof (rule push_segment_cases [of zs y])
  assume same: "push_segment zs y = zs" and none: "\<And>acc. push_segment acc y = acc"
  have "push_segment [] y = []"
    by (rule none)
  then have "y = NormalText [] \<or> (\<exists>tag. y = TagDelta tag [])"
    by (cases y) (auto split: if_splits)
  then have "collect_plan (plan_segment_of y) (saw, t) = (saw, t)" for saw t
    by (cases y rule: plan_segment_of.cases) auto
  then show ?thesis
    using same by (cases "fold collect_plan (map plan_segment_of zs) acc") simp
next
  fix active a b us
  assume y: "y = text_segment active b" and zs: "zs = us @ [text_segment active a]"
    and pushed: "push_segment zs y = us @ [text_segment active (a @ b)]"
  have "collect_plan (plan_segment_of (text_segment active (a @ b))) (saw, t) =
      collect_plan (plan_segment_of (text_segment active b)) (collect_plan (plan_segment_of (text_segment active a)) (saw, t))" for saw t
  proof (cases active)
    case (Some tag)
    then show ?thesis
      by (cases tag) (simp add: text_segment_def)
  qed (simp add: text_segment_def)
  then show ?thesis
    using y zs pushed by (cases "fold collect_plan (map plan_segment_of us) acc") simp
qed simp

lemma fold_collect_merged: "fold collect_plan (map plan_segment_of (merged xs)) acc = fold collect_plan (map plan_segment_of xs) acc"
proof (induction xs rule: rev_induct)
  case (snoc x xs)
  then show ?case
    by (simp add: merged_append fold_collect_push)
qed simp

lemma plan_read_text:
  assumes "valid_utf8 s"
  shows "strip_proposed_plan_blocks s = Some (concat (map normal_text (read_text plan_specs s)))"
    and "extract_proposed_plan_text s =
      (case fold collect_plan (map plan_segment_of (read_text plan_specs s)) (False, []) of
         (saw, plan_text) \<Rightarrow> Some (if saw then Some plan_text else None))"
proof -
  obtain segments p where parsed: "parse_lines new_plan_parser s = (segments, p)"
    by fastforce
  have read: "merged (segments @ fst (finish_lines p)) = read_text plan_specs s"
    using parse_then_finish [OF assms] parsed by (simp add: new_plan_parser_def)
  have tail: "fst (finish_plan p) = map_segments (fst (finish_lines p))"
    by (simp add: finish_plan_def split: prod.split)
  show "strip_proposed_plan_blocks s = Some (concat (map normal_text (read_text plan_specs s)))"
    unfolding read [symmetric] by (simp add: strip_proposed_plan_blocks_def push_plan_def parsed tail map_segments_eq)
  show "extract_proposed_plan_text s =
      (case fold collect_plan (map plan_segment_of (read_text plan_specs s)) (False, []) of
         (saw, plan_text) \<Rightarrow> Some (if saw then Some plan_text else None))"
    unfolding read [symmetric] fold_collect_merged
    by (simp add: extract_proposed_plan_text_def push_plan_def parsed tail map_segments_eq)
qed

definition is_line :: "string \<Rightarrow> bool" where
  "is_line l \<longleftrightarrow> l \<noteq> [] \<and> last l = NL \<and> NL \<notin> set (butlast l)"

lemma split_inclusive_lines: "list_all is_line ls \<Longrightarrow> split_inclusive NL (concat ls) = ls"
proof (induction ls)
  case (Cons l ls)
  then obtain b where "l = b @ [NL]" "NL \<notin> set b"
    by (cases l rule: rev_cases) (auto simp: is_line_def)
  then show ?case
    using Cons split_inclusive_line [of NL b "concat ls"] by simp
qed simp

lemma read_lines_append:
  "read_lines specs active (xs @ ys) =
     (let (a, active') = read_lines specs active xs; (b, active'') = read_lines specs active' ys in (a @ b, active''))"
  by (induction xs arbitrary: active) (auto simp: Let_def split: prod.split)

lemma read_plan_text:
  "list_all (\<lambda>l. line_slug l \<noteq> OPEN_TAG) ls \<Longrightarrow> read_lines plan_specs None ls = (map (text_segment None) ls, None)"
  "list_all (\<lambda>l. line_slug l \<noteq> CLOSE_TAG) ls \<Longrightarrow>
     read_lines plan_specs (Some ProposedPlan) ls = (map (text_segment (Some ProposedPlan)) ls, Some ProposedPlan)"
  by (induction ls) (auto simp: read_line_def match_open_def match_close_def plan_specs_def split: option.split)

lemma read_plan_tags:
  "line_slug l = OPEN_TAG \<Longrightarrow> read_line plan_specs None l = ([TagStart ProposedPlan], Some ProposedPlan)"
  "line_slug l = CLOSE_TAG \<Longrightarrow> read_line plan_specs (Some ProposedPlan) l = ([TagEnd ProposedPlan], None)"
  by (auto simp: read_line_def match_open_def match_close_def plan_specs_def split: option.split)

lemma collect_texts:
  "fold collect_plan (map (plan_segment_of \<circ> text_segment None) ls) acc = acc"
  "fold collect_plan (map (plan_segment_of \<circ> text_segment (Some ProposedPlan)) ls) (saw, t) = (saw, t @ concat ls)"
  by (induction ls arbitrary: acc t) (auto simp: text_segment_def)

lemma normal_texts:
  "concat (map (normal_text \<circ> text_segment None) ls) = concat ls"
  "concat (map (normal_text \<circ> text_segment (Some tag)) ls) = []"
  by (induction ls) (auto simp: text_segment_def)

text \<open>
  C30: A plan block can be put into a text and taken out again. Between lines that do not open a block, a
  line with the opening tag, lines that do not close the block and a line with the closing tag give
  exactly the lines between the tags as the plan, and the text without the block as what is shown. White
  space around the tags does not matter.
\<close>

theorem plan_block_roundtrip:
  assumes "list_all is_line (before @ [start] @ body @ [stop] @ after)"
    and "valid_utf8 (concat (before @ [start] @ body @ [stop] @ after))"
    and "list_all (\<lambda>l. line_slug l \<noteq> OPEN_TAG) (before @ after)" and "list_all (\<lambda>l. line_slug l \<noteq> CLOSE_TAG) body"
    and "line_slug start = OPEN_TAG" and "line_slug stop = CLOSE_TAG"
  shows "extract_proposed_plan_text (concat (before @ [start] @ body @ [stop] @ after)) = Some (Some (concat body)) \<and>
    strip_proposed_plan_blocks (concat (before @ [start] @ body @ [stop] @ after)) = Some (concat before @ concat after)"
proof -
  let ?s = "concat (before @ [start] @ body @ [stop] @ after)"
  let ?segments = "map (text_segment None) before @ [TagStart ProposedPlan] @ map (text_segment (Some ProposedPlan)) body @
    [TagEnd ProposedPlan] @ map (text_segment None) after"
  have "read_lines plan_specs None (before @ [start] @ body @ [stop] @ after) = (?segments, None)"
    using assms(3-6) by (simp add: read_lines_append read_plan_text read_plan_tags Let_def)
  then have "read_text plan_specs ?s = merged ?segments"
    unfolding read_text_def split_inclusive_lines [OF assms(1)] by (simp add: closing_def)
  then show ?thesis
    unfolding plan_read_text [OF assms(2)]
    by (simp add: fold_collect_merged collect_texts normal_texts)
qed

theorem plan_block_roundtrip_witness:
  "extract_proposed_plan_text (''a'' @ [NL] @ ''  <proposed_plan> '' @ [NL] @ ''- s'' @ [NL] @ ''</proposed_plan>'' @ [NL] @ ''b'' @ [NL]) =
     Some (Some (''- s'' @ [NL])) \<and>
   strip_proposed_plan_blocks (''a'' @ [NL] @ ''  <proposed_plan> '' @ [NL] @ ''- s'' @ [NL] @ ''</proposed_plan>'' @ [NL] @ ''b'' @ [NL]) =
     Some (''a'' @ [NL] @ ''b'' @ [NL])"
proof -
  let ?open = "''  <proposed_plan> '' @ [NL]" and ?close = "''</proposed_plan>'' @ [NL]"
  have "list_all is_line ([''a'' @ [NL]] @ [?open] @ [''- s'' @ [NL]] @ [?close] @ [''b'' @ [NL]])"
    "valid_utf8 (concat ([''a'' @ [NL]] @ [?open] @ [''- s'' @ [NL]] @ [?close] @ [''b'' @ [NL]]))"
    "list_all (\<lambda>l. line_slug l \<noteq> OPEN_TAG) ([''a'' @ [NL]] @ [''b'' @ [NL]])" "list_all (\<lambda>l. line_slug l \<noteq> CLOSE_TAG) [''- s'' @ [NL]]"
    "line_slug ?open = OPEN_TAG" "line_slug ?close = CLOSE_TAG"
    by code_simp+
  from plan_block_roundtrip [OF this] show ?thesis
    by simp
qed

end
