(* ===== verification/Stream_Assistant.thy ===== *)
theory Stream_Assistant
  imports Stream_Inline Stream_Lines "HOL-Library.AList"
begin

text \<open>
  Streamed text of the assistant: citations are taken out, and in plan mode plan blocks are taken out of
  what is left (\<^verbatim>\<open>utils/stream-parser/src/assistant_text.rs\<close>). A turn has a parser for every message that
  is being received (\<^verbatim>\<open>core/src/session/turn.rs\<close>), and the finished message is stripped as a whole
  (\<^verbatim>\<open>core/src/stream_events_utils.rs\<close>). The theory shows that both agree.
\<close>

section \<open>Definitions\<close>

record assistant_chunk =
  ac_visible_text :: string
  ac_citations :: "string list"
  ac_plan_segments :: "plan_segment list"

definition default_assistant_chunk :: assistant_chunk where
  "default_assistant_chunk = \<lparr>ac_visible_text = [], ac_citations = [], ac_plan_segments = []\<rparr>"

definition assistant_chunk_is_empty :: "assistant_chunk \<Rightarrow> bool" where
  "assistant_chunk_is_empty c \<longleftrightarrow> ac_visible_text c = [] \<and> ac_citations c = [] \<and> ac_plan_segments c = []"

record assistant_parser =
  as_plan_mode :: bool
  as_citations :: "citation_tag inline_parser"
  as_plan :: "plan_tag line_parser"

definition new_assistant_parser :: "bool \<Rightarrow> assistant_parser option" where
  "new_assistant_parser plan_mode =
     map_option (\<lambda>citations. \<lparr>as_plan_mode = plan_mode, as_citations = citations, as_plan = new_plan_parser\<rparr>) new_citation_parser"

definition parse_visible_text :: "assistant_parser \<Rightarrow> string \<Rightarrow> (assistant_chunk \<times> assistant_parser) option" where
  "parse_visible_text p visible =
     (if \<not> as_plan_mode p then Some (default_assistant_chunk\<lparr>ac_visible_text := visible\<rparr>, p)
      else map_option (\<lambda>(plan_chunk, plan').
        (default_assistant_chunk\<lparr>ac_visible_text := visible_text plan_chunk, ac_plan_segments := extracted plan_chunk\<rparr>,
         p\<lparr>as_plan := plan'\<rparr>)) (push_plan (as_plan p) visible))"

definition push_assistant :: "assistant_parser \<Rightarrow> string \<Rightarrow> (assistant_chunk \<times> assistant_parser) option" where
  "push_assistant p chunk =
     Option.bind (push_citation (as_citations p) chunk) (\<lambda>(citation_chunk, citations).
     map_option (\<lambda>(out, p'). (out\<lparr>ac_citations := extracted citation_chunk\<rparr>, p'))
       (parse_visible_text (p\<lparr>as_citations := citations\<rparr>) (visible_text citation_chunk)))"

definition finish_assistant :: "assistant_parser \<Rightarrow> (assistant_chunk \<times> assistant_parser) option" where
  "finish_assistant p =
     (let (citation_chunk, citations) = finish_citation (as_citations p)
      in map_option (\<lambda>(out, p').
           let (out', p'') =
             (if as_plan_mode p' then
                (let (tail, plan') = finish_plan (as_plan p')
                 in (if chunk_is_empty tail then out
                     else out\<lparr>ac_visible_text := ac_visible_text out @ visible_text tail,
                       ac_plan_segments := ac_plan_segments out @ extracted tail\<rparr>,
                     p'\<lparr>as_plan := plan'\<rparr>))
              else (out, p'))
           in (out'\<lparr>ac_citations := extracted citation_chunk\<rparr>, p''))
         (parse_visible_text (p\<lparr>as_citations := citations\<rparr>) (visible_text citation_chunk)))"

subsection \<open>Messages of a turn\<close>

record message_parsers =
  mp_plan_mode :: bool
  mp_parsers :: "(string \<times> assistant_parser) list"

definition new_message_parsers :: "bool \<Rightarrow> message_parsers" where
  "new_message_parsers plan_mode = \<lparr>mp_plan_mode = plan_mode, mp_parsers = []\<rparr>"

text \<open>\<^verbatim>\<open>parser_mut\<close>: the parser of an item, a new one when the item has none.\<close>

definition parser_mut :: "message_parsers \<Rightarrow> string \<Rightarrow> assistant_parser option" where
  "parser_mut m item_id =
     (case map_of (mp_parsers m) item_id of Some p \<Rightarrow> Some p | None \<Rightarrow> new_assistant_parser (mp_plan_mode m))"

definition parse_delta :: "message_parsers \<Rightarrow> string \<Rightarrow> string \<Rightarrow> (assistant_chunk \<times> message_parsers) option" where
  "parse_delta m item_id delta =
     Option.bind (parser_mut m item_id) (\<lambda>p.
     map_option (\<lambda>(out, p'). (out, m\<lparr>mp_parsers := AList.update item_id p' (mp_parsers m)\<rparr>)) (push_assistant p delta))"

definition seed_item_text :: "message_parsers \<Rightarrow> string \<Rightarrow> string \<Rightarrow> (assistant_chunk \<times> message_parsers) option" where
  "seed_item_text m item_id s = (if s = [] then Some (default_assistant_chunk, m) else parse_delta m item_id s)"

definition finish_item :: "message_parsers \<Rightarrow> string \<Rightarrow> (assistant_chunk \<times> message_parsers) option" where
  "finish_item m item_id =
     (case map_of (mp_parsers m) item_id of
        None \<Rightarrow> Some (default_assistant_chunk, m)
      | Some p \<Rightarrow>
          map_option (\<lambda>(out, _). (out, m\<lparr>mp_parsers := AList.delete item_id (mp_parsers m)\<rparr>)) (finish_assistant p))"

definition drain_finished :: "message_parsers \<Rightarrow> ((string \<times> assistant_chunk) list \<times> message_parsers) option" where
  "drain_finished m =
     map_option (\<lambda>outs. (outs, m\<lparr>mp_parsers := []\<rparr>))
       (those (map (\<lambda>(item_id, p). map_option (\<lambda>(out, _). (item_id, out)) (finish_assistant p)) (mp_parsers m)))"

subsection \<open>Finished messages\<close>

definition strip_hidden_assistant_markup :: "string \<Rightarrow> bool \<Rightarrow> string option" where
  "strip_hidden_assistant_markup s plan_mode =
     Option.bind (strip_citations s) (\<lambda>(without_citations, _).
       if plan_mode then strip_proposed_plan_blocks without_citations else Some without_citations)"

text \<open>The plan of a finished message: here the plan is looked for before the citations are removed.\<close>

definition completed_plan_text :: "string \<Rightarrow> string option option" where
  "completed_plan_text s =
     Option.bind (extract_proposed_plan_text s) (\<lambda>found.
       case found of
         None \<Rightarrow> Some None
       | Some plan_text \<Rightarrow> map_option (\<lambda>(stripped, _). Some stripped) (strip_citations plan_text))"

subsection \<open>Streams of deltas\<close>

definition append_assistant :: "assistant_chunk \<Rightarrow> assistant_chunk \<Rightarrow> assistant_chunk" where
  "append_assistant a b =
     \<lparr>ac_visible_text = ac_visible_text a @ ac_visible_text b, ac_citations = ac_citations a @ ac_citations b,
      ac_plan_segments = ac_plan_segments a @ ac_plan_segments b\<rparr>"

text \<open>Text of an item, either the text that it starts with or a delta.\<close>

datatype item_event = SeedText string string | TextDelta string string

fun event_item :: "item_event \<Rightarrow> string" where
  "event_item (SeedText item_id _) = item_id"
| "event_item (TextDelta item_id _) = item_id"

fun event_text :: "item_event \<Rightarrow> string" where
  "event_text (SeedText _ s) = s"
| "event_text (TextDelta _ s) = s"

fun handle_event :: "message_parsers \<Rightarrow> item_event \<Rightarrow> (assistant_chunk \<times> message_parsers) option" where
  "handle_event m (SeedText item_id s) = seed_item_text m item_id s"
| "handle_event m (TextDelta item_id s) = parse_delta m item_id s"

text \<open>Everything that is shown of one item, while the events of all items arrive in some order.\<close>

fun shown_of :: "string \<Rightarrow> message_parsers \<Rightarrow> item_event list \<Rightarrow> (assistant_chunk \<times> message_parsers) option" where
  "shown_of item_id m [] = Some (default_assistant_chunk, m)"
| "shown_of item_id m (e # es) =
     Option.bind (handle_event m e) (\<lambda>(out, m').
       map_option (\<lambda>(rest, m''). (if event_item e = item_id then append_assistant out rest else rest, m''))
         (shown_of item_id m' es))"

definition item_text :: "string \<Rightarrow> item_event list \<Rightarrow> string" where
  "item_text item_id events = concat (map event_text (filter (\<lambda>e. event_item e = item_id) events))"

section \<open>The citation parser cuts no code point\<close>

lemma valid_utf8_ascii_split:
  assumes "valid_utf8 s" and "s = u @ c # v" and "byte_of c < 128"
  shows "valid_utf8 u \<and> valid_utf8 (c # v)"
  using assms(1,2)
proof (induction s arbitrary: u rule: utf8_induct)
  case (code_point d s)
  have d: "code_point d" "valid_utf8 d"
    using code_point(1) read_code_point_cut [of d s "length d"] by (simp_all add: code_point_def valid_utf8_read [OF code_point(2)])
  show ?case
  proof (cases "u = []")
    case True
    have "valid_utf8 (d @ s)"
      using code_point(3) d(2) by (simp add: valid_utf8_append)
    then show ?thesis
      using True code_point.prems by simp
  next
    case False
    have "length d \<le> length u"
    proof (rule ccontr)
      assume "\<not> length d \<le> length u"
      then have "d ! length u = c"
        using arg_cong [OF code_point.prems, of "\<lambda>x. x ! length u"] by (simp add: nth_append)
      then show False
        using code_point_bytes(2) [OF d(1), of "length u"] False assms(3) \<open>\<not> length d \<le> length u\<close>
        by (simp add: continuation_def)
    qed
    then obtain u' where u': "u = d @ u'" "s = u' @ c # v"
      using code_point.prems by (auto simp: append_eq_append_conv2)
    then show ?thesis
      using code_point.IH d(2) by (simp add: valid_utf8_append)
  qed
qed simp

lemma valid_utf8_ascii: "ascii s \<Longrightarrow> valid_utf8 s"
proof (induction s)
  case (Cons a s)
  then show ?case
    by (simp add: ascii_def valid_utf8_read [of "a # s"])
qed simp

lemma scan_cut:
  assumes "list_all delimiter_ok pats" and "valid_utf8 s"
  shows "valid_utf8 (take (scan pats s) s) \<and> valid_utf8 (drop (scan pats s) s)"
proof (cases "scan pats s < length s")
  case True
  let ?j = "scan pats s"
  obtain pat where pat: "pat \<in> set pats" "\<not> clash (drop ?j s) pat"
    using scan_at [OF True] by blast
  obtain a t where a: "pat = a # t" "byte_of a < 128"
    using assms(1) pat(1) by (cases pat) (auto simp: list_all_iff delimiter_ok_def ascii_def)
  moreover have "drop ?j s = s ! ?j # drop (Suc ?j) s"
    using True by (simp add: Cons_nth_drop_Suc)
  ultimately have "s ! ?j = a"
    using pat(2) by (auto simp: clash_def)
  then have "s = take ?j s @ a # drop (Suc ?j) s"
    using id_take_nth_drop [OF True] by simp
  then show ?thesis
    using valid_utf8_ascii_split [OF assms(2) _ a(2)] \<open>drop ?j s = _\<close> \<open>s ! ?j = a\<close> by metis
qed (use assms(2) in simp)

lemma awaited_delimiters: "inline_ok p \<Longrightarrow> list_all delimiter_ok (awaited p)"
  by (auto simp: inline_ok_def awaited_def specs_ok_def list_all_iff split: option.splits)

lemma switch_cut:
  assumes "inline_ok p" and "switch p s out = Some (p', out')" and "valid_utf8 s"
  shows "valid_utf8 (ip_pending p') \<and> visible_text out' = visible_text out"
proof -
  obtain pat t where "delimiter_ok pat" "s = pat @ t" "ip_pending p' = t" "visible_text out' = visible_text out"
  proof (cases "ip_active p")
    case None
    then obtain i where i: "first_open (ip_specs p) s = Some i"
      using assms(2) by (auto simp: switch_def)
    then have "i < length (ip_specs p)" "prefix (spec_open (ip_specs p ! i)) s"
      by (auto simp: first_open_Some)
    moreover from this have "delimiter_ok (spec_open (ip_specs p ! i))"
      using assms(1) by (simp add: inline_ok_def specs_ok_def)
    ultimately show ?thesis
      using that assms(2) None i by (auto simp: switch_def Let_def prefix_def)
  next
    case (Some active)
    then show ?thesis
      using that assms(1,2) by (auto simp: switch_def inline_ok_def prefix_def split: if_splits)
  qed
  then show ?thesis
    using assms(3) valid_utf8_ascii by (auto simp: delimiter_ok_def valid_utf8_append)
qed

lemma inline_loop_cut:
  assumes "inline_ok p" and "inline_loop p out = Some (out', p')" and "valid_utf8 (ip_pending p)" and "valid_utf8 (visible_text out)"
  shows "valid_utf8 (visible_text out') \<and> valid_utf8 (ip_pending p')"
  using assms
proof (induction "length (ip_pending p)" arbitrary: p out rule: less_induct)
  case less
  let ?x = "ip_pending p" and ?j = "scan (awaited p) (ip_pending p)"
  let ?p = "absorb (take ?j ?x) p" and ?out = "emit (take ?j ?x) p out"
  have cut: "valid_utf8 (take ?j ?x)" "valid_utf8 (drop ?j ?x)"
    using scan_cut [OF awaited_delimiters [OF less.prems(1)] less.prems(3)] by auto
  have out: "valid_utf8 (visible_text ?out)"
    using cut(1) less.prems(4) by (auto simp: emit_def push_visible_prefix_def valid_utf8_append split: option.split)
  show ?case
  proof (cases "switch ?p (drop ?j ?x) ?out")
    case None
    then have "inline_loop p out = Some (?out, ?p\<lparr>ip_pending := drop ?j ?x\<rparr>)"
      by (subst inline_loop.simps) (simp add: inline_iter_scan [OF less.prems(1)])
    then show ?thesis
      using less.prems(2) out cut(2) by auto
  next
    case (Some z)
    then obtain p1 out1 where hit: "switch ?p (drop ?j ?x) ?out = Some (p1, out1)"
      by (cases z) auto
    have ok: "inline_ok p1" "length (ip_pending p1) < length ?x"
      using switch_shrinks [OF _ hit] less.prems(1) by auto
    have "inline_loop p1 out1 = Some (out', p')"
      using less.prems(2) hit by (subst (asm) inline_loop.simps) (simp add: inline_iter_scan [OF less.prems(1)])
    then show ?thesis
      using less.hyps [OF ok(2,1)] switch_cut [OF _ hit cut(2)] less.prems(1) out by simp
  qed
qed

definition citation_ready :: "citation_tag inline_parser \<Rightarrow> bool" where
  "citation_ready p \<longleftrightarrow> between_calls p \<and> citation_parser p \<and> valid_utf8 (ip_pending p)"

lemma citation_ready_start: "citation_ready citation_start"
  using citation_start_ok by (simp add: citation_ready_def citation_parser_def citation_start_def)

lemma push_citation_ready:
  assumes "citation_ready p" and "valid_utf8 a" and "push_citation p a = Some (c, p')"
  shows "citation_ready p' \<and> valid_utf8 (visible_text c)"
proof -
  let ?p = "p\<lparr>ip_pending := ip_pending p @ a\<rparr>"
  obtain out where out: "inline_loop ?p default_chunk = Some (out, p')" "c = citation_bodies out"
    using assms(3) by (auto simp: push_citation_def push_inline_def)
  have "inline_ok ?p" "citation_parser ?p" "valid_utf8 (ip_pending ?p)"
    using assms(1,2) by (auto simp: citation_ready_def citation_parser_def valid_utf8_append)
  then have "valid_utf8 (visible_text c)" "valid_utf8 (ip_pending p')" "citation_parser p'"
    using inline_loop_cut [OF _ out(1)] inline_loop_accounted [OF out(1)] out(2) by (auto simp: citation_bodies_def)
  moreover have "between_calls p'"
    using push_citation_append [OF _ assms(3)] assms(1) by (auto simp: citation_ready_def)
  ultimately show ?thesis
    by (simp add: citation_ready_def)
qed

lemma finish_citation_cut: "citation_ready p \<Longrightarrow> valid_utf8 (visible_text (fst (finish_citation p)))"
  by (auto simp: citation_ready_def finish_citation_def finish_inline_def citation_bodies_def split: option.split)

section \<open>A stream of chunks\<close>

fun feed_assistant :: "assistant_parser \<Rightarrow> string list \<Rightarrow> (assistant_chunk \<times> assistant_parser) option" where
  "feed_assistant p [] = Some (default_assistant_chunk, p)"
| "feed_assistant p (chunk # chunks) =
     Option.bind (push_assistant p chunk) (\<lambda>(out, p').
       map_option (\<lambda>(rest, q). (append_assistant out rest, q)) (feed_assistant p' chunks))"

text \<open>What has been shown of a text and where the two parsers inside are.\<close>

definition assistant_at :: "bool \<Rightarrow> string \<Rightarrow> assistant_chunk \<Rightarrow> assistant_parser \<Rightarrow> bool" where
  "assistant_at plan_mode s out p \<longleftrightarrow> as_plan_mode p = plan_mode \<and>
     (\<exists>c. push_citation citation_start s = Some (c, as_citations p) \<and> ac_citations out = extracted c \<and>
        (if plan_mode then \<exists>d. push_plan new_plan_parser (visible_text c) = Some (d, as_plan p) \<and>
           ac_visible_text out = visible_text d \<and> merged_plan (ac_plan_segments out) = merged_plan (extracted d)
         else ac_visible_text out = visible_text c \<and> ac_plan_segments out = [] \<and> as_plan p = new_plan_parser))"

definition assistant_start :: "bool \<Rightarrow> assistant_parser" where
  "assistant_start plan_mode = \<lparr>as_plan_mode = plan_mode, as_citations = citation_start, as_plan = new_plan_parser\<rparr>"

lemma new_assistant_parser_eq: "new_assistant_parser plan_mode = Some (assistant_start plan_mode)"
  by (simp add: new_assistant_parser_def new_citation_parser_eq assistant_start_def)

lemma assistant_at_start: "assistant_at plan_mode [] default_assistant_chunk (assistant_start plan_mode)"
  using citation.push_nothing [OF citation_start_ok] plan.push_nothing [of new_plan_parser]
  by (simp add: assistant_at_def assistant_start_def default_assistant_chunk_def)

lemma push_assistant_at:
  assumes "assistant_at plan_mode s out p" and "valid_utf8 s" and "valid_utf8 a"
  shows "\<exists>c p'. push_assistant p a = Some (c, p') \<and> assistant_at plan_mode (s @ a) (append_assistant out c) p'"
proof -
  obtain c1 where c1: "push_citation citation_start s = Some (c1, as_citations p)" "ac_citations out = extracted c1"
    using assms(1) by (auto simp: assistant_at_def)
  have ready: "citation_ready (as_citations p)" "valid_utf8 (visible_text c1)"
    using push_citation_ready [OF citation_ready_start assms(2) c1(1)] by auto
  obtain c2 q where c2: "push_citation (as_citations p) a = Some (c2, q)"
    using push_citation_total [of "as_citations p" a] ready(1) by (auto simp: citation_ready_def)
  have v2: "valid_utf8 (visible_text c2)"
    using push_citation_ready [OF ready(1) assms(3) c2] by simp
  obtain c where c: "push_citation citation_start (s @ a) = Some (c, q)" "same_output (\<lambda>xs. xs) (append_chunk c1 c2) c"
    using citation.push_two [OF citation_start_ok assms(2,3) c1(1) c2] by blast
  show ?thesis
  proof (cases plan_mode)
    case False
    then show ?thesis
      using assms(1) c1 c2 c
      by (auto simp: assistant_at_def push_assistant_def parse_visible_text_def append_assistant_def default_assistant_chunk_def same_output_def)
  next
    case True
    obtain d1 where d1: "push_plan new_plan_parser (visible_text c1) = Some (d1, as_plan p)" "ac_visible_text out = visible_text d1"
      "merged_plan (ac_plan_segments out) = merged_plan (extracted d1)"
      using assms(1) c1(1) True by (auto simp: assistant_at_def)
    obtain d2 r where d2: "push_plan (as_plan p) (visible_text c2) = Some (d2, r)"
      using plan.push_total [OF _ v2] by blast
    obtain d where d: "push_plan new_plan_parser (visible_text c1 @ visible_text c2) = Some (d, r)"
      "same_output merged_plan (append_chunk d1 d2) d"
      using plan.push_two [OF _ ready(2) v2 d1(1) d2] by blast
    have "merged_plan (ac_plan_segments out @ extracted d2) = merged_plan (extracted d)"
      using plan.norm_cong [OF d1(3) refl, of "extracted d2"] d(2) by (simp add: same_output_def)
    then show ?thesis
      using assms(1) c1 c2 c d1 d2 d True
      by (auto simp: assistant_at_def push_assistant_def parse_visible_text_def append_assistant_def default_assistant_chunk_def same_output_def)
  qed
qed

section \<open>The end of a message\<close>

text \<open>What is shown of a message agrees with the finished message: its text, its citations and its plan.\<close>

definition shows_message :: "bool \<Rightarrow> string \<Rightarrow> assistant_chunk \<Rightarrow> bool" where
  "shows_message plan_mode s out \<longleftrightarrow>
     strip_hidden_assistant_markup s plan_mode = Some (ac_visible_text out) \<and>
     (\<exists>visible. strip_citations s = Some (visible, ac_citations out) \<and>
        merged_plan (ac_plan_segments out) = (if plan_mode then map plan_segment_of (read_text plan_specs visible) else []))"

lemma finish_assistant_at:
  assumes "assistant_at plan_mode s out p" and "valid_utf8 s"
  shows "\<exists>c p'. finish_assistant p = Some (c, p') \<and> shows_message plan_mode s (append_assistant out c)"
proof -
  obtain c1 where c1: "push_citation citation_start s = Some (c1, as_citations p)" "ac_citations out = extracted c1"
    using assms(1) by (auto simp: assistant_at_def)
  have ready: "citation_ready (as_citations p)" "valid_utf8 (visible_text c1)"
    using push_citation_ready [OF citation_ready_start assms(2) c1(1)] by auto
  obtain c2 q where c2: "finish_citation (as_citations p) = (c2, q)"
    by (cases "finish_citation (as_citations p)")
  have v2: "valid_utf8 (visible_text c2)"
    using finish_citation_cut [OF ready(1)] c2 by simp
  have strip: "strip_citations s = Some (visible_text c1 @ visible_text c2, extracted c1 @ extracted c2)"
    by (simp add: strip_citations_eq c1(1) c2)
  show ?thesis
  proof (cases plan_mode)
    case False
    then show ?thesis
      using assms(1) c1 c2 strip
      by (auto simp: assistant_at_def finish_assistant_def parse_visible_text_def append_assistant_def default_assistant_chunk_def
          shows_message_def strip_hidden_assistant_markup_def merged_plan_def)
  next
    case True
    obtain d1 where d1: "push_plan new_plan_parser (visible_text c1) = Some (d1, as_plan p)" "ac_visible_text out = visible_text d1"
      "merged_plan (ac_plan_segments out) = merged_plan (extracted d1)"
      using assms(1) c1(1) True by (auto simp: assistant_at_def)
    obtain d2 r where d2: "push_plan (as_plan p) (visible_text c2) = Some (d2, r)"
      using plan.push_total [OF _ v2] by blast
    obtain d where d: "push_plan new_plan_parser (visible_text c1 @ visible_text c2) = Some (d, r)"
      "same_output merged_plan (append_chunk d1 d2) d"
      using plan.push_two [OF _ ready(2) v2 d1(1) d2] by blast
    obtain tail r' where tail: "finish_plan r = (tail, r')"
      by (cases "finish_plan r")
    let ?whole = "visible_text c1 @ visible_text c2"
    have valid: "valid_utf8 ?whole"
      using ready(2) v2 by (simp add: valid_utf8_append)
    note finished = push_then_finish_plan [OF valid d(1), unfolded tail fst_conv]
    have "merged_plan (ac_plan_segments out @ extracted d2) = merged_plan (extracted d)"
      using plan.norm_cong [OF d1(3) refl, of "extracted d2"] d(2) by (simp add: same_output_def)
    then have segments: "merged_plan ((ac_plan_segments out @ extracted d2) @ extracted tail) = map plan_segment_of (read_text plan_specs ?whole)"
      using plan.norm_cong [of "ac_plan_segments out @ extracted d2" "extracted d" "extracted tail" "extracted tail"] finished(2) by simp
    let ?c = "\<lparr>ac_visible_text = visible_text d2 @ visible_text tail, ac_citations = extracted c2,
      ac_plan_segments = extracted d2 @ extracted tail\<rparr>"
    have "as_plan_mode p"
      using assms(1) True by (simp add: assistant_at_def)
    then have fin: "finish_assistant p = Some (?c, p\<lparr>as_citations := q, as_plan := r'\<rparr>)"
      using c2 d2 tail
      by (simp add: finish_assistant_def parse_visible_text_def default_assistant_chunk_def chunk_is_empty_def)
    have "visible_text d = visible_text d1 @ visible_text d2"
      using d(2) by (simp add: same_output_def)
    then have "strip_hidden_assistant_markup s plan_mode = Some (ac_visible_text (append_assistant out ?c))"
      using strip True plan_read_text(1) [OF valid] finished(1) [symmetric] d1(2)
      by (simp add: strip_hidden_assistant_markup_def append_assistant_def)
    then show ?thesis
      using fin strip segments True c1(2) by (simp add: shows_message_def append_assistant_def)
  qed
qed

lemma finish_assistant_start: "map_option fst (finish_assistant (assistant_start plan_mode)) = Some default_assistant_chunk"
proof -
  have "\<forall>plan_mode \<in> {True, False}. map_option fst (finish_assistant (assistant_start plan_mode)) = Some default_assistant_chunk"
    by code_simp
  then show ?thesis
    by (cases plan_mode) auto
qed

section \<open>Many messages at once\<close>

definition item_parser :: "message_parsers \<Rightarrow> string \<Rightarrow> assistant_parser" where
  "item_parser m item_id = (case map_of (mp_parsers m) item_id of Some p \<Rightarrow> p | None \<Rightarrow> assistant_start (mp_plan_mode m))"

lemma parser_mut_eq: "parser_mut m item_id = Some (item_parser m item_id)"
  by (simp add: parser_mut_def item_parser_def new_assistant_parser_eq split: option.split)

lemma item_parser_update:
  "item_parser (m\<lparr>mp_parsers := AList.update k p (mp_parsers m)\<rparr>) j = (if j = k then p else item_parser m j)"
  by (cases "map_of (mp_parsers m) j") (auto simp: item_parser_def update_conv')

lemma append_assistant_default [simp]:
  "append_assistant default_assistant_chunk a = a" "append_assistant a default_assistant_chunk = a"
  "append_assistant (append_assistant a b) c = append_assistant a (append_assistant b c)"
  by (simp_all add: append_assistant_def default_assistant_chunk_def)

lemma handle_event_at:
  assumes "assistant_at (mp_plan_mode m) s out (item_parser m (event_item e))" and "valid_utf8 s" and "valid_utf8 (event_text e)"
  shows "\<exists>c m'. handle_event m e = Some (c, m') \<and> mp_plan_mode m' = mp_plan_mode m \<and>
    assistant_at (mp_plan_mode m) (s @ event_text e) (append_assistant out c) (item_parser m' (event_item e)) \<and>
    (\<forall>k. k \<noteq> event_item e \<longrightarrow> item_parser m' k = item_parser m k)"
proof -
  have delta: "\<exists>c m'. parse_delta m (event_item e) (event_text e) = Some (c, m') \<and> mp_plan_mode m' = mp_plan_mode m \<and>
    assistant_at (mp_plan_mode m) (s @ event_text e) (append_assistant out c) (item_parser m' (event_item e)) \<and>
    (\<forall>k. k \<noteq> event_item e \<longrightarrow> item_parser m' k = item_parser m k)"
    using push_assistant_at [OF assms]
    by (auto simp: parse_delta_def parser_mut_eq item_parser_update)
  show ?thesis
  proof (cases "\<exists>item_id. e = SeedText item_id []")
    case True
    then show ?thesis
      using assms(1) by (auto simp: seed_item_text_def)
  next
    case False
    then have "handle_event m e = parse_delta m (event_item e) (event_text e)"
      by (cases e) (auto simp: seed_item_text_def)
    then show ?thesis
      using delta by simp
  qed
qed

lemma shown_of_at:
  assumes "\<And>k. \<exists>out. assistant_at (mp_plan_mode m) (T k) out (item_parser m k)" and "\<And>k. valid_utf8 (T k)"
    and "assistant_at (mp_plan_mode m) (T item_id) out (item_parser m item_id)" and "list_all (\<lambda>e. valid_utf8 (event_text e)) es"
  shows "\<exists>c m'. shown_of item_id m es = Some (c, m') \<and> mp_plan_mode m' = mp_plan_mode m \<and>
    assistant_at (mp_plan_mode m) (T item_id @ item_text item_id es) (append_assistant out c) (item_parser m' item_id)"
  using assms
proof (induction es arbitrary: m T out)
  case Nil
  then show ?case
    by (simp add: item_text_def)
next
  case (Cons e es)
  let ?k = "event_item e"
  obtain o0 where o0: "assistant_at (mp_plan_mode m) (T ?k) o0 (item_parser m ?k)" "?k = item_id \<longrightarrow> o0 = out"
    using Cons.prems(1,3) by (cases "?k = item_id") auto
  have "valid_utf8 (event_text e)"
    using Cons.prems(4) by simp
  from handle_event_at [OF o0(1) Cons.prems(2) this] obtain c m' where
    step: "handle_event m e = Some (c, m')" and mode: "mp_plan_mode m' = mp_plan_mode m"
    and moved: "assistant_at (mp_plan_mode m) (T ?k @ event_text e) (append_assistant o0 c) (item_parser m' ?k)"
    and others: "\<And>k. k \<noteq> ?k \<Longrightarrow> item_parser m' k = item_parser m k"
    by blast
  let ?T = "T(?k := T ?k @ event_text e)" and ?out = "if ?k = item_id then append_assistant out c else out"
  have "\<exists>out. assistant_at (mp_plan_mode m') (?T k) out (item_parser m' k)" for k
    using moved others [of k] mode Cons.prems(1) [of k] by (cases "k = ?k") auto
  moreover have "valid_utf8 (?T k)" for k
    using Cons.prems(2,4) by (simp add: valid_utf8_append)
  moreover have "assistant_at (mp_plan_mode m') (?T item_id) ?out (item_parser m' item_id)"
    using moved others [of item_id] mode Cons.prems(3) o0(2) by auto
  moreover have "list_all (\<lambda>e. valid_utf8 (event_text e)) es"
    using Cons.prems(4) by simp
  ultimately obtain rest m'' where
    "shown_of item_id m' es = Some (rest, m'')" "mp_plan_mode m'' = mp_plan_mode m'"
    "assistant_at (mp_plan_mode m') (?T item_id @ item_text item_id es) (append_assistant ?out rest) (item_parser m'' item_id)"
    using Cons.IH [of m' ?T ?out] by blast
  then show ?case
    using step mode by (auto simp: item_text_def split: if_splits)
qed

lemma finish_item_at:
  assumes "assistant_at (mp_plan_mode m) s out (item_parser m item_id)" and "valid_utf8 s"
  shows "\<exists>c m'. finish_item m item_id = Some (c, m') \<and> shows_message (mp_plan_mode m) s (append_assistant out c)"
proof (cases "map_of (mp_parsers m) item_id")
  case None
  then have "finish_item m item_id = Some (default_assistant_chunk, m)"
    by (simp add: finish_item_def)
  moreover obtain c p' where "finish_assistant (assistant_start (mp_plan_mode m)) = Some (c, p')"
    "shows_message (mp_plan_mode m) s (append_assistant out c)"
    using finish_assistant_at [OF assms] None by (auto simp: item_parser_def)
  ultimately show ?thesis
    using finish_assistant_start [of "mp_plan_mode m"] by auto
next
  case (Some p)
  then show ?thesis
    using finish_assistant_at [OF assms] by (auto simp: item_parser_def finish_item_def)
qed

section \<open>Properties\<close>

text \<open>
  C11: What the user sees of a message while it arrives is the finished message. Let the texts of any
  number of messages arrive in any order and cut into any chunks. Every call returns, and what is shown of
  one message, up to the call that finishes it, has the visible text that the whole message has after
  the citations and, in plan mode, the plan blocks have been removed, its citations in order, and the plan
  segments that the lines of the whole message give.
\<close>

theorem streamed_messages_match_final:
  assumes "list_all (\<lambda>e. valid_utf8 (event_text e)) events"
  shows "\<exists>shown m tail m'. shown_of item_id (new_message_parsers plan_mode) events = Some (shown, m) \<and>
    finish_item m item_id = Some (tail, m') \<and>
    shows_message plan_mode (item_text item_id events) (append_assistant shown tail)"
proof -
  let ?m = "new_message_parsers plan_mode"
  have start: "assistant_at (mp_plan_mode ?m) [] default_assistant_chunk (item_parser ?m k)" for k
    using assistant_at_start [of plan_mode] by (simp add: new_message_parsers_def item_parser_def)
  obtain shown m where shown: "shown_of item_id ?m events = Some (shown, m)" "mp_plan_mode m = plan_mode"
    "assistant_at plan_mode (item_text item_id events) shown (item_parser m item_id)"
    using shown_of_at [of ?m "\<lambda>_. []" item_id default_assistant_chunk events] start assms by (auto simp: new_message_parsers_def)
  have "valid_utf8 (item_text item_id events)"
    using assms unfolding item_text_def by (intro valid_utf8_concat) (auto simp: list_all_iff)
  then show ?thesis
    using finish_item_at [of m "item_text item_id events" shown item_id] shown by auto
qed

theorem streamed_messages_match_final_witness:
  "\<exists>shown m tail m'. shown_of ''a'' (new_message_parsers True) [SeedText ''a'' ''x<oai-'', TextDelta ''b'' ''<'', TextDelta ''a'' ''mem-citation>d''] =
       Some (shown, m) \<and>
     finish_item m ''a'' = Some (tail, m') \<and> shows_message True ''x<oai-mem-citation>d'' (append_assistant shown tail)"
proof -
  let ?events = "[SeedText ''a'' ''x<oai-'', TextDelta ''b'' ''<'', TextDelta ''a'' ''mem-citation>d'']"
  have valid: "list_all (\<lambda>e. valid_utf8 (event_text e)) ?events" and whole: "item_text ''a'' ?events = ''x<oai-mem-citation>d''"
    by code_simp+
  show ?thesis
    using streamed_messages_match_final [OF valid, of "''a''" True] unfolding whole .
qed

text \<open>
  The completed plan is computed the other way round, from the text with the citations, and does not agree
  with what was shown. A tag with a citation on its line starts a plan for the stream and is no tag for the
  completed message.
\<close>

definition cited_plan :: string where
  "cited_plan = OPEN_TAG @ CITATION_OPEN @ ''d'' @ CITATION_CLOSE @ [NL] @ ''- s'' @ [NL] @ CLOSE_TAG @ [NL]"

lemma cited_plan_not_completed:
  "completed_plan_text cited_plan = Some None \<and>
   map_option (\<lambda>(visible, _). map plan_segment_of (read_text plan_specs visible)) (strip_citations cited_plan) =
     Some [ProposedPlanStart, ProposedPlanDelta (''- s'' @ [NL]), ProposedPlanEnd]"
  by code_simp

end
