(* ===== verification/Spec2Isabelle.thy ===== *)
theory Spec2Isabelle
  imports Policy_Manager Patch_Safety Policy_Transforms Turn_Diff Stream_Assistant
begin

text \<open>
  \<^bold>\<open>The decisions of dcode.\<close>

  dcode is a coding agent: a model proposes shell commands and patches, and the program decides for each
  of them whether it runs, runs only after the user agrees, or is refused, and what it may touch. This
  library models these decisions and what follows from them, for the Linux build: the policy files and the
  requirement for a command, the file-system sandbox policy, the patch tool from the text of the patch to
  the files, the diff of a turn, and the text of the assistant as it is streamed to the user.

  \<^bold>\<open>Parts of the program and the theories that model them\<close> (paths below \<^verbatim>\<open>src/codex-rs\<close>).

  \<^item> \<^verbatim>\<open>Prelude\<close>: results, and the functions of the Rust standard library on strings and iterators that
    the sources use. A Rust \<^verbatim>\<open>str\<close> is its sequence of UTF-8 bytes.
  \<^item> \<^verbatim>\<open>Unix_Path\<close>: \<^verbatim>\<open>utils/absolute-path\<close>. The process environment (home, working directory) is the
    record \<^verbatim>\<open>host\<close>; an \<^verbatim>\<open>AbsolutePathBuf\<close> is its list of components.

  Commands:

  \<^item> \<^verbatim>\<open>Exec_Rule\<close>: \<^verbatim>\<open>execpolicy/src/decision.rs\<close>, \<^verbatim>\<open>rule.rs\<close>, \<^verbatim>\<open>error.rs\<close>, \<^verbatim>\<open>executable_name.rs\<close>. The
    trait \<^verbatim>\<open>Rule\<close> is the locale \<^verbatim>\<open>rule_trait\<close>.
  \<^item> \<^verbatim>\<open>Exec_Policy\<close>: \<^verbatim>\<open>execpolicy/src/policy.rs\<close>. The multimap of rules is an association list in
    insertion order, with the contract \<^verbatim>\<open>multimap_spec\<close>.
  \<^item> \<^verbatim>\<open>Policy_Parser\<close>: \<^verbatim>\<open>execpolicy/src/parser.rs\<close>. The Starlark interpreter is a parameter: it yields
    the sequence of calls of the three builtins, which are modelled with their validation.
  \<^item> \<^verbatim>\<open>Amend\<close>: \<^verbatim>\<open>execpolicy/src/amend.rs\<close> and \<^verbatim>\<open>sandbox_migration.rs\<close>. The outcome of every call of the
    operating system is a field of an environment record, partial writes included.
  \<^item> \<^verbatim>\<open>Bash_Tree\<close>: \<^verbatim>\<open>shell-command/src/bash.rs\<close> and \<^verbatim>\<open>shell_detect.rs\<close>. The tree-sitter parser is a
    parameter; the walks over its trees share the locale \<^verbatim>\<open>tree_walk\<close>.
  \<^item> \<^verbatim>\<open>Shell_Safety\<close>: \<^verbatim>\<open>shell-command/src/command_safety\<close>: the known-safe and the dangerous commands.
  \<^item> \<^verbatim>\<open>Permissions\<close>: the permission profiles and approval modes of \<^verbatim>\<open>protocol/src\<close>.
  \<^item> \<^verbatim>\<open>Exec_Approval\<close>: \<^verbatim>\<open>core/src/exec_policy.rs\<close>, the requirement for one command, and the first sandbox
    attempt of \<^verbatim>\<open>core/src/tools/sandboxing.rs\<close>.
  \<^item> \<^verbatim>\<open>Policy_Manager\<close>: the rest of \<^verbatim>\<open>core/src/exec_policy.rs\<close>: loading the layered policy and changing the
    running one.

  The sandbox policy:

  \<^item> \<^verbatim>\<open>Sandbox_Policy\<close>, \<^verbatim>\<open>Sandbox_Roots\<close>: \<^verbatim>\<open>protocol/src/permissions.rs\<close> and the legacy policy of
    \<^verbatim>\<open>protocol/src/protocol.rs\<close>. What the code asks the operating system is the record \<^verbatim>\<open>os_view\<close>.
  \<^item> \<^verbatim>\<open>Sandbox_Access\<close>, \<^verbatim>\<open>Sandbox_Refine\<close>, \<^verbatim>\<open>Sandbox_Changes\<close>: the properties of these definitions.
  \<^item> \<^verbatim>\<open>Policy_Transforms\<close>: \<^verbatim>\<open>sandboxing/src/policy_transforms.rs\<close>, additional permissions of a command.

  Patches:

  \<^item> \<^verbatim>\<open>Path_Uri\<close>, \<^verbatim>\<open>Path_Join\<close>, \<^verbatim>\<open>Path_Render\<close>: \<^verbatim>\<open>utils/path-uri\<close>. The URL package is the record \<^verbatim>\<open>url_lib\<close>.
  \<^item> \<^verbatim>\<open>Patch_Seek\<close>, \<^verbatim>\<open>Patch_Parser\<close>, \<^verbatim>\<open>Patch_Apply\<close>: \<^verbatim>\<open>apply-patch/src/seek_sequence.rs\<close>, \<^verbatim>\<open>parser.rs\<close>,
    \<^verbatim>\<open>streaming_parser.rs\<close> and the computation of new contents in \<^verbatim>\<open>lib.rs\<close>; \<^verbatim>\<open>Patch_Roundtrip\<close> and
    \<^verbatim>\<open>Patch_Reparse\<close> are about printing and reading a patch again.
  \<^item> \<^verbatim>\<open>Patch_Fs\<close>: the rest of \<^verbatim>\<open>apply-patch/src/lib.rs\<close>, on an executor file system that is a record of
    operations on a state (\<^verbatim>\<open>file-system/src/lib.rs\<close>).
  \<^item> \<^verbatim>\<open>Patch_Invocation\<close>: \<^verbatim>\<open>apply-patch/src/invocation.rs\<close>, a command line as a patch and its changes.
  \<^item> \<^verbatim>\<open>Patch_Safety\<close>: \<^verbatim>\<open>core/src/safety.rs\<close> and \<^verbatim>\<open>core/src/apply_patch.rs\<close>, the approval of a patch.
  \<^item> \<^verbatim>\<open>Turn_Diff\<close>: \<^verbatim>\<open>core/src/turn_diff_tracker.rs\<close>, the diff of the patches of a turn.

  Streamed text:

  \<^item> \<^verbatim>\<open>Stream_Text\<close>: \<^verbatim>\<open>utils/stream-parser/src/stream_text.rs\<close> and \<^verbatim>\<open>utf8_stream.rs\<close>. The trait
    \<^verbatim>\<open>StreamTextParser\<close> is the locale \<^verbatim>\<open>stream_parser\<close>, with three interpretations in the next theories.
  \<^item> \<^verbatim>\<open>Stream_Inline\<close>: \<^verbatim>\<open>inline_hidden_tag.rs\<close> and \<^verbatim>\<open>citation.rs\<close>.
  \<^item> \<^verbatim>\<open>Stream_Lines\<close>: \<^verbatim>\<open>tagged_line_parser.rs\<close> and \<^verbatim>\<open>proposed_plan.rs\<close>.
  \<^item> \<^verbatim>\<open>Stream_Assistant\<close>: \<^verbatim>\<open>assistant_text.rs\<close>, the parsers of the messages of a turn in
    \<^verbatim>\<open>core/src/session/turn.rs\<close> and the finished message of \<^verbatim>\<open>core/src/stream_events_utils.rs\<close>.

  \<^bold>\<open>What the lemmas show.\<close>

  \<^item> Commands: a rule that forbids a command is obeyed, managed requirements survive every failure to load
    a file, a command is run without asking only for the reasons the approval mode gives, the words taken
    out of a shell script are those of its syntax tree, and an amendment has the effect it was offered for.
  \<^item> Sandbox policy: the most specific entry decides, writes need an entry that grants them, the roots
    given to the platform sandbox allow no more than the policy, denials survive replacement of a policy,
    and the permissions of a command are within request and grant.
  \<^item> Patches: printing and parsing are inverse, an update replaces exactly the lines it names, the changes
    that are approved are those that are applied, a patch that is approved automatically stays within the
    policy, the recorded delta is what happened to the files even after a failure, and the diff of a turn
    compares the first with the last contents, whatever the cache of rendered diffs holds.
  \<^item> Streamed text: the parsers do not see how the text is cut, text is held back only as long as it may be
    a tag, refused bytes leave no trace, and what is shown of a message while it arrives agrees with the
    finished message.

  \<^bold>\<open>Conventions.\<close> Errors are values of a sum type, panics are \<^verbatim>\<open>None\<close>. Code of other packages (Starlark,
  tree-sitter, shlex, serde_json, url, globset, similar) is a function parameter, with what is relied on as
  a hypothesis of the theorem that needs it. Windows-only branches are compiled out of the build that is
  modelled. A hash map is an association list or a map; where its iteration order shows, the order is an
  argument.

  \<^bold>\<open>Recursion.\<close> No fuel is used. The tree walks recurse on the number of nodes on the stack, the
  dangerous-command search on its wrapper budget, the parsers on their input. The two loops whose end is
  not structural, over the ancestors of a path and over the tags of a text, are partial functions into
  \<^verbatim>\<open>option\<close>, and it is proved that they return.

  \<^bold>\<open>Not modelled.\<close> System-call level enforcement (Landlock, seccomp, bubblewrap, Seatbelt, Windows tokens),
  network services and clients, the terminal user interface, databases and process control have no
  logic that can be stated without their environment. The asynchronous turn loop is modelled only where it
  calls the parts above. The Windows command analysis calls a PowerShell process. Serialisation is not
  modelled. Command summaries, truncation of output and the other small utilities only shape text that is
  displayed or sent to the model.
\<close>

end
